(* ===== verification/Prelude.thy ===== *)
theory Prelude
  imports Main "HOL-Library.Word"
begin

text \<open>
  Shared vocabulary of the LSProxy development: the faults a C++ operation can end in, the
  error monad the operations are written in, C's unsigned arithmetic on a given width, and
  memory as lists with bounds-checked copies.  Every theory of the development imports this
  one.
\<close>

named_theorems res_simps \<open>evaluation of the error monad\<close>
named_theorems mem_simps \<open>bounds-checked memory operations\<close>

section \<open>Faults and the error monad\<close>

text \<open>
  The ways an operation of the program can fail to return normally: a memory access outside
  an array, a dereference of a null or freed pointer, a failed \<open>assert\<close>, \<open>ERROR_EXIT\<close> (which
  prints a message and aborts), and arithmetic on \<open>int\<close> that overflows.  \<open>Diverged\<close> marks a loop that ran out of fuel; the
  development proves that it is never returned.
\<close>

datatype fault = OutOfBounds | NullDeref | UseAfterFree | AssertFailed | Abort | SignedOverflow | Diverged

type_synonym 'a res = "fault + 'a"

definition bindE :: "'a res \<Rightarrow> ('a \<Rightarrow> 'b res) \<Rightarrow> 'b res" where
  "bindE m f = (case m of Inl e \<Rightarrow> Inl e | Inr x \<Rightarrow> f x)"

definition assertE :: "bool \<Rightarrow> unit res" where
  "assertE b = (if b then Inr () else Inl AssertFailed)"

text \<open>A pointer that may be null is an option; using it dereferences it.\<close>

definition derefE :: "'a option \<Rightarrow> 'a res" where
  "derefE p = (case p of None \<Rightarrow> Inl NullDeref | Some x \<Rightarrow> Inr x)"

section \<open>Unsigned arithmetic\<close>

text \<open>Subtraction of two unsigned integers of \<open>w\<close> bits wraps around.\<close>

definition usub :: "nat \<Rightarrow> nat \<Rightarrow> nat \<Rightarrow> nat" where
  "usub w a b = (a + (2 ^ w - b mod 2 ^ w)) mod 2 ^ w"

text \<open>The conversion of an unsigned integer to one of \<open>w\<close> bits.\<close>

definition utrunc :: "nat \<Rightarrow> nat \<Rightarrow> nat" where
  "utrunc w a = a mod 2 ^ w"

section \<open>Memory\<close>

text \<open>Overwrite a list from position \<open>i\<close>; the C \<open>memcpy\<close> into an array with its bound.\<close>

definition overwrite :: "'a list \<Rightarrow> nat \<Rightarrow> 'a list \<Rightarrow> 'a list" where
  "overwrite xs i ys = take i xs @ ys @ drop (i + length ys) xs"

definition memcpy :: "'a list \<Rightarrow> nat \<Rightarrow> 'a list \<Rightarrow> 'a list res" where
  "memcpy dst i src =
     (if i + length src \<le> length dst then Inr (overwrite dst i src) else Inl OutOfBounds)"

text \<open>The \<open>n\<close> bytes an operation reads from an array at position \<open>i\<close>.\<close>

definition mem_read :: "'a list \<Rightarrow> nat \<Rightarrow> nat \<Rightarrow> 'a list res" where
  "mem_read src i n =
     (if i + n \<le> length src then Inr (take n (drop i src)) else Inl OutOfBounds)"

section \<open>Lemmas\<close>

lemma bindE_simps [simp, res_simps]:
  "bindE (Inl e) f = Inl e"
  "bindE (Inr x) f = f x"
  by (simp_all add: bindE_def)

lemma bindE_eq_Inr_iff: "bindE m f = Inr y \<longleftrightarrow> (\<exists>x. m = Inr x \<and> f x = Inr y)"
  by (cases m) auto

lemma bindE_InrE:
  assumes "bindE m f = Inr y"
  obtains x where "m = Inr x" "f x = Inr y"
  using assms by (cases m) auto

lemma bindE_eq_Inl_iff: "bindE m f = Inl e \<longleftrightarrow> m = Inl e \<or> (\<exists>x. m = Inr x \<and> f x = Inl e)"
  by (cases m) auto

lemma bindE_assoc: "bindE (bindE m f) g = bindE m (\<lambda>x. bindE (f x) g)"
  by (cases m) auto

lemma assertE_simps [simp, res_simps]:
  "assertE True = Inr ()"
  "assertE False = Inl AssertFailed"
  by (simp_all add: assertE_def)

lemma derefE_simps [simp, res_simps]:
  "derefE None = Inl NullDeref"
  "derefE (Some x) = Inr x"
  by (simp_all add: derefE_def)

lemma derefE_eq_Inr_iff [simp]: "derefE p = Inr x \<longleftrightarrow> p = Some x"
  by (cases p) auto

lemma usub_no_wrap: "b \<le> a \<Longrightarrow> a < 2 ^ w \<Longrightarrow> usub w a b = a - b"
proof -
  assume "b \<le> a" "a < 2 ^ w"
  then have "b mod 2 ^ w = b" by simp
  with \<open>b \<le> a\<close> \<open>a < 2 ^ w\<close> have "a + (2 ^ w - b mod 2 ^ w) = (a - b) + 2 ^ w" by simp
  with \<open>a < 2 ^ w\<close> show ?thesis by (simp add: usub_def)
qed

lemma usub_wraps: "a < b \<Longrightarrow> b < 2 ^ w \<Longrightarrow> usub w a b = 2 ^ w - (b - a)"
  by (simp add: usub_def)

lemma usub_self [simp]: "a < 2 ^ w \<Longrightarrow> usub w a a = 0"
  by (simp add: usub_no_wrap)

lemma usub_lt [simp]: "usub w a b < 2 ^ w"
  by (simp add: usub_def)

lemma length_overwrite [simp]: "i + length ys \<le> length xs \<Longrightarrow> length (overwrite xs i ys) = length xs"
  by (simp add: overwrite_def)

lemma overwrite_Nil [simp]: "i \<le> length xs \<Longrightarrow> overwrite xs i [] = xs"
  by (simp add: overwrite_def)

lemma overwrite_at_end: "overwrite xs (length xs) ys = xs @ ys"
  by (simp add: overwrite_def)

lemma take_overwrite [simp]: "i \<le> length xs \<Longrightarrow> take i (overwrite xs i ys) = take i xs"
  by (simp add: overwrite_def)

lemma take_overwrite_ys: "i \<le> length xs \<Longrightarrow> take (i + length ys) (overwrite xs i ys) = take i xs @ ys"
  by (simp add: overwrite_def)

lemma drop_overwrite [simp]:
  "i \<le> length xs \<Longrightarrow> drop (i + length ys) (overwrite xs i ys) = drop (i + length ys) xs"
  by (simp add: overwrite_def)

lemma take_overwrite_le: "k \<le> i \<Longrightarrow> i \<le> length xs \<Longrightarrow> take k (overwrite xs i ys) = take k xs"
  by (simp add: overwrite_def)

lemma drop_overwrite_ge:
  "i + length ys \<le> k \<Longrightarrow> i \<le> length xs \<Longrightarrow> drop k (overwrite xs i ys) = drop k xs"
  by (simp add: overwrite_def)

lemma memcpy_ok [simp, mem_simps]:
  "i + length src \<le> length dst \<Longrightarrow> memcpy dst i src = Inr (overwrite dst i src)"
  by (simp add: memcpy_def)

lemma mem_read_ok [simp, mem_simps]:
  "i + n \<le> length src \<Longrightarrow> mem_read src i n = Inr (take n (drop i src))"
  by (simp add: mem_read_def)

lemma take_drop_append_take:
  "a \<le> b \<Longrightarrow> take (b - a) (drop a xs) @ drop b xs = drop a xs"
  by (metis append_take_drop_id drop_drop le_add_diff_inverse2)

lemma take_prefix_append_drop:
  assumes "d = take (length d) (drop p xs)" "n \<le> length d"
  shows "take n d @ drop (p + n) xs = drop p xs"
proof -
  have "take n d = take n (take (length d) (drop p xs))" by (subst assms(1)) simp
  also have "\<dots> = take n (drop p xs)" using assms(2) by (simp add: min_absorb1)
  finally show ?thesis using append_take_drop_id [of n "drop p xs"] by (simp add: add.commute)
qed

lemma take_min_length_drop [simp]: "take (min (length xs - p) n) (drop p xs) = take n (drop p xs)"
  by (cases "n \<le> length xs - p") (auto simp: min_def)

lemma unat_of_nat_small: "n < 2 ^ LENGTH('a) \<Longrightarrow> unat (of_nat n :: 'a::len word) = n"
  by (simp add: unat_of_nat)

end
