(* ===== verification/Config.thy ===== *)
theory Config
  imports Prelude
begin

text \<open>
  The compile-time parameters of \<open>src/ls_proxy.h\<close> and \<open>src/client.cpp\<close>, with the values the
  macros expand to.  The tests of the repository override some of them, so the theorems about
  buffers are stated for arrays of any positive size and use these constants only where a
  buffer is constructed.
\<close>

definition MAX_CONNECTION :: nat where
  "MAX_CONNECTION = 65536"

definition MAX_HYBRID_POOL :: nat where
  "MAX_HYBRID_POOL = MAX_CONNECTION div 4"

definition SOCK_IO_BUF_SIZE :: nat where
  "SOCK_IO_BUF_SIZE = 10 * 1024"

definition HIST_CACHE_SIZE :: nat where
  "HIST_CACHE_SIZE = 8 * 1024"

definition SOCK_CLOSE_WAITTIME :: nat where
  "SOCK_CLOSE_WAITTIME = 10"

definition MONITOR_INTERVAL :: nat where
  "MONITOR_INTERVAL = 10"

definition DTR_THRESHOLD :: nat where
  "DTR_THRESHOLD = 2 * 1024"

definition MIN_DOWNLOAD_SPEED :: nat where
  "MIN_DOWNLOAD_SPEED = 100"

definition TRANS_TIMEOUT :: nat where
  "TRANS_TIMEOUT = 3"

definition MAX_FILE_DSC :: nat where
  "MAX_FILE_DSC = 7 * MAX_CONNECTION + 7"

text \<open>The newbie first pass guarantee of \<open>src/client.cpp\<close>.\<close>

definition COUNTER_INIT :: nat where
  "COUNTER_INIT = (DTR_THRESHOLD + MIN_DOWNLOAD_SPEED) * MONITOR_INTERVAL"

text \<open>
  Data passes through the one \<open>global_buffer\<close>; a transfer that does not fit there would
  overrun it.
\<close>

definition to_global_buffer :: "char list \<Rightarrow> char list res" where
  "to_global_buffer d = (if length d \<le> SOCK_IO_BUF_SIZE then Inr d else Inl OutOfBounds)"

lemma to_global_buffer_ok [simp]: "length d \<le> SOCK_IO_BUF_SIZE \<Longrightarrow> to_global_buffer d = Inr d"
  by (simp add: to_global_buffer_def)

lemma SOCK_IO_BUF_SIZE_pos [simp]: "0 < SOCK_IO_BUF_SIZE"
  by (simp add: SOCK_IO_BUF_SIZE_def)

lemma HIST_CACHE_SIZE_bounds [simp]: "0 < HIST_CACHE_SIZE" "HIST_CACHE_SIZE < 2 ^ 32"
  by (simp_all add: HIST_CACHE_SIZE_def)

end
