(* ===== verification/Sysio.thy ===== *)
theory Sysio
  imports Prelude
begin

text \<open>
  Non-blocking sockets and the two loops every transfer of the proxy goes through,
  \<open>read_all\<close> and \<open>write_all\<close> (\<open>src/ls_proxy.cpp\<close>).  What the kernel answers to the coming
  \<open>read\<close> and \<open>write\<close> calls on a socket is part of the socket, as a script; the theorems
  quantify over all scripts.  The ghost fields \<open>received\<close> and \<open>sent\<close> record the bytes the
  program took out of and put into the socket so far.
\<close>

datatype errno = EAGAIN | EINTR | EOTHER nat

text \<open>An answer to one \<open>read\<close>: bytes waiting, the peer's end of file, or an error.\<close>

datatype rres = RData "char list" | REof | RErr errno

text \<open>An answer to one \<open>write\<close>: room for so many bytes, or an error.\<close>

datatype wres = WAcc nat | WErr errno

record sock =
  rx :: "rres list"
  tx :: "wres list"
  received :: "char list"
  sent :: "char list"
  sock_errno :: errno
  shut_wr :: bool
  closed :: bool
  lingering :: bool

text \<open>
  POSIX \<open>read\<close>: at most \<open>n\<close> of the waiting bytes; 0 at the end of file, which stays; -1 and
  \<open>errno\<close> on an error, \<open>EAGAIN\<close> when nothing is waiting.  The bytes read are returned
  beside the count.
\<close>

definition sys_read :: "sock \<Rightarrow> nat \<Rightarrow> int \<times> char list \<times> sock" where
  "sys_read s n =
     (case rx s of
        [] \<Rightarrow> (-1, [], s\<lparr>sock_errno := EAGAIN\<rparr>)
      | RData bs # r \<Rightarrow>
          let d = take n bs; rest = drop n bs
          in (int (length d), d,
              s\<lparr>rx := (if rest = [] then r else RData rest # r), received := received s @ d\<rparr>)
      | REof # r \<Rightarrow> (0, [], s)
      | RErr e # r \<Rightarrow> (-1, [], s\<lparr>rx := r, sock_errno := e\<rparr>))"

text \<open>POSIX \<open>write\<close>: a prefix of the data is accepted, or -1 and \<open>errno\<close>.\<close>

definition sys_write :: "sock \<Rightarrow> char list \<Rightarrow> int \<times> sock" where
  "sys_write s d =
     (case tx s of
        [] \<Rightarrow> (-1, s\<lparr>sock_errno := EAGAIN\<rparr>)
      | WAcc k # r \<Rightarrow> (int (length (take k d)), s\<lparr>tx := r, sent := sent s @ take k d\<rparr>)
      | WErr e # r \<Rightarrow> (-1, s\<lparr>tx := r, sock_errno := e\<rparr>))"

text \<open>A socket on which nothing happened yet.\<close>

definition idle_sock :: sock where
  "idle_sock = \<lparr>rx = [], tx = [], received = [], sent = [], sock_errno = EAGAIN, shut_wr = False,
     closed = False, lingering = False\<rparr>"

section \<open>read_all and write_all\<close>

record io_stat =
  nbytes :: nat
  has_error :: bool
  has_eof :: bool

definition io_stat_init :: io_stat where
  "io_stat_init = \<lparr>nbytes = 0, has_error = False, has_eof = False\<rparr>"

text \<open>
  The loops.  The bytes \<open>read_all\<close> stores through its moving buffer pointer are collected in
  \<open>acc\<close>; \<open>remain\<close> is the loop's own counter.  Both loops end because each round that goes
  on moves at least one byte.
\<close>

fun read_all_loop :: "sock \<Rightarrow> nat \<Rightarrow> char list \<Rightarrow> io_stat \<Rightarrow> char list \<times> nat \<times> io_stat \<times> sock" where
  "read_all_loop s remain acc stat =
     (if remain > 0 then
        (case sys_read s remain of (count, d, s') \<Rightarrow>
           if count > 0 then read_all_loop s' (remain - nat count) (acc @ d) stat
           else if count = 0 then (acc, remain, stat\<lparr>has_eof := True\<rparr>, s')
           else (acc, remain, stat\<lparr>has_error := True\<rparr>, s'))
      else (acc, remain, stat, s))"

definition read_all :: "sock \<Rightarrow> nat \<Rightarrow> char list \<times> io_stat \<times> sock" where
  "read_all s max_size =
     (case read_all_loop s max_size [] io_stat_init of (acc, remain, stat, s') \<Rightarrow>
        (acc, stat\<lparr>nbytes := max_size - remain\<rparr>, s'))"

fun write_all_loop :: "sock \<Rightarrow> char list \<Rightarrow> io_stat \<Rightarrow> nat \<times> io_stat \<times> sock" where
  "write_all_loop s data stat =
     (if length data > 0 then
        (case sys_write s data of (count, s') \<Rightarrow>
           if count > 0 then write_all_loop s' (drop (nat count) data) stat
           else (length data, stat\<lparr>has_error := True\<rparr>, s'))
      else (0, stat, s))"

definition write_all :: "sock \<Rightarrow> char list \<Rightarrow> io_stat \<times> sock" where
  "write_all s data =
     (case write_all_loop s data io_stat_init of (remain, stat, s') \<Rightarrow>
        (stat\<lparr>nbytes := length data - remain\<rparr>, s'))"

declare read_all_loop.simps [simp del] write_all_loop.simps [simp del]

section \<open>Lemmas\<close>

text \<open>What one system call does to the socket.\<close>

lemma sys_read_spec:
  assumes "sys_read s n = (count, d, s')"
  shows "received s' = received s @ d" "sent s' = sent s" "tx s' = tx s"
    "count > 0 \<Longrightarrow> nat count = length d" "count \<le> 0 \<Longrightarrow> d = []" "length d \<le> n"
  using assms by (auto simp: sys_read_def Let_def split: list.splits rres.splits if_splits)

lemma sys_write_spec:
  assumes "sys_write s d = (count, s')"
  shows "received s' = received s" "rx s' = rx s"
    "count > 0 \<Longrightarrow> sent s' = sent s @ take (nat count) d" "count \<le> 0 \<Longrightarrow> sent s' = sent s"
    "count > 0 \<Longrightarrow> nat count \<le> length d"
  using assms by (auto simp: sys_write_def min_def split: list.splits wres.splits if_splits)

lemma read_all_loop_spec:
  assumes "read_all_loop s remain acc stat = (acc', remain', stat', s')"
    and "\<not> has_eof stat" "\<not> has_error stat"
  shows "\<exists>d. acc' = acc @ d \<and> received s' = received s @ d \<and> length d + remain' = remain
     \<and> sent s' = sent s \<and> tx s' = tx s
     \<and> (remain' > 0 \<longleftrightarrow> has_eof stat' \<or> has_error stat') \<and> \<not> (has_eof stat' \<and> has_error stat')"
  using assms
proof (induction s remain acc stat arbitrary: acc' remain' stat' s' rule: read_all_loop.induct)
  case (1 s remain acc stat)
  obtain count d s1 where r: "sys_read s remain = (count, d, s1)" by (cases "sys_read s remain")
  note sp = sys_read_spec [OF r]
  show ?case
  proof (cases "remain > 0 \<and> count > 0")
    case True
    with "1.prems"(1) r have step: "read_all_loop s1 (remain - nat count) (acc @ d) stat = (acc', remain', stat', s')"
      by (simp add: read_all_loop.simps [of s])
    from "1.IH" [OF _ r [symmetric] refl _ step "1.prems"(2,3)] True
    obtain d' where "acc' = (acc @ d) @ d'" "received s' = received s1 @ d'"
      "length d' + remain' = remain - nat count" "sent s' = sent s1" "tx s' = tx s1"
      "(remain' > 0 \<longleftrightarrow> has_eof stat' \<or> has_error stat') \<and> \<not> (has_eof stat' \<and> has_error stat')"
      by auto
    with sp True show ?thesis by (intro exI [of _ "d @ d'"]) auto
  next
    case False
    with "1.prems" r sp show ?thesis
      by (auto simp: read_all_loop.simps [of s] split: if_splits)
  qed
qed

lemma write_all_loop_spec:
  assumes "write_all_loop s data stat = (remain', stat', s')" and "\<not> has_error stat"
  shows "remain' \<le> length data \<and> sent s' = sent s @ take (length data - remain') data
     \<and> received s' = received s \<and> rx s' = rx s
     \<and> (has_error stat' \<longleftrightarrow> remain' > 0) \<and> has_eof stat' = has_eof stat"
  using assms
proof (induction s data stat arbitrary: remain' stat' s' rule: write_all_loop.induct)
  case (1 s data stat)
  obtain count s1 where w: "sys_write s data = (count, s1)" by (cases "sys_write s data")
  note sp = sys_write_spec [OF w]
  show ?case
  proof (cases "length data > 0 \<and> count > 0")
    case True
    with "1.prems"(1) w have step: "write_all_loop s1 (drop (nat count) data) stat = (remain', stat', s')"
      by (simp add: write_all_loop.simps [of s])
    from "1.IH" [OF _ w [symmetric] _ step "1.prems"(2)] True
    have ih: "remain' \<le> length data - nat count"
      "sent s' = sent s1 @ take (length data - nat count - remain') (drop (nat count) data)"
      "received s' = received s1 \<and> rx s' = rx s1 \<and> (has_error stat' \<longleftrightarrow> remain' > 0) \<and> has_eof stat' = has_eof stat"
      by auto
    have "length data - remain' = nat count + (length data - nat count - remain')"
      using ih(1) sp(5) True by linarith
    then have "take (nat count) data @ take (length data - nat count - remain') (drop (nat count) data)
        = take (length data - remain') data"
      by (simp only: take_add)
    with ih sp True show ?thesis by auto
  next
    case False
    with "1.prems" w sp show ?thesis
      by (auto simp: write_all_loop.simps [of s] split: if_splits)
  qed
qed

text \<open>What the callers of \<open>read_all\<close> and \<open>write_all\<close> rely on.\<close>

lemma read_all_spec:
  assumes "read_all s n = (d, stat, s')"
  shows "received s' = received s @ d" "length d = nbytes stat" "nbytes stat \<le> n"
    "nbytes stat < n \<longleftrightarrow> has_eof stat \<or> has_error stat" "\<not> (has_eof stat \<and> has_error stat)"
    "sent s' = sent s" "tx s' = tx s"
proof -
  obtain acc remain st s1 where l: "read_all_loop s n [] io_stat_init = (acc, remain, st, s1)"
    by (cases "read_all_loop s n [] io_stat_init")
  have "\<not> has_eof io_stat_init" "\<not> has_error io_stat_init" by (simp_all add: io_stat_init_def)
  from read_all_loop_spec [OF l this] assms l
  have "received s' = received s @ d \<and> length d = nbytes stat \<and> nbytes stat \<le> n
    \<and> (nbytes stat < n \<longleftrightarrow> has_eof stat \<or> has_error stat) \<and> \<not> (has_eof stat \<and> has_error stat)
    \<and> sent s' = sent s \<and> tx s' = tx s"
    by (auto simp: read_all_def)
  then show "received s' = received s @ d" "length d = nbytes stat" "nbytes stat \<le> n"
    "nbytes stat < n \<longleftrightarrow> has_eof stat \<or> has_error stat" "\<not> (has_eof stat \<and> has_error stat)"
    "sent s' = sent s" "tx s' = tx s" by auto
qed

text \<open>The two ordinary cases: a chunk and then nothing more for now, or the end of file.\<close>

lemma read_all_chunk:
  assumes "rx s = [RData d]" "d \<noteq> []" "length d < n"
  shows "read_all s n = (d, \<lparr>nbytes = length d, has_error = True, has_eof = False\<rparr>,
    s\<lparr>rx := [], received := received s @ d, sock_errno := EAGAIN\<rparr>)"
  using assms
  by (simp add: read_all_def io_stat_init_def sys_read_def Let_def read_all_loop.simps [of _ n]
      read_all_loop.simps [of _ "n - length d"])

lemma read_all_chunk_eof:
  assumes "rx s = [RData d, REof]" "d \<noteq> []" "length d < n"
  shows "read_all s n = (d, \<lparr>nbytes = length d, has_error = False, has_eof = True\<rparr>,
    s\<lparr>rx := [REof], received := received s @ d\<rparr>)"
  using assms
  by (simp add: read_all_def io_stat_init_def sys_read_def Let_def read_all_loop.simps [of _ n]
      read_all_loop.simps [of _ "n - length d"])

lemma read_all_eof:
  "rx s = [REof] \<Longrightarrow> 0 < n \<Longrightarrow> read_all s n = ([], \<lparr>nbytes = 0, has_error = False, has_eof = True\<rparr>, s)"
  by (simp add: read_all_def io_stat_init_def sys_read_def read_all_loop.simps [of _ n])

lemma write_all_spec:
  assumes "write_all s data = (stat, s')"
  shows "sent s' = sent s @ take (nbytes stat) data" "nbytes stat \<le> length data"
    "has_error stat \<longleftrightarrow> nbytes stat < length data" "\<not> has_eof stat"
    "received s' = received s" "rx s' = rx s"
proof -
  obtain remain st s1 where l: "write_all_loop s data io_stat_init = (remain, st, s1)"
    by (cases "write_all_loop s data io_stat_init")
  have "\<not> has_error io_stat_init" by (simp add: io_stat_init_def)
  from write_all_loop_spec [OF l this] assms l
  have "sent s' = sent s @ take (nbytes stat) data \<and> nbytes stat \<le> length data
    \<and> (has_error stat \<longleftrightarrow> nbytes stat < length data) \<and> \<not> has_eof stat
    \<and> received s' = received s \<and> rx s' = rx s"
    by (auto simp: write_all_def io_stat_init_def)
  then show "sent s' = sent s @ take (nbytes stat) data" "nbytes stat \<le> length data"
    "has_error stat \<longleftrightarrow> nbytes stat < length data" "\<not> has_eof stat"
    "received s' = received s" "rx s' = rx s" by auto
qed

lemma read_all_sent [simp]: "sent (snd (snd (read_all s n))) = sent s"
proof -
  obtain d stat s' where "read_all s n = (d, stat, s')" by (cases "read_all s n")
  with read_all_spec(6) show ?thesis by simp
qed

section \<open>Properties\<close>

text \<open>
  \<open>read_all\<close> loses and invents nothing: what it stores is exactly what it took out of the
  socket, at most \<open>max_size\<close> bytes, counted by \<open>nbytes\<close>; it stops short exactly when it
  reports an end of file or an error, never both, and it sends nothing.
\<close>

theorem read_all_exact:
  "case read_all s max_size of (d, stat, s') \<Rightarrow>
     received s' = received s @ d \<and> nbytes stat = length d \<and> length d \<le> max_size
     \<and> (length d < max_size \<longleftrightarrow> has_eof stat \<or> has_error stat) \<and> \<not> (has_eof stat \<and> has_error stat)
     \<and> sent s' = sent s"
proof -
  obtain d stat s' where r: "read_all s max_size = (d, stat, s')" by (cases "read_all s max_size")
  from read_all_spec [OF r] r show ?thesis by simp
qed

text \<open>
  \<open>write_all\<close> sends a prefix of the data, in order and without repetition, although the
  kernel may accept it in arbitrary pieces; \<open>nbytes\<close> is the length of that prefix and
  \<open>has_error\<close> is set exactly when something is left.
\<close>

theorem write_all_prefix:
  "case write_all s data of (stat, s') \<Rightarrow>
     sent s' = sent s @ take (nbytes stat) data \<and> nbytes stat \<le> length data
     \<and> (has_error stat \<longleftrightarrow> nbytes stat < length data) \<and> \<not> has_eof stat \<and> received s' = received s"
proof -
  obtain stat s' where w: "write_all s data = (stat, s')" by (cases "write_all s data")
  from write_all_spec [OF w] w show ?thesis by simp
qed

end
