(* ===== verification/Files.thy ===== *)
theory Files
  imports Config Sysio
begin

text \<open>
  The file-backed buffers of \<open>src/buffer.h\<close> and \<open>src/buffer.cpp\<close>: \<open>Filebuf\<close> (a temporary
  file with one cursor), \<open>Hybridbuf\<close> (a memory cache in front of a file) and \<open>FIFOfilebuf\<close>
  (a file with separate read and write cursors).  Inheritance is record extension; the
  virtual methods \<open>store\<close>, \<open>fetch\<close> and \<open>rewind\<close> are passed as a table to the operations that
  call them (\<open>clear\<close>, \<open>copy_data\<close>).  The interface the clients use is the locale
  \<open>byte_store\<close>, interpreted for each of the three classes.
\<close>

section \<open>Files\<close>

text \<open>
  The open temporary file of a buffer: its content, the offset of \<open>fd\<close>, and what the disk
  answers to the coming system calls (an exhausted script means success).
\<close>

record filebuf =
  data_size :: nat
  content :: "char list"
  fd_pos :: nat
  d_write :: "wres list"
  d_read :: "errno option list"
  d_trunc :: "errno option list"
  fb_errno :: errno

text \<open>
  The disk a new temporary file lands on; \<open>None\<close> in its place means that \<open>mkstemp\<close> fails.
\<close>

record disk =
  dk_write :: "wres list"
  dk_read :: "errno option list"
  dk_trunc :: "errno option list"

text \<open>Writing at an offset overwrites; a hole before it reads as zeros.\<close>

definition file_put :: "char list \<Rightarrow> nat \<Rightarrow> char list \<Rightarrow> char list" where
  "file_put c pos bs = overwrite (c @ replicate (pos - length c) (CHR 0x00)) pos bs"

definition file_write :: "'a filebuf_scheme \<Rightarrow> char list \<Rightarrow> int \<times> 'a filebuf_scheme" where
  "file_write fb d =
     (case d_write fb of
        [] \<Rightarrow> (int (length d),
               fb\<lparr>content := file_put (content fb) (fd_pos fb) d, fd_pos := fd_pos fb + length d\<rparr>)
      | WAcc k # r \<Rightarrow>
          (int (length (take k d)),
           fb\<lparr>content := file_put (content fb) (fd_pos fb) (take k d),
              fd_pos := fd_pos fb + length (take k d), d_write := r\<rparr>)
      | WErr e # r \<Rightarrow> (-1, fb\<lparr>d_write := r, fb_errno := e\<rparr>))"

text \<open>The bytes a \<open>read\<close> at an offset returns, or -1.\<close>

definition file_read_at :: "'a filebuf_scheme \<Rightarrow> nat \<Rightarrow> nat \<Rightarrow> int \<times> char list \<times> 'a filebuf_scheme" where
  "file_read_at fb pos n =
     (case d_read fb of
        Some e # r \<Rightarrow> (-1, [], fb\<lparr>d_read := r, fb_errno := e\<rparr>)
      | None # r \<Rightarrow>
          let d = take n (drop pos (content fb)) in (int (length d), d, fb\<lparr>d_read := r\<rparr>)
      | [] \<Rightarrow>
          let d = take n (drop pos (content fb)) in (int (length d), d, fb))"

text \<open>The result of \<open>ftruncate(fd, 0)\<close>: whether it succeeded.\<close>

definition file_truncate :: "'a filebuf_scheme \<Rightarrow> bool \<times> 'a filebuf_scheme" where
  "file_truncate fb =
     (case d_trunc fb of
        Some e # r \<Rightarrow> (False, fb\<lparr>d_trunc := r, fb_errno := e\<rparr>)
      | None # r \<Rightarrow> (True, fb\<lparr>d_trunc := r, content := []\<rparr>)
      | [] \<Rightarrow> (True, fb\<lparr>content := []\<rparr>))"

text \<open>The offset after \<open>lseek(fd, -amt, whence)\<close> as \<open>_file_rewind\<close> calls it.\<close>

definition lseek_back :: "nat \<Rightarrow> nat \<Rightarrow> nat res" where
  "lseek_back pos amt =
     (if amt = 0 then Inr 0 else if amt \<le> pos then Inr (pos - amt) else Inl Abort)"

section \<open>Filebuf\<close>

record 'b vtable =
  vt_store :: "'b \<Rightarrow> char list \<Rightarrow> 'b res"
  vt_fetch :: "'b \<Rightarrow> nat \<Rightarrow> (int \<times> char list \<times> 'b) res"
  vt_rewind :: "'b \<Rightarrow> nat \<Rightarrow> 'b res"

definition Filebuf_new :: "disk option \<Rightarrow> filebuf res" where
  "Filebuf_new dk =
     (case dk of None \<Rightarrow> Inl Abort
      | Some k \<Rightarrow> Inr \<lparr>data_size = 0, content = [], fd_pos = 0, d_write = dk_write k,
          d_read = dk_read k, d_trunc = dk_trunc k, fb_errno = EOTHER 0\<rparr>)"

text \<open>The write loop of \<open>_file_write\<close>: at most \<open>tries\<close> rounds; returns what is left.\<close>

fun Filebuf_write_loop ::
    "nat \<Rightarrow> 'a filebuf_scheme \<Rightarrow> char list \<Rightarrow> ('a filebuf_scheme \<times> char list) res" where
  "Filebuf_write_loop 0 fb data = Inr (fb, data)"
| "Filebuf_write_loop (Suc tries) fb data =
     (if data = [] then Inr (fb, data)
      else case file_write fb data of (count, fb') \<Rightarrow>
        if count > 0 then Filebuf_write_loop tries fb' (drop (nat count) data)
        else if fb_errno fb' \<noteq> EAGAIN \<and> fb_errno fb' \<noteq> EINTR then Inl Abort
        else Filebuf_write_loop tries fb' data)"

definition Filebuf_file_write :: "'a filebuf_scheme \<Rightarrow> char list \<Rightarrow> 'a filebuf_scheme res" where
  "Filebuf_file_write fb data =
     bindE (Filebuf_write_loop 10 fb data) (\<lambda>(fb', rest).
       Inr (fb'\<lparr>data_size := data_size fb' + (length data - length rest)\<rparr>))"

definition Filebuf_file_read :: "'a filebuf_scheme \<Rightarrow> nat \<Rightarrow> (int \<times> char list \<times> 'a filebuf_scheme) res" where
  "Filebuf_file_read fb max_size =
     (case file_read_at fb (fd_pos fb) max_size of (count, d, fb') \<Rightarrow>
        Inr (count, d, fb'\<lparr>fd_pos := fd_pos fb' + length d\<rparr>))"

definition Filebuf_file_rewind :: "'a filebuf_scheme \<Rightarrow> nat \<Rightarrow> 'a filebuf_scheme res" where
  "Filebuf_file_rewind fb amt =
     bindE (lseek_back (fd_pos fb) amt) (\<lambda>p. Inr (fb\<lparr>fd_pos := p\<rparr>))"

definition Filebuf_vt :: "'a filebuf_scheme vtable" where
  "Filebuf_vt = \<lparr>vt_store = Filebuf_file_write, vt_fetch = Filebuf_file_read,
     vt_rewind = Filebuf_file_rewind\<rparr>"

definition Filebuf_clear :: "'a filebuf_scheme vtable \<Rightarrow> 'a filebuf_scheme \<Rightarrow> 'a filebuf_scheme res" where
  "Filebuf_clear vt fb =
     (let fb0 = fb\<lparr>data_size := 0\<rparr> in
      case file_truncate fb0 of (ok, fb1) \<Rightarrow>
        if ok then vt_rewind vt fb1 0
        else if fb_errno fb1 = EINTR then
          (case file_truncate fb1 of (ok2, fb2) \<Rightarrow>
             if ok2 then vt_rewind vt fb2 0 else Inl Abort)
        else Inl Abort)"

text \<open>
  The loop of \<open>copy_data\<close>, with fuel: it moves a positive number of bytes per round, so one
  more round than there are bytes in the source is enough.
\<close>

fun Filebuf_copy_loop ::
    "'s vtable \<Rightarrow> 'd vtable \<Rightarrow> nat \<Rightarrow> 's \<Rightarrow> 'd \<Rightarrow> ('s \<times> 'd) res" where
  "Filebuf_copy_loop sv dv 0 source dest = Inl Diverged"
| "Filebuf_copy_loop sv dv (Suc fuel) source dest =
     bindE (vt_fetch sv source SOCK_IO_BUF_SIZE) (\<lambda>(n, d, source').
       if n > 0 then
         bindE (to_global_buffer d) (\<lambda>g.
         bindE (vt_store dv dest g) (\<lambda>dest'.
           Filebuf_copy_loop sv dv fuel source' dest'))
       else Inr (source', dest))"

definition Filebuf_copy_data ::
    "'a filebuf_scheme vtable \<Rightarrow> 'b filebuf_scheme vtable \<Rightarrow> 'a filebuf_scheme \<Rightarrow> 'b filebuf_scheme
     \<Rightarrow> ('a filebuf_scheme \<times> 'b filebuf_scheme) res" where
  "Filebuf_copy_data sv dv source dest =
     bindE (Filebuf_clear dv dest) (\<lambda>dest'.
     bindE (vt_rewind sv source 0) (\<lambda>source'.
       Filebuf_copy_loop sv dv (Suc (data_size source')) source' dest'))"

text \<open>
  The read-back loop of the repository's buffer test (\<open>_rw_helper\<close>): store all chunks, rewind,
  fetch until everything asked for has arrived or a fetch returns nothing.
\<close>

fun rw_store :: "'b vtable \<Rightarrow> 'b \<Rightarrow> char list list \<Rightarrow> 'b res" where
  "rw_store vt b [] = Inr b"
| "rw_store vt b (d # ds) = bindE (vt_store vt b d) (\<lambda>b'. rw_store vt b' ds)"

fun rw_fetch :: "'b vtable \<Rightarrow> nat \<Rightarrow> 'b \<Rightarrow> nat \<Rightarrow> (char list \<times> nat) res" where
  "rw_fetch vt 0 b remain = (if remain > 0 then Inl Diverged else Inr ([], remain))"
| "rw_fetch vt (Suc fuel) b remain =
     (if remain > 0 then
        bindE (vt_fetch vt b remain) (\<lambda>(count, d, b').
          if count > 0 then
            bindE (rw_fetch vt fuel b' (remain - nat count)) (\<lambda>(ds, r). Inr (d @ ds, r))
          else Inr ([], remain))
      else Inr ([], remain))"

definition rw_helper :: "'b vtable \<Rightarrow> 'b \<Rightarrow> char list list \<Rightarrow> (char list \<times> nat) res" where
  "rw_helper vt b chunks =
     bindE (rw_store vt b chunks) (\<lambda>b1.
     bindE (vt_rewind vt b1 0) (\<lambda>b2.
       rw_fetch vt (length (concat chunks)) b2 (length (concat chunks))))"

section \<open>Hybridbuf\<close>

record hybridbuf = filebuf +
  hb_buffer :: "char list"
  next_pos :: nat

definition Hybridbuf_new :: "disk option \<Rightarrow> hybridbuf res" where
  "Hybridbuf_new dk =
     bindE (Filebuf_new dk) (\<lambda>fb.
       Inr (filebuf.extend fb (hybridbuf.fields (replicate HIST_CACHE_SIZE (CHR 0x00)) 0)))"

definition Hybridbuf_buf_remaining_space :: "hybridbuf \<Rightarrow> nat" where
  "Hybridbuf_buf_remaining_space hb =
     (if next_pos hb < length (hb_buffer hb) then length (hb_buffer hb) - next_pos hb else 0)"

definition Hybridbuf_buf_unread_data_size :: "hybridbuf \<Rightarrow> nat" where
  "Hybridbuf_buf_unread_data_size hb =
     usub 64 (min (data_size hb) (length (hb_buffer hb))) (next_pos hb)"

definition Hybridbuf_buf_write :: "hybridbuf \<Rightarrow> char list \<Rightarrow> (nat \<times> hybridbuf) res" where
  "Hybridbuf_buf_write hb data =
     (let space = Hybridbuf_buf_remaining_space hb in
      if space > 0 then
        let size = min (length data) space in
        bindE (memcpy (hb_buffer hb) (next_pos hb) (take size data)) (\<lambda>b.
          Inr (size, hb\<lparr>hb_buffer := b, next_pos := next_pos hb + size,
                        data_size := data_size hb + size\<rparr>))
      else Inr (0, hb))"

definition Hybridbuf_buf_read :: "hybridbuf \<Rightarrow> nat \<Rightarrow> (nat \<times> char list \<times> hybridbuf) res" where
  "Hybridbuf_buf_read hb max_size =
     (let size = Hybridbuf_buf_unread_data_size hb in
      if size > 0 then
        let size = min size max_size in
        bindE (mem_read (hb_buffer hb) (next_pos hb) size) (\<lambda>d.
          Inr (size, d, hb\<lparr>next_pos := next_pos hb + size\<rparr>))
      else Inr (0, [], hb))"

text \<open>\<open>_buf_rewind\<close> takes a 32-bit \<open>unsigned\<close> and subtracts in 32 bits.\<close>

definition Hybridbuf_buf_rewind :: "hybridbuf \<Rightarrow> nat \<Rightarrow> hybridbuf" where
  "Hybridbuf_buf_rewind hb amt =
     (let amt = utrunc 32 amt in
      hb\<lparr>next_pos := usub 32 (next_pos hb) (if amt = 0 then next_pos hb else amt)\<rparr>)"

definition Hybridbuf_store :: "hybridbuf \<Rightarrow> char list \<Rightarrow> hybridbuf res" where
  "Hybridbuf_store hb data =
     bindE (Hybridbuf_buf_write hb data) (\<lambda>(count, hb').
       if length data - count > 0 then Filebuf_file_write hb' (drop count data) else Inr hb')"

definition Hybridbuf_fetch :: "hybridbuf \<Rightarrow> nat \<Rightarrow> (int \<times> char list \<times> hybridbuf) res" where
  "Hybridbuf_fetch hb max_size =
     bindE (Hybridbuf_buf_read hb max_size) (\<lambda>(count, d, hb').
       if count > 0 then Inr (int count, d, hb') else Filebuf_file_read hb' max_size)"

definition Hybridbuf_rewind :: "hybridbuf \<Rightarrow> nat \<Rightarrow> hybridbuf res" where
  "Hybridbuf_rewind hb amount =
     (if amount = 0 then
        bindE (Filebuf_file_rewind hb 0) (\<lambda>hb'. Inr (Hybridbuf_buf_rewind hb' 0))
      else
        let offset = usub 64 (data_size hb) amount in
        if offset < length (hb_buffer hb) then
          bindE (Filebuf_file_rewind hb 0) (\<lambda>hb'.
            Inr (Hybridbuf_buf_rewind hb' (usub 64 (next_pos hb') offset)))
        else Filebuf_file_rewind hb amount)"

definition Hybridbuf_vt :: "hybridbuf vtable" where
  "Hybridbuf_vt = \<lparr>vt_store = Hybridbuf_store, vt_fetch = Hybridbuf_fetch,
     vt_rewind = Hybridbuf_rewind\<rparr>"

section \<open>FIFOfilebuf\<close>

record fifofilebuf = filebuf +
  reader_pos :: nat

text \<open>The constructor opens the file a second time; \<open>reopen\<close> says whether that works.\<close>

definition FIFOfilebuf_new :: "disk option \<Rightarrow> bool \<Rightarrow> fifofilebuf res" where
  "FIFOfilebuf_new dk reopen =
     bindE (Filebuf_new dk) (\<lambda>fb.
       if reopen then Inr (filebuf.extend fb (fifofilebuf.fields 0)) else Inl Abort)"

definition FIFOfilebuf_file_read :: "fifofilebuf \<Rightarrow> nat \<Rightarrow> (int \<times> char list \<times> fifofilebuf) res" where
  "FIFOfilebuf_file_read fb max_size =
     (case file_read_at fb (reader_pos fb) max_size of (count, d, fb') \<Rightarrow>
        Inr (count, d, fb'\<lparr>reader_pos := reader_pos fb' + length d\<rparr>))"

definition FIFOfilebuf_file_rewind :: "fifofilebuf \<Rightarrow> nat \<Rightarrow> fifofilebuf res" where
  "FIFOfilebuf_file_rewind fb amt =
     bindE (lseek_back (reader_pos fb) amt) (\<lambda>p.
       Inr (fb\<lparr>reader_pos := p, fd_pos := (if amt = 0 then 0 else fd_pos fb)\<rparr>))"

definition FIFOfilebuf_vt :: "fifofilebuf vtable" where
  "FIFOfilebuf_vt = \<lparr>vt_store = Filebuf_file_write, vt_fetch = FIFOfilebuf_file_read,
     vt_rewind = FIFOfilebuf_file_rewind\<rparr>"

section \<open>The interface of the stores\<close>

text \<open>
  The contract a client of a buffer relies on: the stored bytes and a read cursor; storing
  appends where the buffer is in a state to do so; fetching returns the next bytes at the
  cursor and nothing exactly at the end; rewinding by 0 goes back to the beginning; clearing
  empties.
\<close>

locale byte_store =
  fixes vt :: "'b vtable"
    and clear :: "'b \<Rightarrow> 'b res"
    and invar :: "'b \<Rightarrow> bool"
    and stored :: "'b \<Rightarrow> char list"
    and cursor :: "'b \<Rightarrow> nat"
    and appendable :: "'b \<Rightarrow> bool"
  assumes cursor_le: "invar b \<Longrightarrow> cursor b \<le> length (stored b)"
    and store_law: "invar b \<Longrightarrow> appendable b \<Longrightarrow>
      \<exists>b'. vt_store vt b d = Inr b' \<and> invar b' \<and> appendable b' \<and> stored b' = stored b @ d"
    and fetch_law: "invar b \<Longrightarrow> 0 < n \<Longrightarrow>
      \<exists>d b'. vt_fetch vt b n = Inr (int (length d), d, b') \<and> invar b' \<and> stored b' = stored b
        \<and> cursor b' = cursor b + length d \<and> d = take (length d) (drop (cursor b) (stored b))
        \<and> length d \<le> n \<and> (d = [] \<longleftrightarrow> cursor b = length (stored b))"
    and rewind_law: "invar b \<Longrightarrow>
      \<exists>b'. vt_rewind vt b 0 = Inr b' \<and> invar b' \<and> stored b' = stored b \<and> cursor b' = 0"
    and clear_law: "invar b \<Longrightarrow>
      \<exists>b'. clear b = Inr b' \<and> invar b' \<and> stored b' = [] \<and> cursor b' = 0 \<and> appendable b'"
begin

text \<open>A fetch that finds bytes makes progress.\<close>

lemma fetch_progress:
  assumes "invar b" "0 < n" "cursor b < length (stored b)"
  obtains d b' where "vt_fetch vt b n = Inr (int (length d), d, b')" "d \<noteq> []" "length d \<le> n"
    "invar b'" "stored b' = stored b" "cursor b' = cursor b + length d"
    "drop (cursor b) (stored b) = d @ drop (cursor b') (stored b)"
proof -
  from fetch_law [OF assms(1,2)] obtain d b' where d: "vt_fetch vt b n = Inr (int (length d), d, b')"
    "invar b'" "stored b' = stored b" "cursor b' = cursor b + length d"
    "d = take (length d) (drop (cursor b) (stored b))" "length d \<le> n"
    "d = [] \<longleftrightarrow> cursor b = length (stored b)" by blast
  from d(5) have "drop (cursor b) (stored b) = d @ drop (cursor b + length d) (stored b)"
    by (metis add.commute append_take_drop_id drop_drop)
  with d assms(3) show thesis by (intro that [of d b']) auto
qed

lemma fetch_at_end:
  assumes "invar b" "0 < n" "cursor b = length (stored b)"
  obtains b' where "vt_fetch vt b n = Inr (0, [], b')" "invar b'" "stored b' = stored b"
    "cursor b' = cursor b"
proof -
  from fetch_law [OF assms(1,2)] assms(3)
  obtain b' where "vt_fetch vt b n = Inr (int (length ([] :: char list)), [], b')" "invar b'"
    "stored b' = stored b" "cursor b' = cursor b + length ([] :: char list)" by blast
  then show thesis by (intro that [of b']) auto
qed

lemma rw_store_correct:
  assumes "invar b" "appendable b"
  shows "\<exists>b'. rw_store vt b chunks = Inr b' \<and> invar b' \<and> stored b' = stored b @ concat chunks"
  using assms
proof (induction chunks arbitrary: b)
  case (Cons d ds)
  from store_law [OF Cons.prems] obtain b1 where b1: "vt_store vt b d = Inr b1" "invar b1"
    "appendable b1" "stored b1 = stored b @ d" by blast
  with Cons.IH [OF b1(2,3)] show ?case by simp
qed simp

lemma rw_fetch_correct:
  assumes "invar b" "remain \<le> fuel" "cursor b + remain \<le> length (stored b)"
  shows "rw_fetch vt fuel b remain = Inr (take remain (drop (cursor b) (stored b)), 0)"
  using assms
proof (induction fuel arbitrary: b remain)
  case (Suc fuel)
  show ?case
  proof (cases "0 < remain")
    case True
    with Suc.prems(3) have "cursor b < length (stored b)" by simp
    with Suc.prems(1) True obtain d b1 where d: "vt_fetch vt b remain = Inr (int (length d), d, b1)"
      "d \<noteq> []" "length d \<le> remain" "invar b1" "stored b1 = stored b" "cursor b1 = cursor b + length d"
      "drop (cursor b) (stored b) = d @ drop (cursor b1) (stored b)"
      by (rule fetch_progress)
    from d(2) have l: "0 < length d" by simp
    then have "remain - length d \<le> fuel" using Suc.prems(2) by linarith
    then have "rw_fetch vt fuel b1 (remain - length d) =
        Inr (take (remain - length d) (drop (cursor b1) (stored b1)), 0)"
      using Suc.prems d(3-6) l by (intro Suc.IH) auto
    with d l True show ?thesis by simp
  qed simp
qed simp

lemma rw_helper_correct:
  assumes "invar b" "appendable b" "stored b = []"
  shows "rw_helper vt b chunks = Inr (concat chunks, 0)"
proof -
  from rw_store_correct [OF assms(1,2)] assms(3) obtain b1 where b1: "rw_store vt b chunks = Inr b1"
    "invar b1" "stored b1 = concat chunks" by auto
  from rewind_law [OF b1(2)] obtain b2 where "vt_rewind vt b1 0 = Inr b2" "invar b2"
    "stored b2 = stored b1" "cursor b2 = 0" by blast
  with b1 rw_fetch_correct [of b2 "length (concat chunks)" "length (concat chunks)"] show ?thesis
    by (simp add: rw_helper_def)
qed

end

text \<open>A store whose one cursor serves reading and writing.\<close>

locale shared_cursor_store = byte_store +
  assumes appendable_iff: "invar b \<Longrightarrow> appendable b \<longleftrightarrow> cursor b = length (stored b)"

text \<open>A store that can put the last bytes it handed out back.\<close>

locale seekable_store = byte_store +
  assumes rewind_back: "invar b \<Longrightarrow> 0 < k \<Longrightarrow> k \<le> cursor b \<Longrightarrow>
    \<exists>b'. vt_rewind vt b k = Inr b' \<and> invar b' \<and> stored b' = stored b \<and> cursor b' = cursor b - k"
begin

text \<open>
  Fetch, use only \<open>m\<close> of the bytes, rewind by the rest: the cursor has moved by \<open>m\<close>.  This is
  what both slow-mode senders do after a short write.
\<close>

lemma fetch_put_back:
  assumes "invar b" "vt_fetch vt b n = Inr (int (length d), d, b1)" "0 < n" "m < length d"
  obtains b2 where "vt_rewind vt b1 (length d - m) = Inr b2" "invar b2" "stored b2 = stored b"
    "cursor b2 = cursor b + m"
proof -
  from fetch_law [OF assms(1,3)] assms(2)
  have b1: "invar b1" "stored b1 = stored b" "cursor b1 = cursor b + length d" by auto
  from assms(4) b1(3) have "0 < length d - m" "length d - m \<le> cursor b1" by auto
  from rewind_back [OF b1(1) this] obtain b2 where "vt_rewind vt b1 (length d - m) = Inr b2"
    "invar b2" "stored b2 = stored b1" "cursor b2 = cursor b1 - (length d - m)" by blast
  with b1 assms(4) show thesis by (intro that [of b2]) auto
qed

end

text \<open>A store with a read cursor of its own.\<close>

locale fifo_store = seekable_store +
  assumes store_keeps_cursor: "invar b \<Longrightarrow> appendable b \<Longrightarrow> vt_store vt b d = Inr b' \<Longrightarrow>
      cursor b' = cursor b"
    and fetch_keeps_appendable: "invar b \<Longrightarrow> appendable b \<Longrightarrow> vt_fetch vt b n = Inr (c, d, b') \<Longrightarrow>
      appendable b'"
    and back_keeps_appendable: "invar b \<Longrightarrow> appendable b \<Longrightarrow> 0 < k \<Longrightarrow>
      vt_rewind vt b k = Inr b' \<Longrightarrow> appendable b'"

text \<open>Copying from one store to another, as \<open>Filebuf::copy_data\<close> does.\<close>

locale store_copy =
  src: byte_store sv sclear sinv sstored scur sapp + dst: byte_store dv dclear dinv dstored dcur dapp
  for sv :: "'s vtable" and sclear sinv sstored scur sapp
    and dv :: "'d vtable" and dclear dinv dstored dcur dapp
begin

lemma copy_loop_correct:
  assumes "sinv s" "dinv d" "dapp d" "length (sstored s) - scur s < fuel"
  shows "\<exists>s' d'. Filebuf_copy_loop sv dv fuel s d = Inr (s', d') \<and> sinv s' \<and> sstored s' = sstored s
    \<and> scur s' = length (sstored s) \<and> dinv d' \<and> dapp d'
    \<and> dstored d' = dstored d @ drop (scur s) (sstored s)"
  using assms
proof (induction fuel arbitrary: s d)
  case 0
  then show ?case by simp
next
  case (Suc fuel)
  show ?case
  proof (cases "scur s < length (sstored s)")
    case True
    then obtain x s1 where x: "vt_fetch sv s SOCK_IO_BUF_SIZE = Inr (int (length x), x, s1)" "x \<noteq> []"
      "length x \<le> SOCK_IO_BUF_SIZE" "sinv s1" "sstored s1 = sstored s" "scur s1 = scur s + length x"
      "drop (scur s) (sstored s) = x @ drop (scur s1) (sstored s)"
      using src.fetch_progress [OF Suc.prems(1) SOCK_IO_BUF_SIZE_pos] by blast
    from dst.store_law [OF Suc.prems(2,3)] obtain d1 where d1: "vt_store dv d x = Inr d1" "dinv d1"
      "dapp d1" "dstored d1 = dstored d @ x" by blast
    have "length (sstored s1) - scur s1 < fuel" using x(2,5,6) Suc.prems(4) True
      by (cases x) auto
    from Suc.IH [OF x(4) d1(2,3) this] x d1 show ?thesis by (auto simp: x(7))
  next
    case False
    with src.cursor_le [OF Suc.prems(1)] have e: "scur s = length (sstored s)" by simp
    from src.fetch_at_end [OF Suc.prems(1) SOCK_IO_BUF_SIZE_pos e] obtain s1 where
      "vt_fetch sv s SOCK_IO_BUF_SIZE = Inr (0, [], s1)" "sinv s1" "sstored s1 = sstored s"
      "scur s1 = scur s" .
    with e Suc.prems show ?thesis by auto
  qed
qed

end

section \<open>A healthy disk\<close>

text \<open>
  A disk on which the coming calls succeed.  What the classes do on a failing disk is stated
  separately; no operation makes a healthy disk unhealthy.
\<close>

definition healthy :: "'a filebuf_scheme \<Rightarrow> bool" where
  "healthy fb \<longleftrightarrow> d_write fb = [] \<and> d_read fb = [] \<and> d_trunc fb = []"

definition healthy_disk :: disk where
  "healthy_disk = \<lparr>dk_write = [], dk_read = [], dk_trunc = []\<rparr>"

lemma file_put_at_end [simp]: "file_put c (length c) bs = c @ bs"
  by (simp add: file_put_def overwrite_at_end)

lemma length_file_put: "pos \<le> length c \<Longrightarrow> length (file_put c pos bs) = max (length c) (pos + length bs)"
  by (simp add: file_put_def overwrite_def max_def)

lemma Filebuf_write_loop_healthy:
  "healthy fb \<Longrightarrow> data \<noteq> [] \<Longrightarrow>
   Filebuf_write_loop (Suc (Suc tries)) fb data =
     Inr (fb\<lparr>content := file_put (content fb) (fd_pos fb) data, fd_pos := fd_pos fb + length data\<rparr>, [])"
  by (simp add: file_write_def healthy_def)

lemma Filebuf_file_write_healthy:
  assumes "healthy fb" "fd_pos fb = length (content fb)"
  shows "Filebuf_file_write fb data =
     Inr (fb\<lparr>content := content fb @ data, fd_pos := fd_pos fb + length data,
             data_size := data_size fb + length data\<rparr>)"
proof (cases "data = []")
  case True
  then show ?thesis by (cases fb) (simp add: Filebuf_file_write_def eval_nat_numeral)
next
  case False
  with assms Filebuf_write_loop_healthy [of fb data 8] show ?thesis
    by (simp add: Filebuf_file_write_def)
qed

lemma file_read_at_healthy:
  "healthy fb \<Longrightarrow> file_read_at fb pos n =
     (int (length (take n (drop pos (content fb)))), take n (drop pos (content fb)), fb)"
  by (simp add: file_read_at_def healthy_def Let_def)

lemma Filebuf_clear_healthy:
  "healthy fb \<Longrightarrow> Filebuf_clear vt fb = vt_rewind vt (fb\<lparr>data_size := 0, content := []\<rparr>) 0"
  by (simp add: Filebuf_clear_def file_truncate_def healthy_def)

lemma lseek_back_simps [simp]:
  "lseek_back pos 0 = Inr 0"
  "0 < amt \<Longrightarrow> amt \<le> pos \<Longrightarrow> lseek_back pos amt = Inr (pos - amt)"
  "pos < amt \<Longrightarrow> lseek_back pos amt = Inl Abort"
  by (auto simp: lseek_back_def)

section \<open>The classes implement the interface\<close>

subsection \<open>Filebuf\<close>

definition Filebuf_inv :: "filebuf \<Rightarrow> bool" where
  "Filebuf_inv fb \<longleftrightarrow> healthy fb \<and> data_size fb = length (content fb) \<and> fd_pos fb \<le> length (content fb)"

definition Filebuf_appendable :: "'a filebuf_scheme \<Rightarrow> bool" where
  "Filebuf_appendable fb \<longleftrightarrow> fd_pos fb = length (content fb)"

lemmas Filebuf_defs = Filebuf_inv_def Filebuf_appendable_def Filebuf_vt_def
  Filebuf_file_read_def Filebuf_file_rewind_def

interpretation fb: shared_cursor_store Filebuf_vt "Filebuf_clear Filebuf_vt" Filebuf_inv content
  fd_pos Filebuf_appendable
proof (unfold_locales, goal_cases)
  case (3 b n)
  then show ?case by (auto simp: Filebuf_defs file_read_at_healthy healthy_def)
qed (auto simp: Filebuf_defs Filebuf_file_write_healthy Filebuf_clear_healthy healthy_def)

interpretation fb: seekable_store Filebuf_vt "Filebuf_clear Filebuf_vt" Filebuf_inv content
  fd_pos Filebuf_appendable
  by unfold_locales (auto simp: Filebuf_defs healthy_def)

subsection \<open>FIFOfilebuf\<close>

definition FIFOfilebuf_inv :: "fifofilebuf \<Rightarrow> bool" where
  "FIFOfilebuf_inv fb \<longleftrightarrow>
     healthy fb \<and> data_size fb = length (content fb) \<and> reader_pos fb \<le> length (content fb)"

lemmas FIFOfilebuf_defs = FIFOfilebuf_inv_def Filebuf_appendable_def FIFOfilebuf_vt_def
  FIFOfilebuf_file_read_def FIFOfilebuf_file_rewind_def

interpretation ff: fifo_store FIFOfilebuf_vt "Filebuf_clear FIFOfilebuf_vt" FIFOfilebuf_inv content
  reader_pos Filebuf_appendable
proof (unfold_locales, goal_cases)
  case (3 b n)
  then show ?case by (auto simp: FIFOfilebuf_defs file_read_at_healthy healthy_def)
next
  case (8 b n c d b')
  then show ?case by (auto simp: FIFOfilebuf_defs file_read_at_healthy)
qed (auto simp: FIFOfilebuf_defs Filebuf_file_write_healthy Filebuf_clear_healthy healthy_def
      bindE_eq_Inr_iff split: if_splits)

subsection \<open>Hybridbuf\<close>

text \<open>
  The bytes in memory come first, the file holds what did not fit; while some memory is
  unread the file's cursor is at its beginning.
\<close>

definition Hybridbuf_inv :: "hybridbuf \<Rightarrow> bool" where
  "Hybridbuf_inv hb \<longleftrightarrow>
     healthy hb \<and> length (hb_buffer hb) < 2 ^ 32
     \<and> next_pos hb \<le> min (data_size hb) (length (hb_buffer hb))
     \<and> length (content hb) = data_size hb - length (hb_buffer hb)
     \<and> fd_pos hb \<le> length (content hb)
     \<and> (next_pos hb < min (data_size hb) (length (hb_buffer hb)) \<longrightarrow> fd_pos hb = 0)"

definition Hybridbuf_stored :: "hybridbuf \<Rightarrow> char list" where
  "Hybridbuf_stored hb = take (data_size hb) (hb_buffer hb) @ content hb"

definition Hybridbuf_cursor :: "hybridbuf \<Rightarrow> nat" where
  "Hybridbuf_cursor hb = next_pos hb + fd_pos hb"

definition Hybridbuf_appendable :: "hybridbuf \<Rightarrow> bool" where
  "Hybridbuf_appendable hb \<longleftrightarrow> Hybridbuf_cursor hb = data_size hb"

lemma length_Hybridbuf_stored: "Hybridbuf_inv hb \<Longrightarrow> length (Hybridbuf_stored hb) = data_size hb"
  by (auto simp: Hybridbuf_inv_def Hybridbuf_stored_def min_def)

lemma Hybridbuf_unread:
  "Hybridbuf_inv hb \<Longrightarrow>
   Hybridbuf_buf_unread_data_size hb = min (data_size hb) (length (hb_buffer hb)) - next_pos hb"
  unfolding Hybridbuf_buf_unread_data_size_def Hybridbuf_inv_def
  by (rule usub_no_wrap) auto

lemma Hybridbuf_store_law:
  assumes inv: "Hybridbuf_inv hb" and app: "Hybridbuf_appendable hb"
  shows "\<exists>hb'. Hybridbuf_store hb d = Inr hb' \<and> Hybridbuf_inv hb' \<and> Hybridbuf_appendable hb'
    \<and> Hybridbuf_stored hb' = Hybridbuf_stored hb @ d"
proof (cases "data_size hb < length (hb_buffer hb)")
  case True
  define k where "k = min (length d) (length (hb_buffer hb) - data_size hb)"
  from True inv app have pos: "next_pos hb = data_size hb" "content hb = []" "fd_pos hb = 0"
    by (auto simp: Hybridbuf_inv_def Hybridbuf_appendable_def Hybridbuf_cursor_def)
  let ?h1 = "hb\<lparr>hb_buffer := overwrite (hb_buffer hb) (data_size hb) (take k d),
     next_pos := data_size hb + k, data_size := data_size hb + k\<rparr>"
  have kd: "length (take k d) = k" and kH: "data_size hb + k \<le> length (hb_buffer hb)"
    using True by (auto simp: k_def)
  from pos True kH have w: "Hybridbuf_buf_write hb d = Inr (k, ?h1)"
    by (simp add: Hybridbuf_buf_write_def Hybridbuf_buf_remaining_space_def k_def [symmetric])
  have st: "take (data_size hb + k) (overwrite (hb_buffer hb) (data_size hb) (take k d))
      = take (data_size hb) (hb_buffer hb) @ take k d"
    using True take_overwrite_ys [of "data_size hb" "hb_buffer hb" "take k d"] unfolding kd by simp
  show ?thesis
  proof (cases "k < length d")
    case False
    then have "k = length d" by (simp add: k_def)
    with w inv pos st kH show ?thesis
      by (auto simp: Hybridbuf_store_def Hybridbuf_inv_def Hybridbuf_appendable_def healthy_def
          Hybridbuf_cursor_def Hybridbuf_stored_def)
  next
    case more: True
    then have k: "data_size hb + k = length (hb_buffer hb)" using True by (simp add: k_def)
    from inv have "healthy ?h1" by (simp add: Hybridbuf_inv_def healthy_def)
    with pos have "Filebuf_file_write ?h1 (drop k d) =
      Inr (?h1\<lparr>content := drop k d, fd_pos := length d - k, data_size := data_size hb + k + (length d - k)\<rparr>)"
      by (subst Filebuf_file_write_healthy) auto
    moreover have "take (data_size hb + length d) (overwrite (hb_buffer hb) (data_size hb) (take k d))
      = take (data_size hb) (hb_buffer hb) @ take k d"
      using st k more kH kd by simp
    ultimately show ?thesis using w inv pos k more kH
      by (auto simp: Hybridbuf_store_def Hybridbuf_inv_def Hybridbuf_appendable_def healthy_def
          Hybridbuf_cursor_def Hybridbuf_stored_def)
  qed
next
  case False
  with inv app have pos: "next_pos hb = length (hb_buffer hb)" "fd_pos hb = length (content hb)"
    "length (content hb) = data_size hb - length (hb_buffer hb)"
    by (auto simp: Hybridbuf_inv_def Hybridbuf_appendable_def Hybridbuf_cursor_def min_def split: if_splits)
  then have "Hybridbuf_buf_write hb d = Inr (0, hb)"
    by (simp add: Hybridbuf_buf_write_def Hybridbuf_buf_remaining_space_def)
  moreover from inv have "healthy hb" by (simp add: Hybridbuf_inv_def)
  ultimately show ?thesis using pos False inv
    by (auto simp: Hybridbuf_store_def Filebuf_file_write_healthy Hybridbuf_inv_def healthy_def
        Hybridbuf_appendable_def Hybridbuf_cursor_def Hybridbuf_stored_def)
qed

lemma Hybridbuf_fetch_law:
  assumes inv: "Hybridbuf_inv hb" and n: "0 < n"
  shows "\<exists>d hb'. Hybridbuf_fetch hb n = Inr (int (length d), d, hb') \<and> Hybridbuf_inv hb'
    \<and> Hybridbuf_stored hb' = Hybridbuf_stored hb \<and> Hybridbuf_cursor hb' = Hybridbuf_cursor hb + length d
    \<and> d = take (length d) (drop (Hybridbuf_cursor hb) (Hybridbuf_stored hb))
    \<and> length d \<le> n \<and> (d = [] \<longleftrightarrow> Hybridbuf_cursor hb = length (Hybridbuf_stored hb))"
proof (cases "next_pos hb < min (data_size hb) (length (hb_buffer hb))")
  case True
  define k where "k = min (min (data_size hb) (length (hb_buffer hb)) - next_pos hb) n"
  let ?d = "take k (drop (next_pos hb) (hb_buffer hb))"
  from True n have k: "0 < k" "next_pos hb + k \<le> min (data_size hb) (length (hb_buffer hb))" "k \<le> n"
    by (auto simp: k_def)
  then have len: "length ?d = k" by auto
  have f: "Hybridbuf_fetch hb n = Inr (int k, ?d, hb\<lparr>next_pos := next_pos hb + k\<rparr>)"
    using True k inv by (simp add: Hybridbuf_fetch_def Hybridbuf_buf_read_def Hybridbuf_unread k_def Let_def)
  from inv True have "fd_pos hb = 0" by (simp add: Hybridbuf_inv_def)
  moreover have "?d = take k (drop (next_pos hb) (Hybridbuf_stored hb))"
    using k(2) by (simp add: Hybridbuf_stored_def take_drop add.commute min_absorb1)
  moreover have "length (Hybridbuf_stored hb) > next_pos hb"
    using True inv by (simp add: length_Hybridbuf_stored)
  ultimately show ?thesis using f len k inv
    by (auto simp: Hybridbuf_inv_def healthy_def Hybridbuf_stored_def Hybridbuf_cursor_def)
next
  case False
  with inv have np: "next_pos hb = min (data_size hb) (length (hb_buffer hb))"
    unfolding Hybridbuf_inv_def by linarith
  from inv have h: "healthy hb" by (simp add: Hybridbuf_inv_def)
  define d where "d = take n (drop (fd_pos hb) (content hb))"
  from inv np have "Hybridbuf_buf_read hb n = Inr (0, [], hb)"
    by (simp add: Hybridbuf_buf_read_def Hybridbuf_unread)
  with h have f: "Hybridbuf_fetch hb n = Inr (int (length d), d, hb\<lparr>fd_pos := fd_pos hb + length d\<rparr>)"
    by (simp add: Hybridbuf_fetch_def Filebuf_file_read_def file_read_at_healthy d_def)
  have rest: "drop (Hybridbuf_cursor hb) (Hybridbuf_stored hb) = drop (fd_pos hb) (content hb)"
    using np by (simp add: Hybridbuf_cursor_def Hybridbuf_stored_def min_def)
  then have "d = take (length d) (drop (Hybridbuf_cursor hb) (Hybridbuf_stored hb))"
    by (simp add: d_def)
  moreover have "d = [] \<longleftrightarrow> Hybridbuf_cursor hb = length (Hybridbuf_stored hb)"
    using n inv np by (auto simp: d_def Hybridbuf_cursor_def length_Hybridbuf_stored Hybridbuf_inv_def min_def)
  moreover have "length d \<le> n" "fd_pos hb + length d \<le> length (content hb)"
    using inv by (auto simp: d_def Hybridbuf_inv_def)
  ultimately show ?thesis using inv np f
    by (auto simp: Hybridbuf_inv_def healthy_def Hybridbuf_stored_def Hybridbuf_cursor_def)
qed

lemma Hybridbuf_buf_rewind_0 [simp]:
  "next_pos hb < 2 ^ 32 \<Longrightarrow> Hybridbuf_buf_rewind hb 0 = hb\<lparr>next_pos := 0\<rparr>"
  by (simp add: Hybridbuf_buf_rewind_def utrunc_def)

lemma Hybridbuf_rewind_0:
  "next_pos hb < 2 ^ 32 \<Longrightarrow> Hybridbuf_rewind hb 0 = Inr (hb\<lparr>fd_pos := 0, next_pos := 0\<rparr>)"
  by (simp add: Hybridbuf_rewind_def Filebuf_file_rewind_def)

lemma Hybridbuf_next_pos_lt: "Hybridbuf_inv hb \<Longrightarrow> next_pos hb < 2 ^ 32"
  by (auto simp: Hybridbuf_inv_def)

interpretation hb: shared_cursor_store Hybridbuf_vt "Filebuf_clear Hybridbuf_vt" Hybridbuf_inv
  Hybridbuf_stored Hybridbuf_cursor Hybridbuf_appendable
proof (unfold_locales, goal_cases)
  case (1 b)
  then show ?case by (auto simp: length_Hybridbuf_stored) (auto simp: Hybridbuf_cursor_def Hybridbuf_inv_def)
next
  case (2 b d)
  then show ?case using Hybridbuf_store_law by (simp add: Hybridbuf_vt_def)
next
  case (3 b n)
  then show ?case using Hybridbuf_fetch_law by (simp add: Hybridbuf_vt_def)
next
  case (4 b)
  then show ?case using Hybridbuf_next_pos_lt [OF 4]
    by (auto simp: Hybridbuf_vt_def Hybridbuf_rewind_0 Hybridbuf_inv_def healthy_def
        Hybridbuf_stored_def Hybridbuf_cursor_def)
next
  case (5 b)
  then have "healthy b" by (simp add: Hybridbuf_inv_def)
  with 5 Hybridbuf_next_pos_lt [OF 5] show ?case
    by (auto simp: Filebuf_clear_healthy Hybridbuf_vt_def Hybridbuf_rewind_0 Hybridbuf_inv_def healthy_def
        Hybridbuf_stored_def Hybridbuf_cursor_def Hybridbuf_appendable_def)
next
  case (6 b)
  then show ?case by (simp add: length_Hybridbuf_stored Hybridbuf_appendable_def)
qed

text \<open>The one use of \<open>copy_data\<close>: from a client's history to its request buffer.\<close>

interpretation hb_fb: store_copy Hybridbuf_vt "Filebuf_clear Hybridbuf_vt" Hybridbuf_inv
  Hybridbuf_stored Hybridbuf_cursor Hybridbuf_appendable
  Filebuf_vt "Filebuf_clear Filebuf_vt" Filebuf_inv content fd_pos Filebuf_appendable
  by unfold_locales

lemma Filebuf_copy_data_correct:
  assumes "Hybridbuf_inv hb" "Filebuf_inv fb"
  shows "\<exists>hb' fb'. Filebuf_copy_data Hybridbuf_vt Filebuf_vt hb fb = Inr (hb', fb')
    \<and> Hybridbuf_inv hb' \<and> Hybridbuf_stored hb' = Hybridbuf_stored hb
    \<and> Filebuf_inv fb' \<and> Filebuf_appendable fb' \<and> content fb' = Hybridbuf_stored hb"
proof -
  from fb.clear_law [OF assms(2)] obtain fb1 where c: "Filebuf_clear Filebuf_vt fb = Inr fb1"
    "Filebuf_inv fb1" "content fb1 = []" "Filebuf_appendable fb1" by blast
  from hb.rewind_law [OF assms(1)] obtain hb1 where r: "vt_rewind Hybridbuf_vt hb 0 = Inr hb1"
    "Hybridbuf_inv hb1" "Hybridbuf_stored hb1 = Hybridbuf_stored hb" "Hybridbuf_cursor hb1 = 0" by blast
  have "length (Hybridbuf_stored hb1) - Hybridbuf_cursor hb1 < Suc (data_size hb1)"
    using r(2) by (simp add: length_Hybridbuf_stored)
  from hb_fb.copy_loop_correct [OF r(2) c(2,4) this] obtain hb2 fb2 where
    "Filebuf_copy_loop Hybridbuf_vt Filebuf_vt (Suc (data_size hb1)) hb1 fb1 = Inr (hb2, fb2)"
    "Hybridbuf_inv hb2" "Hybridbuf_stored hb2 = Hybridbuf_stored hb1" "Filebuf_inv fb2"
    "Filebuf_appendable fb2"
    "content fb2 = content fb1 @ drop (Hybridbuf_cursor hb1) (Hybridbuf_stored hb1)" by blast
  with c r show ?thesis by (simp add: Filebuf_copy_data_def del: Filebuf_copy_loop.simps)
qed

section \<open>A failing disk\<close>

text \<open>
  On any disk the write loop either aborts or stores a prefix of the data at the cursor, and
  \<open>data_size\<close> counts exactly what was stored.
\<close>

lemma file_put_append:
  assumes "pos \<le> length c"
  shows "file_put (file_put c pos a) (pos + length a) b = file_put c pos (a @ b)"
  using assms by (simp add: file_put_def overwrite_def ac_simps)

lemma file_write_pos:
  assumes "file_write fb data = (count, fb')" "0 < count"
  shows "\<exists>k. count = int k \<and> 0 < k \<and> k \<le> length data
    \<and> content fb' = file_put (content fb) (fd_pos fb) (take k data) \<and> fd_pos fb' = fd_pos fb + k
    \<and> data_size fb' = data_size fb"
  using assms by (auto simp: file_write_def min_def split: list.splits wres.splits if_splits
      intro: exI [of _ "length data"])

lemma file_write_neg:
  assumes "file_write fb data = (count, fb')" "\<not> 0 < count" "data \<noteq> []" "fd_pos fb \<le> length (content fb)"
  shows "content fb' = content fb" "fd_pos fb' = fd_pos fb" "data_size fb' = data_size fb"
  using assms by (auto simp: file_write_def file_put_def split: list.splits wres.splits)

lemma Filebuf_write_loop_spec:
  assumes "Filebuf_write_loop tries fb data = Inr (fb', rest)" "fd_pos fb \<le> length (content fb)"
  shows "\<exists>k \<le> length data. rest = drop k data \<and> data_size fb' = data_size fb
    \<and> content fb' = file_put (content fb) (fd_pos fb) (take k data) \<and> fd_pos fb' = fd_pos fb + k"
  using assms
proof (induction tries arbitrary: fb data)
  case 0
  then show ?case by (auto simp: file_put_def)
next
  case (Suc tries)
  obtain count fb1 where w: "file_write fb data = (count, fb1)" by (cases "file_write fb data")
  consider "data = []" | "data \<noteq> []" "0 < count" | "data \<noteq> []" "\<not> 0 < count" by blast
  then show ?case
  proof cases
    case 1
    with Suc.prems show ?thesis by (auto simp: file_put_def)
  next
    case 2
    from file_write_pos [OF w 2(2)] obtain k where k: "count = int k" "0 < k" "k \<le> length data"
      "content fb1 = file_put (content fb) (fd_pos fb) (take k data)" "fd_pos fb1 = fd_pos fb + k"
      "data_size fb1 = data_size fb" by blast
    have "Filebuf_write_loop tries fb1 (drop k data) = Inr (fb', rest)"
      using Suc.prems(1) 2 w k(1) by simp
    moreover have "fd_pos fb1 \<le> length (content fb1)"
      using k(3,4,5) Suc.prems(2) by (simp add: length_file_put)
    ultimately obtain j where j: "j \<le> length (drop k data)" "rest = drop j (drop k data)"
      "data_size fb' = data_size fb1" "fd_pos fb' = fd_pos fb1 + j"
      "content fb' = file_put (content fb1) (fd_pos fb1) (take j (drop k data))"
      using Suc.IH by blast
    have "content fb' = file_put (content fb) (fd_pos fb) (take (k + j) data)"
      using j(5) k(3-5) file_put_append [OF Suc.prems(2), of "take k data" "take j (drop k data)"]
      by (simp add: take_add min_absorb2)
    with j k show ?thesis by (intro exI [of _ "k + j"]) (auto simp: add.commute)
  next
    case 3
    with Suc.prems w file_write_neg [OF w 3(2,1) Suc.prems(2)] Suc.IH [of fb1 data] show ?thesis
      by (simp split: if_splits)
  qed
qed

lemma Filebuf_file_write_spec:
  assumes "Filebuf_file_write fb data = Inr fb'" "fd_pos fb \<le> length (content fb)"
  shows "\<exists>k \<le> length data. data_size fb' = data_size fb + k
    \<and> content fb' = file_put (content fb) (fd_pos fb) (take k data) \<and> fd_pos fb' = fd_pos fb + k"
proof -
  from assms(1) obtain fb1 rest where l: "Filebuf_write_loop 10 fb data = Inr (fb1, rest)"
    "fb' = fb1\<lparr>data_size := data_size fb1 + (length data - length rest)\<rparr>"
    by (auto simp: Filebuf_file_write_def bindE_eq_Inr_iff)
  from Filebuf_write_loop_spec [OF l(1) assms(2)] l(2) show ?thesis by auto
qed

end
