(* ===== verification/Circular.thy ===== *)
theory Circular
  imports Files
begin

text \<open>
  The in-memory circular buffer \<open>Circularbuf\<close> of \<open>src/buffer.h\<close> and \<open>src/buffer.cpp\<close>, which
  queues the output of fast-mode connections.  Pointers into the array are offsets; every copy
  is bounds-checked.  \<open>Circularbuf_contents\<close> reads the queue off the array, and the
  operations refine appending to and dropping from that list.
\<close>

record circularbuf =
  cb_buffer :: "char list"
  start_ptr :: nat
  end_ptr :: nat

definition Circularbuf_new :: circularbuf where
  "Circularbuf_new = \<lparr>cb_buffer = replicate SOCK_IO_BUF_SIZE (CHR 0x00), start_ptr = 0, end_ptr = 0\<rparr>"

definition Circularbuf_data_size :: "circularbuf \<Rightarrow> nat" where
  "Circularbuf_data_size cb =
     (if start_ptr cb \<le> end_ptr cb then end_ptr cb - start_ptr cb
      else length (cb_buffer cb) - (start_ptr cb - end_ptr cb))"

definition Circularbuf_remaining_space :: "circularbuf \<Rightarrow> nat" where
  "Circularbuf_remaining_space cb = length (cb_buffer cb) - 1 - Circularbuf_data_size cb"

definition Circularbuf_copy_from :: "circularbuf \<Rightarrow> char list \<Rightarrow> (nat \<times> circularbuf) res" where
  "Circularbuf_copy_from cb data =
     (let size = min (length data) (Circularbuf_remaining_space cb) in
      if size > 0 then
        if end_ptr cb \<ge> start_ptr cb then
          let space_to_rightend = length (cb_buffer cb) - end_ptr cb;
              count = min size space_to_rightend
          in bindE (memcpy (cb_buffer cb) (end_ptr cb) (take count data)) (\<lambda>b.
             let size = size - count in
             if count < space_to_rightend then
               Inr (count, cb\<lparr>cb_buffer := b, end_ptr := end_ptr cb + count\<rparr>)
             else if size > 0 then
               bindE (memcpy b 0 (take size (drop count data))) (\<lambda>b'.
                 Inr (count + size, cb\<lparr>cb_buffer := b', end_ptr := size\<rparr>))
             else Inr (count, cb\<lparr>cb_buffer := b, end_ptr := 0\<rparr>))
        else
          bindE (memcpy (cb_buffer cb) (end_ptr cb) (take size data)) (\<lambda>b.
            Inr (size, cb\<lparr>cb_buffer := b, end_ptr := end_ptr cb + size\<rparr>))
      else Inr (0, cb))"

definition Circularbuf_read_all_from :: "circularbuf \<Rightarrow> sock \<Rightarrow> (io_stat \<times> circularbuf \<times> sock) res" where
  "Circularbuf_read_all_from cb s =
     (case read_all s (Circularbuf_remaining_space cb) of (d, stat, s') \<Rightarrow>
        bindE (to_global_buffer d) (\<lambda>g.
        bindE (Circularbuf_copy_from cb g) (\<lambda>(count, cb').
        bindE (assertE (count = nbytes stat)) (\<lambda>_.
          Inr (stat, cb', s')))))"

definition Circularbuf_write_all_to :: "circularbuf \<Rightarrow> sock \<Rightarrow> (io_stat \<times> circularbuf \<times> sock) res" where
  "Circularbuf_write_all_to cb s =
     (let size_old = Circularbuf_data_size cb in
      bindE
       (if size_old > 0 then
          if start_ptr cb > end_ptr cb then
            let size_to_rightend = length (cb_buffer cb) - start_ptr cb in
            bindE (mem_read (cb_buffer cb) (start_ptr cb) size_to_rightend) (\<lambda>d.
            case write_all s d of (stat, s1) \<Rightarrow>
              let size = size_old - nbytes stat in
              if nbytes stat < size_to_rightend then
                bindE (assertE (has_error stat)) (\<lambda>_.
                  Inr (stat, cb\<lparr>start_ptr := start_ptr cb + nbytes stat\<rparr>, s1))
              else if size > 0 then
                bindE (mem_read (cb_buffer cb) 0 size) (\<lambda>d2.
                case write_all s1 d2 of (stat2, s2) \<Rightarrow>
                  Inr (stat2, cb\<lparr>start_ptr := nbytes stat2\<rparr>, s2))
              else Inr (stat, cb\<lparr>start_ptr := 0\<rparr>, s1))
          else
            bindE (mem_read (cb_buffer cb) (start_ptr cb) size_old) (\<lambda>d.
            case write_all s d of (stat, s1) \<Rightarrow>
              Inr (stat, cb\<lparr>start_ptr := start_ptr cb + nbytes stat\<rparr>, s1))
        else Inr (io_stat_init, cb, s))
       (\<lambda>(stat, cb', s'). Inr (stat\<lparr>nbytes := size_old - Circularbuf_data_size cb'\<rparr>, cb', s')))"

definition Circularbuf_dump_to ::
    "'b vtable \<Rightarrow> circularbuf \<Rightarrow> 'b \<Rightarrow> (circularbuf \<times> 'b) res" where
  "Circularbuf_dump_to vt cb fb =
     (let size = Circularbuf_data_size cb in
      if size > 0 then
        if start_ptr cb > end_ptr cb then
          let size_to_rightend = length (cb_buffer cb) - start_ptr cb in
          bindE (mem_read (cb_buffer cb) (start_ptr cb) size_to_rightend) (\<lambda>d.
          bindE (vt_store vt fb d) (\<lambda>fb1.
            let size = size - size_to_rightend in
            if size > 0 then
              bindE (mem_read (cb_buffer cb) 0 size) (\<lambda>d2.
              bindE (vt_store vt fb1 d2) (\<lambda>fb2.
                Inr (cb\<lparr>start_ptr := size\<rparr>, fb2)))
            else Inr (cb\<lparr>start_ptr := 0\<rparr>, fb1)))
        else
          bindE (mem_read (cb_buffer cb) (start_ptr cb) size) (\<lambda>d.
          bindE (vt_store vt fb d) (\<lambda>fb1.
            Inr (cb\<lparr>start_ptr := start_ptr cb + size\<rparr>, fb1)))
      else Inr (cb, fb))"

section \<open>The queue a buffer represents\<close>

definition Circularbuf_inv :: "circularbuf \<Rightarrow> bool" where
  "Circularbuf_inv cb \<longleftrightarrow> start_ptr cb < length (cb_buffer cb) \<and> end_ptr cb < length (cb_buffer cb)"

definition Circularbuf_contents :: "circularbuf \<Rightarrow> char list" where
  "Circularbuf_contents cb =
     (if start_ptr cb \<le> end_ptr cb
      then take (end_ptr cb - start_ptr cb) (drop (start_ptr cb) (cb_buffer cb))
      else drop (start_ptr cb) (cb_buffer cb) @ take (end_ptr cb) (cb_buffer cb))"

lemma Circularbuf_data_size_contents:
  "Circularbuf_inv cb \<Longrightarrow> Circularbuf_data_size cb = length (Circularbuf_contents cb)"
  by (auto simp: Circularbuf_inv_def Circularbuf_data_size_def Circularbuf_contents_def)

lemma Circularbuf_size_plus_space:
  "Circularbuf_inv cb \<Longrightarrow>
   Circularbuf_data_size cb + Circularbuf_remaining_space cb = length (cb_buffer cb) - 1"
  by (auto simp: Circularbuf_inv_def Circularbuf_data_size_def Circularbuf_remaining_space_def)

lemma Circularbuf_new_inv [simp]: "Circularbuf_inv Circularbuf_new"
  by (simp add: Circularbuf_inv_def Circularbuf_new_def)

lemma Circularbuf_new_contents [simp]: "Circularbuf_contents Circularbuf_new = []"
  by (simp add: Circularbuf_contents_def Circularbuf_new_def)

lemma contents_extend_right:
  assumes "s \<le> e" "e + length d \<le> length b"
  shows "take (e + length d - s) (drop s (overwrite b e d)) = take (e - s) (drop s b) @ d"
proof -
  have "drop s (take (e + length d) (overwrite b e d)) = drop s (take e b @ d)"
    using assms take_overwrite_ys [of e b d] by simp
  with assms show ?thesis by (simp add: drop_take)
qed

text \<open>
  \<open>copy_from\<close> moved \<open>m\<close> bytes: it stayed inside the array, kept the invariant and appended
  them to the queue.  One lemma per branch of the code.
\<close>

definition Circularbuf_copied :: "circularbuf \<Rightarrow> char list \<Rightarrow> nat \<Rightarrow> bool" where
  "Circularbuf_copied cb data m \<longleftrightarrow>
     (\<exists>cb'. Circularbuf_copy_from cb data = Inr (m, cb') \<and> Circularbuf_inv cb'
        \<and> length (cb_buffer cb') = length (cb_buffer cb)
        \<and> Circularbuf_contents cb' = Circularbuf_contents cb @ take m data)"

lemma copied_towards_rightend:
  assumes inv: "Circularbuf_inv cb" and le: "start_ptr cb \<le> end_ptr cb"
    and m: "m = min (length data) (Circularbuf_remaining_space cb)" "0 < m"
    and fits: "m < length (cb_buffer cb) - end_ptr cb"
  shows "Circularbuf_copied cb data m"
proof -
  let ?d = "take m data"
  have sz: "length ?d = m" using m by simp
  have "Circularbuf_copy_from cb data =
      Inr (m, cb\<lparr>cb_buffer := overwrite (cb_buffer cb) (end_ptr cb) ?d, end_ptr := end_ptr cb + m\<rparr>)"
    using m le fits sz by (simp add: Circularbuf_copy_from_def m(1) [symmetric] Let_def)
  then show ?thesis
    using fits inv le sz contents_extend_right [OF le, of ?d "cb_buffer cb"]
    by (auto simp: Circularbuf_copied_def Circularbuf_inv_def Circularbuf_contents_def)
qed

lemma copied_up_to_rightend:
  assumes inv: "Circularbuf_inv cb" and le: "start_ptr cb \<le> end_ptr cb"
    and m: "m = min (length data) (Circularbuf_remaining_space cb)" "0 < m"
    and fits: "m = length (cb_buffer cb) - end_ptr cb"
  shows "Circularbuf_copied cb data m"
proof -
  let ?d = "take m data"
  have sz: "length ?d = m" using m by simp
  have c: "Circularbuf_copy_from cb data =
      Inr (m, cb\<lparr>cb_buffer := overwrite (cb_buffer cb) (end_ptr cb) ?d, end_ptr := 0\<rparr>)"
    using m(2) le fits sz
    by (simp add: Circularbuf_copy_from_def m(1) [symmetric] Let_def)
  have e: "end_ptr cb + m = length (cb_buffer cb)" using fits m(2) by simp
  have "0 < start_ptr cb"
    using e m le by (auto simp: Circularbuf_remaining_space_def Circularbuf_data_size_def)
  then show ?thesis
    using c e inv le sz contents_extend_right [OF le, of ?d "cb_buffer cb"]
    by (auto simp: Circularbuf_copied_def Circularbuf_inv_def Circularbuf_contents_def)
qed

lemma copied_around:
  assumes inv: "Circularbuf_inv cb" and le: "start_ptr cb \<le> end_ptr cb"
    and m: "m = min (length data) (Circularbuf_remaining_space cb)" "0 < m"
    and fits: "length (cb_buffer cb) - end_ptr cb < m"
  shows "Circularbuf_copied cb data m"
proof -
  let ?b = "cb_buffer cb" let ?s = "start_ptr cb" let ?e = "end_ptr cb"
  define c where "c = length ?b - ?e"
  let ?b1 = "overwrite ?b ?e (take c data)" let ?x = "take (m - c) (drop c data)"
  have l: "?e + c = length ?b" "length (take c data) = c" "length ?x = m - c" "c < m"
    using inv fits m by (auto simp: Circularbuf_inv_def c_def)
  have lt: "m - c < ?s"
    using m l le by (auto simp: Circularbuf_remaining_space_def Circularbuf_data_size_def)
  have eq: "Circularbuf_copy_from cb data =
      Inr (m, cb\<lparr>cb_buffer := overwrite ?b1 0 ?x, end_ptr := m - c\<rparr>)"
    using fits m(2) le l lt inv
    by (simp add: Circularbuf_copy_from_def m(1) [symmetric] c_def [symmetric] Let_def Circularbuf_inv_def)
  have "drop ?s (overwrite ?b1 0 ?x) = drop ?s ?b1"
    using lt l by (intro drop_overwrite_ge) auto
  also have "\<dots> = take (?e - ?s) (drop ?s ?b) @ take c data"
    using contents_extend_right [OF le, of "take c data" ?b] l le by simp
  finally have "drop ?s (overwrite ?b1 0 ?x) @ take (m - c) (overwrite ?b1 0 ?x)
      = take (?e - ?s) (drop ?s ?b) @ take m data"
    using l take_overwrite_ys [of 0 ?b1 ?x] take_add [of c "m - c" data] by simp
  then show ?thesis using eq l lt inv le
    by (auto simp: Circularbuf_copied_def Circularbuf_inv_def Circularbuf_contents_def)
qed

lemma copied_towards_start:
  assumes inv: "Circularbuf_inv cb" and gt: "end_ptr cb < start_ptr cb"
    and m: "m = min (length data) (Circularbuf_remaining_space cb)" "0 < m"
  shows "Circularbuf_copied cb data m"
proof -
  let ?b = "cb_buffer cb" let ?s = "start_ptr cb" let ?e = "end_ptr cb" let ?d = "take m data"
  have sz: "length ?d = m" using m by simp
  have space: "?e + m < ?s"
    using m inv gt
    by (auto simp: Circularbuf_remaining_space_def Circularbuf_data_size_def Circularbuf_inv_def)
  have c: "Circularbuf_copy_from cb data =
      Inr (m, cb\<lparr>cb_buffer := overwrite ?b ?e ?d, end_ptr := ?e + m\<rparr>)"
    using space inv gt m(2) sz
    by (simp add: Circularbuf_copy_from_def m(1) [symmetric] Let_def Circularbuf_inv_def)
  have "take (?e + m) (overwrite ?b ?e ?d) = take ?e ?b @ ?d"
    using take_overwrite_ys [of ?e ?b ?d] inv sz by (simp add: Circularbuf_inv_def)
  moreover have "drop ?s (overwrite ?b ?e ?d) = drop ?s ?b"
    using space inv sz by (intro drop_overwrite_ge) (auto simp: Circularbuf_inv_def)
  ultimately show ?thesis using c space inv sz gt
    by (auto simp: Circularbuf_copied_def Circularbuf_inv_def Circularbuf_contents_def)
qed

lemma Circularbuf_copy_from_correct:
  assumes inv: "Circularbuf_inv cb"
  shows "Circularbuf_copied cb data (min (length data) (Circularbuf_remaining_space cb))"
proof -
  define m where "m = min (length data) (Circularbuf_remaining_space cb)"
  consider "m = 0" | "0 < m" "start_ptr cb \<le> end_ptr cb" | "0 < m" "end_ptr cb < start_ptr cb"
    by linarith
  then have "Circularbuf_copied cb data m"
  proof cases
    case 1
    then show ?thesis
      using inv by (simp add: Circularbuf_copied_def Circularbuf_copy_from_def m_def [symmetric])
  next
    case 2
    consider "m < length (cb_buffer cb) - end_ptr cb" | "m = length (cb_buffer cb) - end_ptr cb"
      | "length (cb_buffer cb) - end_ptr cb < m" by linarith
    then show ?thesis
    proof cases
      case 1
      show ?thesis by (rule copied_towards_rightend [OF inv 2(2) m_def 2(1) 1])
    next
      case at_end: 2
      show ?thesis by (rule copied_up_to_rightend [OF inv 2(2) m_def 2(1) at_end])
    next
      case 3
      show ?thesis by (rule copied_around [OF inv 2(2) m_def 2(1) 3])
    qed
  next
    case 3
    with copied_towards_start [OF inv _ m_def] show ?thesis by blast
  qed
  then show ?thesis by (simp add: m_def)
qed

lemma Circularbuf_copy_from_spec:
  assumes "Circularbuf_inv cb"
  obtains cb' where
    "Circularbuf_copy_from cb data = Inr (min (length data) (Circularbuf_remaining_space cb), cb')"
    "Circularbuf_inv cb'" "length (cb_buffer cb') = length (cb_buffer cb)"
    "Circularbuf_contents cb' = Circularbuf_contents cb @ take (Circularbuf_remaining_space cb) data"
proof -
  have "take (min (length data) (Circularbuf_remaining_space cb)) data
      = take (Circularbuf_remaining_space cb) data" by (simp add: min_def)
  then show thesis
    using Circularbuf_copy_from_correct [OF assms, of data] that by (auto simp: Circularbuf_copied_def)
qed

section \<open>Filling from and draining to sockets\<close>

text \<open>
  The assertion of \<open>read_all_from\<close> holds, the bytes taken out of the socket are appended in
  order, and \<open>global_buffer\<close> is not overrun when the queue is no larger than it.
\<close>

lemma Circularbuf_read_all_from_spec:
  assumes inv: "Circularbuf_inv cb" and size: "length (cb_buffer cb) \<le> SOCK_IO_BUF_SIZE"
  obtains stat cb' s' d where "Circularbuf_read_all_from cb s = Inr (stat, cb', s')"
    "read_all s (Circularbuf_remaining_space cb) = (d, stat, s')"
    "Circularbuf_inv cb'" "length (cb_buffer cb') = length (cb_buffer cb)"
    "Circularbuf_contents cb' = Circularbuf_contents cb @ d"
    "received s' = received s @ d" "nbytes stat = length d" "sent s' = sent s"
proof -
  obtain d stat s' where r: "read_all s (Circularbuf_remaining_space cb) = (d, stat, s')"
    by (cases "read_all s (Circularbuf_remaining_space cb)")
  note sp = read_all_spec [OF r]
  have "Circularbuf_remaining_space cb \<le> length (cb_buffer cb)"
    by (simp add: Circularbuf_remaining_space_def)
  with sp size have g: "length d \<le> SOCK_IO_BUF_SIZE" by linarith
  obtain cb' where c: "Circularbuf_copy_from cb d = Inr (min (length d) (Circularbuf_remaining_space cb), cb')"
    "Circularbuf_inv cb'" "length (cb_buffer cb') = length (cb_buffer cb)"
    "Circularbuf_contents cb' = Circularbuf_contents cb @ take (Circularbuf_remaining_space cb) d"
    using Circularbuf_copy_from_spec [OF inv] by blast
  from sp have "min (length d) (Circularbuf_remaining_space cb) = nbytes stat" by simp
  with r c sp g show thesis
    by (intro that [of stat cb' s' d]) (simp_all add: Circularbuf_read_all_from_def)
qed

text \<open>
  A write to a socket drains a prefix of the queue: exactly the bytes the socket took, in
  order.  \<open>Circularbuf_drained\<close> is that relation; one lemma per branch.
\<close>

definition Circularbuf_drained ::
    "circularbuf \<Rightarrow> sock \<Rightarrow> io_stat \<Rightarrow> circularbuf \<Rightarrow> sock \<Rightarrow> bool" where
  "Circularbuf_drained cb s stat cb' s' \<longleftrightarrow>
     Circularbuf_inv cb' \<and> cb_buffer cb' = cb_buffer cb \<and> nbytes stat \<le> Circularbuf_data_size cb
     \<and> Circularbuf_contents cb' = drop (nbytes stat) (Circularbuf_contents cb)
     \<and> sent s' = sent s @ take (nbytes stat) (Circularbuf_contents cb)
     \<and> received s' = received s \<and> rx s' = rx s \<and> \<not> has_eof stat
     \<and> (has_error stat \<longleftrightarrow> Circularbuf_contents cb' \<noteq> [])"

lemma Circularbuf_drained_stream:
  assumes "Circularbuf_drained cb s stat cb' s'"
  shows "sent s' @ Circularbuf_contents cb' = sent s @ Circularbuf_contents cb" "received s' = received s"
  using assms by (simp_all add: Circularbuf_drained_def)

lemma write_all_to_linear:
  assumes inv: "Circularbuf_inv cb" and le: "start_ptr cb \<le> end_ptr cb"
  shows "\<exists>stat cb' s'. Circularbuf_write_all_to cb s = Inr (stat, cb', s') \<and> Circularbuf_drained cb s stat cb' s'"
proof (cases "start_ptr cb = end_ptr cb")
  case True
  with inv show ?thesis
    by (simp add: Circularbuf_write_all_to_def Circularbuf_data_size_def Circularbuf_drained_def
        Circularbuf_contents_def io_stat_init_def)
next
  case False
  let ?n = "end_ptr cb - start_ptr cb" let ?d = "take ?n (drop (start_ptr cb) (cb_buffer cb))"
  obtain stat s1 where w: "write_all s ?d = (stat, s1)" by (cases "write_all s ?d")
  have len: "length ?d = ?n" using inv by (auto simp: Circularbuf_inv_def)
  note sp = write_all_spec [OF w, unfolded len]
  let ?cb = "cb\<lparr>start_ptr := start_ptr cb + nbytes stat\<rparr>"
  have "Circularbuf_write_all_to cb s =
      Inr (stat\<lparr>nbytes := ?n - (end_ptr cb - (start_ptr cb + nbytes stat))\<rparr>, ?cb, s1)"
    using False le inv w sp(2)
    by (simp add: Circularbuf_write_all_to_def Circularbuf_data_size_def Circularbuf_inv_def)
  moreover have "?n - (end_ptr cb - (start_ptr cb + nbytes stat)) = nbytes stat"
    using sp(2) le False by simp
  moreover have "Circularbuf_contents ?cb = drop (nbytes stat) ?d"
    using le sp(2) by (auto simp: Circularbuf_contents_def drop_take add.commute)
  ultimately show ?thesis using le sp len inv
    by (auto simp: Circularbuf_drained_def Circularbuf_contents_def Circularbuf_data_size_def Circularbuf_inv_def)
qed

lemma write_all_to_wrapped:
  assumes inv: "Circularbuf_inv cb" and gt: "end_ptr cb < start_ptr cb"
  shows "\<exists>stat cb' s'. Circularbuf_write_all_to cb s = Inr (stat, cb', s') \<and> Circularbuf_drained cb s stat cb' s'"
proof -
  let ?b = "cb_buffer cb" let ?n = "length ?b - start_ptr cb" let ?d = "drop (start_ptr cb) ?b"
  have size: "Circularbuf_data_size cb = ?n + end_ptr cb" "0 < ?n"
    using gt inv by (auto simp: Circularbuf_data_size_def Circularbuf_inv_def)
  have old: "Circularbuf_contents cb = ?d @ take (end_ptr cb) ?b" using gt by (simp add: Circularbuf_contents_def)
  obtain stat s1 where w: "write_all s ?d = (stat, s1)" by (cases "write_all s ?d")
  note sp = write_all_spec [OF w, unfolded length_drop]
  consider "nbytes stat < ?n" | "nbytes stat = ?n" "end_ptr cb = 0" | "nbytes stat = ?n" "0 < end_ptr cb"
    using sp(2) by linarith
  then show ?thesis
  proof cases
    case 1
    let ?cb = "cb\<lparr>start_ptr := start_ptr cb + nbytes stat\<rparr>"
    have "Circularbuf_write_all_to cb s = Inr (stat, ?cb, s1)"
      using 1 gt inv w sp size
      by (simp add: Circularbuf_write_all_to_def Circularbuf_data_size_def Circularbuf_inv_def)
    then show ?thesis using 1 gt sp inv old size
      by (auto simp: Circularbuf_drained_def Circularbuf_contents_def Circularbuf_inv_def add.commute)
  next
    case 2
    then show ?thesis using gt inv w sp size old
      by (auto simp: Circularbuf_write_all_to_def Circularbuf_data_size_def Circularbuf_inv_def
          Circularbuf_drained_def Circularbuf_contents_def)
  next
    case 3
    let ?d2 = "take (end_ptr cb) ?b"
    obtain stat2 s2 where w2: "write_all s1 ?d2 = (stat2, s2)" by (cases "write_all s1 ?d2")
    have l2: "length ?d2 = end_ptr cb" using inv by (simp add: Circularbuf_inv_def)
    note sp2 = write_all_spec [OF w2, unfolded l2]
    have "Circularbuf_write_all_to cb s = Inr (stat2\<lparr>nbytes := ?n + nbytes stat2\<rparr>, cb\<lparr>start_ptr := nbytes stat2\<rparr>, s2)"
      using 3 gt inv w w2 sp2(2) size
      by (simp add: Circularbuf_write_all_to_def Circularbuf_data_size_def Circularbuf_inv_def)
    then show ?thesis using 3 gt inv sp sp2 old size
      by (auto simp: Circularbuf_drained_def Circularbuf_contents_def Circularbuf_inv_def drop_take)
  qed
qed

lemma Circularbuf_write_all_to_spec:
  assumes "Circularbuf_inv cb"
  obtains stat cb' s' where "Circularbuf_write_all_to cb s = Inr (stat, cb', s')"
    "Circularbuf_drained cb s stat cb' s'"
  using assms write_all_to_linear [of cb s] write_all_to_wrapped [of cb s] by (metis not_le)

section \<open>Dumping into a store\<close>

context byte_store
begin

lemma dump_to_correct:
  assumes cb: "Circularbuf_inv cb" and b: "invar b" "appendable b"
  shows "\<exists>cb' b'. Circularbuf_dump_to vt cb b = Inr (cb', b') \<and> Circularbuf_inv cb'
    \<and> cb_buffer cb' = cb_buffer cb \<and> Circularbuf_contents cb' = []
    \<and> invar b' \<and> appendable b' \<and> stored b' = stored b @ Circularbuf_contents cb"
proof (cases "start_ptr cb \<le> end_ptr cb")
  case True
  let ?d = "take (end_ptr cb - start_ptr cb) (drop (start_ptr cb) (cb_buffer cb))"
  from store_law [OF b] obtain b1 where "vt_store vt b ?d = Inr b1" "invar b1" "appendable b1"
    "stored b1 = stored b @ ?d" by blast
  moreover have "Circularbuf_dump_to vt cb b =
      (if start_ptr cb = end_ptr cb then Inr (cb, b)
       else bindE (vt_store vt b ?d) (\<lambda>b1. Inr (cb\<lparr>start_ptr := end_ptr cb\<rparr>, b1)))"
    using True cb
    by (auto simp: Circularbuf_dump_to_def Circularbuf_data_size_def Circularbuf_inv_def Let_def)
  ultimately show ?thesis using True cb b
    by (auto simp: Circularbuf_contents_def Circularbuf_inv_def)
next
  case False
  let ?d = "drop (start_ptr cb) (cb_buffer cb)" let ?d2 = "take (end_ptr cb) (cb_buffer cb)"
  from store_law [OF b] obtain b1 where b1: "vt_store vt b ?d = Inr b1" "invar b1" "appendable b1"
    "stored b1 = stored b @ ?d" by blast
  from store_law [OF b1(2,3)] obtain b2 where "vt_store vt b1 ?d2 = Inr b2" "invar b2" "appendable b2"
    "stored b2 = stored b1 @ ?d2" by blast
  with False cb b1 show ?thesis
    by (auto simp: Circularbuf_dump_to_def Circularbuf_data_size_def Circularbuf_contents_def
        Circularbuf_inv_def Let_def)
qed

end

context fifo_store
begin

text \<open>Dumping into a store with a read cursor of its own leaves that cursor alone.\<close>

lemma dump_to_keeps_cursor:
  assumes b: "invar b" "appendable b" and d: "Circularbuf_dump_to vt cb b = Inr (cb', b')"
  shows "cursor b' = cursor b"
proof -
  have two: "cursor b2 = cursor b" if "vt_store vt b x = Inr b1" "vt_store vt b1 y = Inr b2" for x y b1 b2
    using that store_law [OF b, of x] store_keeps_cursor [OF b] store_keeps_cursor [of b1 y b2] by auto
  from d show ?thesis
    by (auto simp: Circularbuf_dump_to_def Let_def bindE_eq_Inr_iff split: if_splits
        dest: store_keeps_cursor [OF b] intro: two)
qed

end

section \<open>The interface of an output queue\<close>

text \<open>
  What a connection in fast mode relies on: appending what fits keeps it in order, draining
  moves a prefix of the queue to the socket.
\<close>

locale output_queue =
  fixes space :: "'q \<Rightarrow> nat"
    and append_from :: "'q \<Rightarrow> char list \<Rightarrow> (nat \<times> 'q) res"
    and drain_to :: "'q \<Rightarrow> sock \<Rightarrow> (io_stat \<times> 'q \<times> sock) res"
    and contents :: "'q \<Rightarrow> char list"
    and qinvar :: "'q \<Rightarrow> bool"
  assumes append_law: "qinvar q \<Longrightarrow> length d \<le> space q \<Longrightarrow>
      \<exists>q'. append_from q d = Inr (length d, q') \<and> qinvar q' \<and> contents q' = contents q @ d"
    and drain_law: "qinvar q \<Longrightarrow>
      \<exists>stat q' s'. drain_to q s = Inr (stat, q', s') \<and> qinvar q'
        \<and> nbytes stat \<le> length (contents q) \<and> contents q' = drop (nbytes stat) (contents q)
        \<and> sent s' = sent s @ take (nbytes stat) (contents q)
        \<and> received s' = received s \<and> rx s' = rx s"
begin

text \<open>
  The heart of fast-mode forwarding: read from one socket what the queue of the other has room
  for, append it and drain.  Whatever the two sockets do, every byte read is delivered or
  queued behind the earlier ones.
\<close>

lemma relay:
  assumes q: "qinvar q" and r: "read_all s1 (space q) = (d, stat, s1')"
  obtains q1 stat2 q2 s2' where "append_from q d = Inr (nbytes stat, q1)"
    "drain_to q1 s2 = Inr (stat2, q2, s2')" "qinvar q1" "qinvar q2"
    "received s1' = received s1 @ d" "sent s2' @ contents q2 = sent s2 @ contents q @ d"
    "received s2' = received s2" "rx s2' = rx s2"
proof -
  note sp = read_all_spec [OF r]
  then have "length d \<le> space q" by simp
  from append_law [OF q this] obtain q1 where q1: "append_from q d = Inr (length d, q1)" "qinvar q1"
    "contents q1 = contents q @ d" by blast
  from drain_law [OF q1(2)] obtain stat2 q2 s2' where "drain_to q1 s2 = Inr (stat2, q2, s2')"
    "qinvar q2" "contents q2 = drop (nbytes stat2) (contents q1)"
    "sent s2' = sent s2 @ take (nbytes stat2) (contents q1)" "received s2' = received s2"
    "rx s2' = rx s2" by blast
  moreover from this have "sent s2' @ contents q2 = sent s2 @ contents q1" by simp
  ultimately show thesis using q1 sp by (intro that [of q1 stat2 q2 s2']) simp_all
qed

end

interpretation cb: output_queue Circularbuf_remaining_space Circularbuf_copy_from
  Circularbuf_write_all_to Circularbuf_contents Circularbuf_inv
proof (unfold_locales, goal_cases)
  case (1 q d)
  then show ?case using Circularbuf_copy_from_spec [OF 1(1), of d] by (metis min_absorb1 take_all)
next
  case (2 q s)
  obtain stat q' s' where "Circularbuf_write_all_to q s = Inr (stat, q', s')"
    "Circularbuf_drained q s stat q' s'"
    using Circularbuf_write_all_to_spec [OF 2] by blast
  with 2 show ?case
    by (auto simp: Circularbuf_drained_def Circularbuf_data_size_contents)
qed

section \<open>Properties\<close>

text \<open>
  C31: \<open>copy_from\<close> refines appending to a bounded queue: on every buffer and all data it stays
  inside the array, returns the number of bytes there was room for, and the queue afterwards
  is the old one followed by exactly these bytes, whether or not the copy wraps around.
\<close>

theorem Circularbuf_copy_from_refines:
  assumes "Circularbuf_inv cb"
  shows "\<exists>cb'. Circularbuf_copy_from cb data = Inr (min (length data) (Circularbuf_remaining_space cb), cb')
    \<and> Circularbuf_inv cb' \<and> length (cb_buffer cb') = length (cb_buffer cb)
    \<and> Circularbuf_contents cb' = Circularbuf_contents cb @ take (Circularbuf_remaining_space cb) data"
  by (rule Circularbuf_copy_from_spec [OF assms, of data]) blast

text \<open>A buffer of five slots that is wrapped around, for the witnesses.\<close>

definition wrapped_buf :: circularbuf where
  "wrapped_buf = \<lparr>cb_buffer = ''cdxab'', start_ptr = 3, end_ptr = 1\<rparr>"

lemma wrapped_buf_facts [simp]:
  "Circularbuf_inv wrapped_buf" "Circularbuf_contents wrapped_buf = ''abc''"
  "Circularbuf_remaining_space wrapped_buf = 1" "length (cb_buffer wrapped_buf) \<le> SOCK_IO_BUF_SIZE"
  by (simp_all add: Circularbuf_inv_def Circularbuf_contents_def Circularbuf_remaining_space_def
      Circularbuf_data_size_def wrapped_buf_def SOCK_IO_BUF_SIZE_def)

theorem Circularbuf_copy_from_refines_witness:
  "\<exists>cb'. Circularbuf_copy_from wrapped_buf ''yz'' = Inr (1, cb') \<and> Circularbuf_contents cb' = ''abcy''"
  using Circularbuf_copy_from_refines [of wrapped_buf "''yz''"] by auto

text \<open>
  C32: \<open>write_all_to\<close> refines dropping a prefix of the queue: what the socket took is exactly
  the first \<open>nbytes\<close> bytes of the queue, also where the buffer is wrapped around and two
  writes are needed; the rest stays queued in order, and an error is reported exactly when
  something stays.
\<close>

theorem Circularbuf_write_all_to_refines:
  assumes "Circularbuf_inv cb"
  shows "\<exists>stat cb' s'. Circularbuf_write_all_to cb s = Inr (stat, cb', s') \<and> Circularbuf_inv cb'
    \<and> nbytes stat \<le> length (Circularbuf_contents cb)
    \<and> Circularbuf_contents cb' = drop (nbytes stat) (Circularbuf_contents cb)
    \<and> sent s' = sent s @ take (nbytes stat) (Circularbuf_contents cb)
    \<and> received s' = received s \<and> (has_error stat \<longleftrightarrow> Circularbuf_contents cb' \<noteq> [])"
  by (rule Circularbuf_write_all_to_spec [OF assms, of s])
    (use assms in \<open>auto simp: Circularbuf_drained_def Circularbuf_data_size_contents\<close>)

theorem Circularbuf_write_all_to_refines_witness:
  "\<exists>stat cb' s'. Circularbuf_write_all_to wrapped_buf (idle_sock\<lparr>tx := [WAcc 5]\<rparr>) = Inr (stat, cb', s')
     \<and> sent s' = take (nbytes stat) ''abc'' \<and> Circularbuf_contents cb' = drop (nbytes stat) ''abc''"
  using Circularbuf_write_all_to_refines [of wrapped_buf "idle_sock\<lparr>tx := [WAcc 5]\<rparr>"]
  by (fastforce simp: idle_sock_def)

text \<open>
  \<open>read_all_from\<close> never overruns \<open>global_buffer\<close>, its assertion never fails, and the bytes
  taken out of the socket are exactly the bytes appended to the queue.
\<close>

theorem Circularbuf_read_all_from_safe:
  assumes "Circularbuf_inv cb" "length (cb_buffer cb) \<le> SOCK_IO_BUF_SIZE"
  shows "\<exists>stat cb' s' d. Circularbuf_read_all_from cb s = Inr (stat, cb', s') \<and> Circularbuf_inv cb'
    \<and> received s' = received s @ d \<and> Circularbuf_contents cb' = Circularbuf_contents cb @ d
    \<and> nbytes stat = length d \<and> length d \<le> Circularbuf_remaining_space cb"
proof -
  from assms obtain stat cb' s' d where
    "Circularbuf_read_all_from cb s = Inr (stat, cb', s')" "Circularbuf_inv cb'"
    "received s' = received s @ d" "Circularbuf_contents cb' = Circularbuf_contents cb @ d"
    "nbytes stat = length d" "read_all s (Circularbuf_remaining_space cb) = (d, stat, s')"
    by (rule Circularbuf_read_all_from_spec)
  with read_all_spec(3) show ?thesis by fastforce
qed

theorem Circularbuf_read_all_from_safe_witness:
  "\<exists>stat cb' s' d. Circularbuf_read_all_from wrapped_buf (idle_sock\<lparr>rx := [RData ''uvw'']\<rparr>) = Inr (stat, cb', s')
     \<and> received s' = d \<and> Circularbuf_contents cb' = ''abc'' @ d \<and> length d \<le> 1"
  using Circularbuf_read_all_from_safe [of wrapped_buf "idle_sock\<lparr>rx := [RData ''uvw'']\<rparr>"]
  by (fastforce simp: idle_sock_def)

text \<open>
  \<open>dump_to\<close> empties the queue into a response buffer: the file gains exactly the queued
  bytes, in order, behind what it already held, and its reader stays where it was.
\<close>

theorem Circularbuf_dump_to_fifo:
  assumes "Circularbuf_inv cb" "FIFOfilebuf_inv fb" "Filebuf_appendable fb"
  shows "\<exists>cb' fb'. Circularbuf_dump_to FIFOfilebuf_vt cb fb = Inr (cb', fb')
    \<and> Circularbuf_data_size cb' = 0 \<and> FIFOfilebuf_inv fb' \<and> Filebuf_appendable fb'
    \<and> content fb' = content fb @ Circularbuf_contents cb"
  using ff.dump_to_correct [OF assms] by (auto simp: Circularbuf_data_size_contents)

theorem Circularbuf_dump_to_fifo_witness:
  "\<exists>fb cb' fb'. FIFOfilebuf_new (Some healthy_disk) True = Inr fb
     \<and> Circularbuf_dump_to FIFOfilebuf_vt wrapped_buf fb = Inr (cb', fb') \<and> content fb' = ''abc''"
proof -
  obtain fb where fb: "FIFOfilebuf_new (Some healthy_disk) True = Inr fb" "FIFOfilebuf_inv fb"
    "Filebuf_appendable fb" "content fb = []"
    by (simp add: FIFOfilebuf_new_def Filebuf_new_def healthy_disk_def FIFOfilebuf_inv_def healthy_def
        Filebuf_appendable_def fifofilebuf.defs filebuf.defs)
  from Circularbuf_dump_to_fifo [OF wrapped_buf_facts(1) fb(2,3)] fb(1,4) show ?thesis by auto
qed

end
