(* ===== verification/Stores.thy ===== *)
theory Stores
  imports Files
begin

text \<open>
  What the three file-backed buffers promise to their users, from construction on: what is
  stored is read back, in one piece or interleaved, copies are exact, and what happens on a disk
  that fails or when \<open>rewind\<close> is asked to go back a part of the way.
\<close>

section \<open>New buffers\<close>

lemma new_filebuf:
  obtains fb where "Filebuf_new (Some healthy_disk) = Inr fb" "Filebuf_inv fb" "Filebuf_appendable fb" "content fb = []"
    "data_size fb = 0"
  by (simp add: Filebuf_new_def healthy_disk_def Filebuf_inv_def healthy_def Filebuf_appendable_def)

lemma new_fifofilebuf:
  obtains fb where "FIFOfilebuf_new (Some healthy_disk) True = Inr fb" "FIFOfilebuf_inv fb" "Filebuf_appendable fb"
    "content fb = []" "reader_pos fb = 0"
  by (simp add: FIFOfilebuf_new_def Filebuf_new_def healthy_disk_def FIFOfilebuf_inv_def healthy_def Filebuf_appendable_def
      filebuf.defs fifofilebuf.defs)

lemma new_hybridbuf:
  obtains hb where "Hybridbuf_new (Some healthy_disk) = Inr hb" "Hybridbuf_inv hb" "Hybridbuf_appendable hb"
    "Hybridbuf_stored hb = []"
  using HIST_CACHE_SIZE_bounds
  by (simp add: Hybridbuf_new_def Filebuf_new_def healthy_disk_def Hybridbuf_inv_def healthy_def Hybridbuf_stored_def
      Hybridbuf_appendable_def Hybridbuf_cursor_def hybridbuf.defs filebuf.defs)

section \<open>Round trips\<close>

text \<open>
  C34: whatever chunks are stored in a new \<open>Hybridbuf\<close>, however their sizes fall on the border
  between its memory and its file, after \<open>rewind()\<close> they are read back in order and completely.
  This is the property the repository's buffer test samples.
\<close>

theorem Hybridbuf_roundtrip:
  "bindE (Hybridbuf_new (Some healthy_disk)) (\<lambda>b. rw_helper Hybridbuf_vt b chunks) = Inr (concat chunks, 0)"
  by (rule new_hybridbuf) (simp add: hb.rw_helper_correct)

section \<open>Interleaved use\<close>

text \<open>
  The use the slow-mode handlers make of a \<open>FIFOfilebuf\<close>, in any order: store what came from the
  server; fetch, pass \<open>m\<close> bytes on and rewind by the others.
\<close>

datatype fifo_op = Put "char list" | Take nat

fun fifo_run :: "'b vtable \<Rightarrow> fifo_op list \<Rightarrow> 'b \<Rightarrow> (char list \<times> 'b) res" where
  "fifo_run vt [] b = Inr ([], b)"
| "fifo_run vt (Put d # ops) b = bindE (vt_store vt b d) (fifo_run vt ops)"
| "fifo_run vt (Take m # ops) b =
     bindE (vt_fetch vt b SOCK_IO_BUF_SIZE) (\<lambda>(count, d, b1).
     bindE (if m < length d then vt_rewind vt b1 (length d - m) else Inr b1) (\<lambda>b2.
     bindE (fifo_run vt ops b2) (\<lambda>(out, b3). Inr (take m d @ out, b3))))"

text \<open>The specification: a queue of bytes.\<close>

fun queue_run :: "fifo_op list \<Rightarrow> char list \<Rightarrow> char list \<times> char list" where
  "queue_run [] q = ([], q)"
| "queue_run (Put d # ops) q = queue_run ops (q @ d)"
| "queue_run (Take m # ops) q =
     (let k = min m SOCK_IO_BUF_SIZE; (out, q') = queue_run ops (drop k q) in (take k q @ out, q'))"

text \<open>A fetch from the file takes what is asked for, and the unused part goes back.\<close>

lemma FIFOfilebuf_take:
  assumes "FIFOfilebuf_inv b" "Filebuf_appendable b" "0 < n"
  obtains d b1 b2 where "vt_fetch FIFOfilebuf_vt b n = Inr (int (length d), d, b1)"
    "(if m < length d then vt_rewind FIFOfilebuf_vt b1 (length d - m) else Inr b1) = Inr b2"
    "FIFOfilebuf_inv b2" "Filebuf_appendable b2" "take m d = take (min m n) (drop (reader_pos b) (content b))"
    "drop (reader_pos b2) (content b2) = drop (min m n) (drop (reader_pos b) (content b))"
proof -
  define d where "d = take n (drop (reader_pos b) (content b))"
  let ?b1 = "b\<lparr>reader_pos := reader_pos b + length d\<rparr>"
  have f: "vt_fetch FIFOfilebuf_vt b n = Inr (int (length d), d, ?b1)"
    using assms(1) by (simp add: FIFOfilebuf_defs file_read_at_healthy d_def)
  show thesis
  proof (cases "m < length d")
    case True
    then obtain b2 where b2: "vt_rewind FIFOfilebuf_vt ?b1 (length d - m) = Inr b2" "FIFOfilebuf_inv b2"
      "content b2 = content b" "reader_pos b2 = reader_pos b + m"
      using ff.fetch_put_back [OF assms(1) f assms(3)] by blast
    have "Filebuf_appendable ?b1" "FIFOfilebuf_inv ?b1"
      using assms by (auto simp: FIFOfilebuf_inv_def Filebuf_appendable_def d_def healthy_def)
    moreover have "0 < length d - m" using True by simp
    ultimately have "Filebuf_appendable b2" using ff.back_keeps_appendable b2(1) by blast
    moreover have "m < n" using True by (simp add: d_def)
    ultimately show thesis using f b2 True that [of d ?b1 b2]
      by (auto simp: d_def add.commute min_absorb1)
  next
    case False
    have "FIFOfilebuf_inv ?b1" "Filebuf_appendable ?b1"
      using assms by (auto simp: FIFOfilebuf_inv_def Filebuf_appendable_def d_def healthy_def)
    moreover have "drop (length d + reader_pos b) (content b) = drop (min m n) (drop (reader_pos b) (content b))"
      using False by (auto simp: d_def min_def)
    moreover have "take m d = take (min m n) (drop (reader_pos b) (content b))" by (simp add: d_def)
    ultimately show thesis using f False that [of d ?b1 ?b1] by (simp add: add.commute)
  qed
qed

lemma FIFOfilebuf_run:
  assumes "FIFOfilebuf_inv b" "Filebuf_appendable b"
  shows "\<exists>out b'. fifo_run FIFOfilebuf_vt ops b = Inr (out, b')
    \<and> queue_run ops (drop (reader_pos b) (content b)) = (out, drop (reader_pos b') (content b'))"
  using assms
proof (induction ops arbitrary: b)
  case (Cons op ops)
  show ?case
  proof (cases op)
    case (Put d)
    from ff.store_law [OF Cons.prems] obtain b1 where b1: "vt_store FIFOfilebuf_vt b d = Inr b1" "FIFOfilebuf_inv b1"
      "Filebuf_appendable b1" "content b1 = content b @ d" by blast
    have "reader_pos b1 = reader_pos b" using ff.store_keeps_cursor [OF Cons.prems b1(1)] .
    moreover have "reader_pos b \<le> length (content b)" using Cons.prems(1) by (simp add: FIFOfilebuf_inv_def)
    ultimately show ?thesis using Put b1 Cons.IH [OF b1(2,3)] by simp
  next
    case (Take m)
    from Cons.prems SOCK_IO_BUF_SIZE_pos obtain d b1 b2 where
      t: "vt_fetch FIFOfilebuf_vt b SOCK_IO_BUF_SIZE = Inr (int (length d), d, b1)"
        "(if m < length d then vt_rewind FIFOfilebuf_vt b1 (length d - m) else Inr b1) = Inr b2"
        "FIFOfilebuf_inv b2" "Filebuf_appendable b2"
        "take m d = take (min m SOCK_IO_BUF_SIZE) (drop (reader_pos b) (content b))"
        "drop (reader_pos b2) (content b2) = drop (min m SOCK_IO_BUF_SIZE) (drop (reader_pos b) (content b))"
      by (rule FIFOfilebuf_take)
    from Cons.IH [OF t(3,4)] obtain out b' where "fifo_run FIFOfilebuf_vt ops b2 = Inr (out, b')"
      "queue_run ops (drop (reader_pos b2) (content b2)) = (out, drop (reader_pos b') (content b'))" by blast
    with Take t(1,2,5,6) show ?thesis by (auto simp: Let_def case_prod_beta)
  qed
qed simp

text \<open>
  C33: a \<open>FIFOfilebuf\<close> implements a queue of bytes.  For every sequence of stores and partial
  fetches with put-back, from the new buffer on, what the fetches deliver and what is left
  between the two cursors is what a queue delivers and keeps.
\<close>

theorem FIFOfilebuf_refines_queue:
  "\<exists>out b'. bindE (FIFOfilebuf_new (Some healthy_disk) True) (fifo_run FIFOfilebuf_vt ops) = Inr (out, b')
     \<and> queue_run ops [] = (out, drop (reader_pos b') (content b'))"
proof -
  obtain b where "FIFOfilebuf_new (Some healthy_disk) True = Inr b" "FIFOfilebuf_inv b" "Filebuf_appendable b"
    "content b = []" "reader_pos b = 0" by (rule new_fifofilebuf)
  with FIFOfilebuf_run [of b ops] show ?thesis by simp
qed

section \<open>Copying\<close>

text \<open>
  C35: \<open>copy_data\<close> from a client's history to a request file terminates and makes the file hold
  exactly the history's bytes, wherever the cursor of the history and whatever the file held;
  the history itself is unchanged, and more can be appended to the file.
\<close>

theorem copy_data_exact:
  assumes "Hybridbuf_inv hb" "Filebuf_inv fb"
  shows "\<exists>hb' fb'. Filebuf_copy_data Hybridbuf_vt Filebuf_vt hb fb = Inr (hb', fb')
    \<and> content fb' = Hybridbuf_stored hb \<and> Hybridbuf_stored hb' = Hybridbuf_stored hb
    \<and> fd_pos fb' = length (content fb')"
  using Filebuf_copy_data_correct [OF assms] by (auto simp: Filebuf_appendable_def)

definition small_hybridbuf :: "char list \<Rightarrow> nat \<Rightarrow> nat \<Rightarrow> char list \<Rightarrow> hybridbuf" where
  "small_hybridbuf mem np pos file =
     \<lparr>data_size = length mem + length file, content = file, fd_pos = pos, d_write = [], d_read = [], d_trunc = [],
      fb_errno = EOTHER 0, hb_buffer = mem, next_pos = np\<rparr>"

theorem copy_data_exact_witness:
  "\<exists>hb' fb'. Filebuf_copy_data Hybridbuf_vt Filebuf_vt (small_hybridbuf ''abcd'' 4 1 ''ef'')
       \<lparr>data_size = 3, content = ''old'', fd_pos = 2, d_write = [], d_read = [], d_trunc = [], fb_errno = EINTR\<rparr>
     = Inr (hb', fb') \<and> content fb' = ''abcdef''"
  using copy_data_exact [of "small_hybridbuf ''abcd'' 4 1 ''ef''"
      "\<lparr>data_size = 3, content = ''old'', fd_pos = 2, d_write = [], d_read = [], d_trunc = [], fb_errno = EINTR\<rparr>"]
  by (auto simp: small_hybridbuf_def Hybridbuf_inv_def Filebuf_inv_def healthy_def Hybridbuf_stored_def)

section \<open>Failing disks\<close>

text \<open>
  On any disk, a store either ends the program (an error other than \<open>EAGAIN\<close> and \<open>EINTR\<close>) or
  puts a prefix of the data at the cursor, all of it unless ten attempts were not enough, and
  \<open>data_size\<close> grows by exactly the bytes that reached the file.
\<close>

theorem Filebuf_store_accounting:
  assumes "fd_pos fb \<le> length (content fb)"
  shows "Filebuf_file_write fb data = Inl Abort
    \<or> (\<exists>k fb'. Filebuf_file_write fb data = Inr fb' \<and> k \<le> length data \<and> data_size fb' = data_size fb + k
         \<and> content fb' = file_put (content fb) (fd_pos fb) (take k data) \<and> fd_pos fb' = fd_pos fb + k)"
proof (cases "Filebuf_file_write fb data")
  case (Inl f)
  have "Filebuf_write_loop n fb data = Inl e \<Longrightarrow> e = Abort" for n e
    by (induction n arbitrary: fb data) (auto simp: Let_def split: if_splits prod.splits)
  with Inl show ?thesis by (auto simp: Filebuf_file_write_def bindE_eq_Inl_iff)
next
  case (Inr fb')
  with Filebuf_file_write_spec [OF Inr assms] show ?thesis by blast
qed

definition flaky_file :: filebuf where
  "flaky_file = \<lparr>data_size = 2, content = ''ab'', fd_pos = 2, d_write = [WAcc 2, WErr EINTR, WErr EAGAIN, WAcc 1],
     d_read = [], d_trunc = [], fb_errno = EOTHER 0\<rparr>"

theorem Filebuf_store_accounting_witness:
  "fd_pos flaky_file \<le> length (content flaky_file)
   \<and> (\<exists>k fb'. Filebuf_file_write flaky_file ''cdefg'' = Inr fb' \<and> content fb' = ''ab'' @ take k ''cdefg'')"
proof -
  have "Filebuf_file_write flaky_file ''cdefg'' \<noteq> Inl Abort"
    by (simp add: Filebuf_file_write_def flaky_file_def eval_nat_numeral file_write_def file_put_def)
  moreover have "fd_pos flaky_file \<le> length (content flaky_file)" by (simp add: flaky_file_def)
  ultimately show ?thesis using Filebuf_store_accounting [of flaky_file "''cdefg''"]
    by (auto simp: flaky_file_def file_put_def overwrite_def)
qed

section \<open>Going back a part of the way\<close>

text \<open>
  \<open>Hybridbuf::rewind(amount)\<close> with a positive amount counts from the end of the data.  With the
  cursor at the end of the data, as after storing, it goes back exactly \<open>amount\<close> bytes, in memory, in the
  file and across the border.
\<close>

lemma Hybridbuf_rewind_from_end:
  assumes "Hybridbuf_inv hb" "Hybridbuf_appendable hb" "0 < amount" "amount \<le> data_size hb" "data_size hb < 2 ^ 64"
  shows "\<exists>hb'. Hybridbuf_rewind hb amount = Inr hb' \<and> Hybridbuf_inv hb' \<and> Hybridbuf_stored hb' = Hybridbuf_stored hb
    \<and> Hybridbuf_cursor hb' = data_size hb - amount"
proof -
  define offset where "offset = data_size hb - amount"
  have off: "usub 64 (data_size hb) amount = offset" using assms by (simp add: usub_no_wrap offset_def)
  from assms have i: "next_pos hb \<le> length (hb_buffer hb)" "length (hb_buffer hb) < 2 ^ 32" "next_pos hb + fd_pos hb = data_size hb"
    "length (content hb) = data_size hb - length (hb_buffer hb)" "next_pos hb \<le> data_size hb" "fd_pos hb \<le> length (content hb)"
    by (auto simp: Hybridbuf_inv_def Hybridbuf_appendable_def Hybridbuf_cursor_def)
  then have np: "next_pos hb = min (data_size hb) (length (hb_buffer hb))" by linarith
  show ?thesis
  proof (cases "offset < length (hb_buffer hb)")
    case True
    have lt: "offset < next_pos hb" using True np assms(3,4) by (simp add: offset_def)
    with i have d: "usub 64 (next_pos hb) offset = next_pos hb - offset" by (intro usub_no_wrap) auto
    have t: "utrunc 32 (next_pos hb - offset) = next_pos hb - offset" using i(1,2) by (simp add: utrunc_def)
    have "usub 32 (next_pos hb) (next_pos hb - offset) = offset" using lt i by (subst usub_no_wrap) auto
    with True off d t lt have "Hybridbuf_rewind hb amount = Inr (hb\<lparr>fd_pos := 0, next_pos := offset\<rparr>)"
      using assms(3) by (simp add: Hybridbuf_rewind_def Filebuf_file_rewind_def Hybridbuf_buf_rewind_def Let_def)
    with assms(1) lt show ?thesis
      by (auto simp: Hybridbuf_inv_def healthy_def Hybridbuf_stored_def Hybridbuf_cursor_def offset_def)
  next
    case False
    then have "amount \<le> fd_pos hb" using i np assms(4) unfolding offset_def by linarith
    moreover from this False assms(3) off have "Hybridbuf_rewind hb amount = Inr (hb\<lparr>fd_pos := fd_pos hb - amount\<rparr>)"
      by (simp add: Hybridbuf_rewind_def Filebuf_file_rewind_def)
    ultimately show ?thesis using assms(1) i np False
      by (auto simp: Hybridbuf_inv_def healthy_def Hybridbuf_stored_def Hybridbuf_cursor_def offset_def)
  qed
qed

text \<open>
  After a fetch the same call does not go back from the cursor, as \<open>Filebuf::rewind\<close> does and as
  the header says of it.  Having read three of six bytes, going back by one leaves the cursor at
  the fifth; going back by three, which lands on the cursor itself, goes to the beginning.
\<close>

theorem Hybridbuf_rewind_misplaced:
  "(\<exists>hb. Hybridbuf_inv hb \<and> Hybridbuf_stored hb = ''abcdef'' \<and> Hybridbuf_cursor hb = 3
      \<and> (\<exists>hb'. Hybridbuf_rewind hb 3 = Inr hb' \<and> Hybridbuf_cursor hb' = 0)
      \<and> (\<exists>hb'. Hybridbuf_rewind hb 1 = Inr hb' \<and> Hybridbuf_cursor hb' = 5))"
proof (rule exI [of _ "small_hybridbuf ''abcdef'' 3 0 []"], intro conjI)
  let ?h = "small_hybridbuf ''abcdef'' 3 0 []"
  show "Hybridbuf_inv ?h" "Hybridbuf_stored ?h = ''abcdef''" "Hybridbuf_cursor ?h = 3"
    by (simp_all add: small_hybridbuf_def Hybridbuf_inv_def healthy_def Hybridbuf_stored_def Hybridbuf_cursor_def)
  show "\<exists>hb'. Hybridbuf_rewind ?h 3 = Inr hb' \<and> Hybridbuf_cursor hb' = 0"
    "\<exists>hb'. Hybridbuf_rewind ?h 1 = Inr hb' \<and> Hybridbuf_cursor hb' = 5"
    by (simp_all add: small_hybridbuf_def Hybridbuf_rewind_def Filebuf_file_rewind_def Hybridbuf_buf_rewind_def Let_def
        usub_def utrunc_def Hybridbuf_cursor_def)
qed

end
