(* ===== verification/Parser.thy ===== *)
theory Parser
  imports Config
begin

text \<open>
  The \<open>HttpParser\<close> class of \<open>src/ls_proxy.h\<close> with its callbacks in \<open>src/ls_proxy.cpp\<close>.  The
  parser itself is the llhttp library, shipped as a binary: it is a parameter, a record with
  its initial state and its \<open>llhttp_execute\<close>.  The library calls the registered callbacks on
  the \<open>HttpParser\<close> it was given as user data, so the parameter takes the callbacks as a
  function on the fields of \<open>HttpParser\<close> and returns those fields as the callbacks left them.
\<close>

text \<open>The fields of \<open>HttpParser\<close> the callbacks work on; end-of-message pointers are offsets.\<close>

record http_fields =
  last_method :: "8 word"
  first_eom :: "nat option"
  last_eom :: "nat option"

text \<open>
  A callback as llhttp invokes it: with the response's status code, or with the offset next to
  the end of the message and the method of the parser.
\<close>

datatype callback = HeadersComplete "16 word" | MessageComplete nat "8 word"

definition HTTP_HEAD :: "8 word" where
  "HTTP_HEAD = 2"

definition headers_complete_cb :: "16 word \<Rightarrow> http_fields \<Rightarrow> int \<times> http_fields" where
  "headers_complete_cb status_code h =
     (if status_code = 304 \<or> last_method h = HTTP_HEAD then (1, h) else (0, h))"

definition message_complete_cb :: "nat \<Rightarrow> 8 word \<Rightarrow> http_fields \<Rightarrow> int \<times> http_fields" where
  "message_complete_cb at_ptr method h =
     (let h1 = (if first_eom h = None then h\<lparr>first_eom := Some at_ptr\<rparr> else h)
      in (0, h1\<lparr>last_eom := Some at_ptr, last_method := method\<rparr>))"

record llhttp_settings =
  on_headers_complete :: "(16 word \<Rightarrow> http_fields \<Rightarrow> int \<times> http_fields) option"
  on_message_complete :: "(nat \<Rightarrow> 8 word \<Rightarrow> http_fields \<Rightarrow> int \<times> http_fields) option"

definition llhttp_settings_init :: llhttp_settings where
  "llhttp_settings_init = \<lparr>on_headers_complete = None, on_message_complete = None\<rparr>"

text \<open>The two settings \<open>init_all_settings\<close> prepares.\<close>

definition request_settings :: llhttp_settings where
  "request_settings = llhttp_settings_init\<lparr>on_message_complete := Some message_complete_cb\<rparr>"

definition response_settings :: llhttp_settings where
  "response_settings =
     llhttp_settings_init\<lparr>on_headers_complete := Some headers_complete_cb,
                          on_message_complete := Some message_complete_cb\<rparr>"

text \<open>Invoke a callback if it is set.\<close>

definition invoke :: "llhttp_settings \<Rightarrow> callback \<Rightarrow> http_fields \<Rightarrow> int \<times> http_fields" where
  "invoke st cb h =
     (case cb of
        HeadersComplete sc \<Rightarrow> (case on_headers_complete st of None \<Rightarrow> (0, h) | Some f \<Rightarrow> f sc h)
      | MessageComplete a m \<Rightarrow> (case on_message_complete st of None \<Rightarrow> (0, h) | Some f \<Rightarrow> f a m h))"

record 'p llhttp =
  llhttp_init :: 'p
  llhttp_execute :: "'p \<Rightarrow> char list \<Rightarrow> (callback \<Rightarrow> http_fields \<Rightarrow> int \<times> http_fields)
    \<Rightarrow> http_fields \<Rightarrow> 'p \<times> http_fields \<times> bool"

record 'p http_parser =
  hfields :: http_fields
  llp :: 'p
  psettings :: llhttp_settings

definition HttpParser_reset_parser :: "'p llhttp \<Rightarrow> llhttp_settings \<Rightarrow> 'p http_parser \<Rightarrow> 'p http_parser" where
  "HttpParser_reset_parser ll st p = p\<lparr>llp := llhttp_init ll, psettings := st\<rparr>"

definition HttpParser_new :: "'p llhttp \<Rightarrow> 'p http_parser" where
  "HttpParser_new ll =
     HttpParser_reset_parser ll request_settings
       \<lparr>hfields = \<lparr>last_method = 0, first_eom = None, last_eom = None\<rparr>,
        llp = llhttp_init ll, psettings = llhttp_settings_init\<rparr>"

definition HttpParser_switch_to_request_mode :: "'p llhttp \<Rightarrow> 'p http_parser \<Rightarrow> 'p http_parser" where
  "HttpParser_switch_to_request_mode ll p = HttpParser_reset_parser ll request_settings p"

definition HttpParser_switch_to_response_mode :: "'p llhttp \<Rightarrow> 'p http_parser \<Rightarrow> 'p http_parser" where
  "HttpParser_switch_to_response_mode ll p = HttpParser_reset_parser ll response_settings p"

text \<open>\<open>do_parse\<close>: the second component is False where the code throws \<open>ParserError\<close>.\<close>

definition HttpParser_do_parse :: "'p llhttp \<Rightarrow> 'p http_parser \<Rightarrow> char list \<Rightarrow> 'p http_parser \<times> bool" where
  "HttpParser_do_parse ll p data =
     (let h = (hfields p)\<lparr>first_eom := None, last_eom := None\<rparr>
      in case llhttp_execute ll (llp p) data (invoke (psettings p)) h of
        (l, h', ok) \<Rightarrow> (p\<lparr>llp := l, hfields := h'\<rparr>, ok))"

abbreviation eom_first :: "'p http_parser \<Rightarrow> nat option" where
  "eom_first p \<equiv> first_eom (hfields p)"

abbreviation eom_last :: "'p http_parser \<Rightarrow> nat option" where
  "eom_last p \<equiv> last_eom (hfields p)"

section \<open>What is relied on of llhttp\<close>

text \<open>
  The effect of a sequence of callback invocations on the fields, and the message ends it
  reports.
\<close>

fun run_callbacks :: "llhttp_settings \<Rightarrow> callback list \<Rightarrow> http_fields \<Rightarrow> http_fields" where
  "run_callbacks st [] h = h"
| "run_callbacks st (c # cs) h = run_callbacks st cs (snd (invoke st c h))"

fun message_ends :: "callback list \<Rightarrow> nat list" where
  "message_ends [] = []"
| "message_ends (HeadersComplete sc # cs) = message_ends cs"
| "message_ends (MessageComplete a m # cs) = a # message_ends cs"

text \<open>
  llhttp touches the user data only through the callbacks, and reports message ends in order
  and inside the data it was given.
\<close>

definition llhttp_ok :: "'p llhttp \<Rightarrow> bool" where
  "llhttp_ok ll \<longleftrightarrow>
     (\<forall>l data st h. \<exists>l' cs ok.
        llhttp_execute ll l data (invoke st) h = (l', run_callbacks st cs h, ok)
        \<and> sorted (message_ends cs) \<and> (\<forall>a \<in> set (message_ends cs). a \<le> length data))"

text \<open>A parser whose settings are one of the two the program uses.\<close>

definition HttpParser_inv :: "'p http_parser \<Rightarrow> bool" where
  "HttpParser_inv p \<longleftrightarrow> psettings p = request_settings \<or> psettings p = response_settings"

section \<open>Lemmas\<close>

lemmas settings_defs = request_settings_def response_settings_def llhttp_settings_init_def

lemma HttpParser_inv_reset [simp]:
  "HttpParser_inv (HttpParser_new ll)"
  "HttpParser_inv (HttpParser_switch_to_request_mode ll p)"
  "HttpParser_inv (HttpParser_switch_to_response_mode ll p)"
  by (simp_all add: HttpParser_inv_def HttpParser_new_def HttpParser_reset_parser_def
      HttpParser_switch_to_request_mode_def HttpParser_switch_to_response_mode_def)

lemma HttpParser_do_parse_inv:
  "HttpParser_do_parse ll p data = (p', ok) \<Longrightarrow> HttpParser_inv p \<Longrightarrow> HttpParser_inv p'"
  by (auto simp: HttpParser_do_parse_def HttpParser_inv_def Let_def split: prod.splits)

lemma invoke_message_complete:
  "st = request_settings \<or> st = response_settings \<Longrightarrow>
   snd (invoke st (MessageComplete a m) h) =
     h\<lparr>first_eom := (if first_eom h = None then Some a else first_eom h), last_eom := Some a, last_method := m\<rparr>"
  by (cases h) (auto simp: invoke_def settings_defs message_complete_cb_def Let_def)

lemma invoke_headers_complete:
  "st = request_settings \<or> st = response_settings \<Longrightarrow> snd (invoke st (HeadersComplete sc) h) = h"
  by (auto simp: invoke_def settings_defs headers_complete_cb_def)

lemma run_callbacks_eom:
  assumes "st = request_settings \<or> st = response_settings"
  shows "first_eom (run_callbacks st cs h) =
      (if first_eom h \<noteq> None \<or> message_ends cs = [] then first_eom h else Some (hd (message_ends cs)))"
    and "last_eom (run_callbacks st cs h) =
      (if message_ends cs = [] then last_eom h else Some (last (message_ends cs)))"
proof (induction cs arbitrary: h)
  case (Cons c cs)
  case 1
  with Cons assms show ?case
    by (cases c) (simp_all add: invoke_message_complete invoke_headers_complete)
  case 2
  with Cons assms show ?case
    by (cases c) (simp_all add: invoke_message_complete invoke_headers_complete)
qed simp_all

text \<open>What the clients of \<open>do_parse\<close> use: the end-of-message offsets lie inside the data.\<close>

lemma HttpParser_do_parse_eom:
  assumes "llhttp_ok ll" "HttpParser_inv p" "HttpParser_do_parse ll p data = (p', ok)"
  shows "eom_first p' = None \<longleftrightarrow> eom_last p' = None"
    and "eom_first p' = Some a \<Longrightarrow> eom_last p' = Some b \<Longrightarrow> a \<le> b \<and> b \<le> length data"
proof -
  let ?h = "(hfields p)\<lparr>first_eom := None, last_eom := None\<rparr>"
  from assms(1) obtain l' cs ok' where
    x: "llhttp_execute ll (llp p) data (invoke (psettings p)) ?h = (l', run_callbacks (psettings p) cs ?h, ok')"
      "sorted (message_ends cs)" "\<forall>a \<in> set (message_ends cs). a \<le> length data"
    unfolding llhttp_ok_def by blast
  from x(1) assms(3) have f: "hfields p' = run_callbacks (psettings p) cs ?h"
    by (auto simp: HttpParser_do_parse_def)
  note e = run_callbacks_eom [OF assms(2) [unfolded HttpParser_inv_def], of cs ?h, folded f]
  from e show "eom_first p' = None \<longleftrightarrow> eom_last p' = None" by simp
  assume "eom_first p' = Some a" "eom_last p' = Some b"
  with e have ab: "message_ends cs \<noteq> []" "a = hd (message_ends cs)" "b = last (message_ends cs)"
    by (auto split: if_splits)
  with x(2) have "a \<le> b" by (cases "message_ends cs") auto
  with ab x(3) show "a \<le> b \<and> b \<le> length data" by simp
qed

lemma HttpParser_do_parse_bounds:
  assumes "llhttp_ok ll" "HttpParser_inv p" "HttpParser_do_parse ll p data = (p', ok)"
  shows "eom_first p' = Some a \<Longrightarrow> a \<le> length data" "eom_last p' = Some b \<Longrightarrow> b \<le> length data"
  using HttpParser_do_parse_eom [OF assms] by (metis le_trans not_None_eq)+

section \<open>A parser with this behaviour\<close>

text \<open>
  A library that meets the hypothesis: every line is a message, and a NUL byte is a syntax
  error.  The witnesses of the development run the model with it.
\<close>

fun line_ends :: "nat \<Rightarrow> char list \<Rightarrow> nat list" where
  "line_ends i [] = []"
| "line_ends i (x # xs) = (if x = CHR 0x0A then [Suc i] else []) @ line_ends (Suc i) xs"

definition line_llhttp :: "unit llhttp" where
  "line_llhttp = \<lparr>llhttp_init = (),
     llhttp_execute = (\<lambda>_ data cb h.
       ((), fold (\<lambda>a h. snd (cb (MessageComplete a 1) h)) (line_ends 0 data) h, CHR 0x00 \<notin> set data))\<rparr>"

lemma line_ends_bounds: "a \<in> set (line_ends i xs) \<Longrightarrow> i < a \<and> a \<le> i + length xs"
  by (induction xs arbitrary: i) (fastforce split: if_splits)+

lemma line_ends_sorted: "sorted (line_ends i xs)"
proof (induction xs arbitrary: i)
  case (Cons x xs)
  with line_ends_bounds [of _ "Suc i" xs] show ?case by (fastforce intro: less_imp_le)
qed simp

lemma fold_run_callbacks:
  "fold (\<lambda>a h. snd (invoke st (MessageComplete a 1) h)) as h = run_callbacks st (map (\<lambda>a. MessageComplete a 1) as) h"
  by (induction as arbitrary: h) simp_all

lemma message_ends_map [simp]: "message_ends (map (\<lambda>a. MessageComplete a m) as) = as"
  by (induction as) simp_all

lemma line_llhttp_ok [simp]: "llhttp_ok line_llhttp"
proof -
  have "\<exists>cs. fold (\<lambda>a h. snd (invoke st (MessageComplete a 1) h)) (line_ends 0 data) h = run_callbacks st cs h
      \<and> sorted (message_ends cs) \<and> (\<forall>a \<in> set (message_ends cs). a \<le> length data)" for data :: "char list" and st h
    unfolding fold_run_callbacks
    using line_ends_sorted [of 0 data] line_ends_bounds [of _ 0 data]
    by (intro exI [of _ "map (\<lambda>a. MessageComplete a 1) (line_ends 0 data)"]) auto
  then show ?thesis by (simp add: llhttp_ok_def line_llhttp_def)
qed

section \<open>Message ends and bodies\<close>

text \<open>
  After \<open>do_parse\<close> the two end-of-message pointers are both null or both point into the chunk
  that was parsed, the first not after the last; pointers left over from the previous chunk never
  survive.
\<close>

lemma do_parse_eom_pointers:
  assumes "llhttp_ok ll" "HttpParser_inv p"
  shows "case HttpParser_do_parse ll p data of (p', ok) \<Rightarrow>
    (case (eom_first p', eom_last p') of (None, None) \<Rightarrow> True
     | (Some a, Some b) \<Rightarrow> a \<le> b \<and> b \<le> length data
     | _ \<Rightarrow> False)"
proof -
  obtain p' ok where p: "HttpParser_do_parse ll p data = (p', ok)" by (cases "HttpParser_do_parse ll p data")
  from HttpParser_do_parse_eom [OF assms p] p show ?thesis by (auto split: option.splits)
qed



end
