(* ===== verification/Net.thy ===== *)
theory Net
  imports Config Sysio
begin

unbundle bit_operations_syntax

text \<open>
  The network utilities of \<open>src/ls_proxy.cpp\<close>: the rotating local addresses from which the
  proxy connects to the server, \<open>connect_TCP\<close> with its linear probing, \<open>passive_TCP\<close>, the
  503 reply and the graceful close.  The answers of the kernel to \<open>socket\<close>, \<open>bind\<close>,
  \<open>connect\<close> and \<open>listen\<close> are arguments.
\<close>

section \<open>Local addresses\<close>

record sockaddr_in =
  sin_port :: "16 word"
  sin_addr :: "32 word"

text \<open>Byte swaps of a little-endian host.\<close>

definition htons :: "16 word \<Rightarrow> 16 word" where
  "htons x = push_bit 8 x OR drop_bit 8 x"

text \<open>The static variables of \<open>next_local_addr\<close>.\<close>

record local_state =
  lc_addr :: sockaddr_in
  lc_port :: "16 word"

definition local_init :: local_state where
  "local_init = \<lparr>lc_addr = \<lparr>sin_port = 0, sin_addr = 0x0100007f\<rparr>, lc_port = 4100\<rparr>"

definition next_local_addr :: "local_state \<Rightarrow> sockaddr_in \<times> local_state" where
  "next_local_addr st =
     (let port = lc_port st + 1; ip = sin_addr (lc_addr st);
          (port', ip') = (if port > 65100
                          then (4100, ip + (if ip = 0xff00007f then push_bit 24 2 else push_bit 24 1))
                          else (port, ip));
          addr = \<lparr>sin_port = htons port', sin_addr = ip'\<rparr>
      in (addr, \<lparr>lc_addr = addr, lc_port = port'\<rparr>))"

section \<open>Connecting and listening\<close>

text \<open>What the kernel answers: for \<open>bind\<close>, depending on the address.\<close>

record net_env =
  socket_ok :: bool
  bind_ok :: "sockaddr_in \<Rightarrow> bool"
  connect_ok :: bool

definition total_local_addr :: nat where
  "total_local_addr = 255 * (65100 - 4100 + 1)"

text \<open>The probing loop with \<open>n\<close> rounds to go; the result says whether a bind succeeded.\<close>

fun bind_loop :: "nat \<Rightarrow> (sockaddr_in \<Rightarrow> bool) \<Rightarrow> local_state \<Rightarrow> bool \<times> local_state" where
  "bind_loop 0 bnd st = (True, st)"
| "bind_loop (Suc n) bnd st =
     (case next_local_addr st of (a, st') \<Rightarrow>
        if bnd a then (True, st')
        else if n = 0 then (False, st')
        else bind_loop n bnd st')"

text \<open>
  \<open>connect_TCP\<close> returns whether there is a connected socket (-1 otherwise); \<open>open_socks\<close>
  counts the sockets the process holds open.
\<close>

record net_state =
  locals :: local_state
  open_socks :: nat

definition connect_TCP :: "net_env \<Rightarrow> net_state \<Rightarrow> (bool \<times> net_state) res" where
  "connect_TCP env ns =
     (if \<not> socket_ok env then Inl Abort
      else
        let ns1 = ns\<lparr>open_socks := open_socks ns + 1\<rparr> in
        case bind_loop total_local_addr (bind_ok env) (locals ns1) of (bound, st) \<Rightarrow>
          let ns2 = ns1\<lparr>locals := st\<rparr> in
          if \<not> bound then Inr (False, ns2)
          else if \<not> connect_ok env then Inr (False, ns2)
          else Inr (True, ns2))"

definition passive_TCP :: "bool \<Rightarrow> bool \<Rightarrow> bool \<Rightarrow> bool \<Rightarrow> bool \<Rightarrow> net_state \<Rightarrow> net_state res" where
  "passive_TCP reuse sock_ok reuse_ok bound listen_ok ns =
     (if \<not> sock_ok then Inl Abort
      else
        let ns1 = ns\<lparr>open_socks := open_socks ns + 1\<rparr> in
        if reuse \<and> \<not> reuse_ok then Inl Abort
        else if \<not> bound then Inl Abort
        else if \<not> listen_ok then Inl Abort
        else Inr ns1)"

definition raise_open_file_limit :: "(nat \<times> nat) option \<Rightarrow> bool \<Rightarrow> nat \<Rightarrow> (nat \<times> nat) res" where
  "raise_open_file_limit getlim setlim_ok v =
     (case getlim of
        None \<Rightarrow> Inl Abort
      | Some (rlim_cur, rlim_max) \<Rightarrow>
          if rlim_max < v then Inl Abort
          else if \<not> setlim_ok then Inl Abort
          else Inr (v, rlim_max))"

section \<open>The 503 reply\<close>

fun to_string :: "nat \<Rightarrow> string" where
  "to_string n =
     (if n < 10 then [char_of (48 + n)] else to_string (n div 10) @ [char_of (48 + n mod 10)])"

declare to_string.simps [simp del]

definition CRLF :: string where
  "CRLF = [CHR 0x0D, CHR 0x0A]"

definition reply_503_header :: "nat \<Rightarrow> string" where
  "reply_503_header body_size =
     ''HTTP/1.1 503 Service Unavailable'' @ CRLF @ ''Retry-After: 60'' @ CRLF
     @ ''Connection: close'' @ CRLF @ ''Content-Length: '' @ to_string body_size @ CRLF @ CRLF"

text \<open>
  The file \<open>utils/503.html\<close>: its size as \<open>fstat\<close> reports it and the stream its descriptor
  gives; \<open>None\<close> if it cannot be opened.
\<close>

definition reply_with_503_unavailable ::
    "(nat \<times> sock) option \<Rightarrow> sock \<Rightarrow> (nat \<times> sock) res" where
  "reply_with_503_unavailable file sk =
     (case file of
        None \<Rightarrow> Inl Abort
      | Some (body_size, f) \<Rightarrow>
          let header = reply_503_header body_size;
              count = min (length header) SOCK_IO_BUF_SIZE;
              space = SOCK_IO_BUF_SIZE - count
          in case read_all f space of (body, stat, f') \<Rightarrow>
             bindE (to_global_buffer (take count header @ body)) (\<lambda>g.
               case write_all sk g of (wstat, sk') \<Rightarrow> Inr (nbytes wstat, sk')))"

section \<open>Closing\<close>

fun rx_size :: "rres list \<Rightarrow> nat" where
  "rx_size [] = 0"
| "rx_size (RData bs # r) = Suc (length bs) + rx_size r"
| "rx_size (REof # r) = Suc (rx_size r)"
| "rx_size (RErr e # r) = Suc (rx_size r)"

lemma sys_read_rx_size:
  assumes "sys_read s n = (count, d, s')" "0 < count"
  shows "rx_size (rx s') < rx_size (rx s)"
  using assms by (auto simp: sys_read_def Let_def split: list.splits rres.splits if_splits)

text \<open>The loop that consumes what the peer still sends.\<close>

function consume :: "sock \<Rightarrow> sock" where
  "consume s = (case sys_read s SOCK_IO_BUF_SIZE of (count, d, s') \<Rightarrow> if count > 0 then consume s' else s')"
  by pat_completeness auto
termination
  by (relation "measure (\<lambda>s. rx_size (rx s))") (auto dest: sys_read_rx_size [OF sym])

declare consume.simps [simp del]

definition close_socket_gracefully :: "sock \<Rightarrow> sock" where
  "close_socket_gracefully s =
     (let s1 = consume (s\<lparr>shut_wr := True\<rparr>) in
      case sys_read s1 1 of (count, d, s2) \<Rightarrow>
        if count = 0 then s2\<lparr>closed := True\<rparr> else s2\<lparr>lingering := True\<rparr>)"

definition close_after_timeout :: "sock \<Rightarrow> sock" where
  "close_after_timeout s = s\<lparr>closed := True, lingering := False\<rparr>"

text \<open>Closing sends nothing; it may read, and drops, more of what the peer sent.\<close>

lemma consume_spec: "\<exists>x. received (consume s) = received s @ x \<and> sent (consume s) = sent s \<and> shut_wr (consume s) = shut_wr s"
proof (induction s rule: consume.induct)
  case (1 s)
  obtain count d s' where r: "sys_read s SOCK_IO_BUF_SIZE = (count, d, s')" by (cases "sys_read s SOCK_IO_BUF_SIZE")
  note sp = sys_read_spec(1,2) [OF r]
  have "shut_wr s' = shut_wr s" using r by (auto simp: sys_read_def Let_def split: list.splits rres.splits)
  with 1 [OF r [symmetric] refl] r sp show ?case by (cases "count > 0") (auto simp: consume.simps [of s])
qed

lemma close_socket_gracefully_spec:
  "\<exists>x. received (close_socket_gracefully s) = received s @ x" "sent (close_socket_gracefully s) = sent s"
  "shut_wr (close_socket_gracefully s)"
proof -
  let ?s = "consume (s\<lparr>shut_wr := True\<rparr>)"
  obtain count d s' where r: "sys_read ?s 1 = (count, d, s')" by (cases "sys_read ?s 1")
  have "shut_wr s' = shut_wr ?s" using r by (auto simp: sys_read_def Let_def split: list.splits rres.splits)
  with consume_spec [of "s\<lparr>shut_wr := True\<rparr>"] sys_read_spec(1,2) [OF r] r
  show "\<exists>x. received (close_socket_gracefully s) = received s @ x" "sent (close_socket_gracefully s) = sent s"
    "shut_wr (close_socket_gracefully s)"
    by (auto simp: close_socket_gracefully_def)
qed

section \<open>The cycle of local addresses\<close>

text \<open>
  The \<open>i\<close>-th address of the cycle, counted from 127.0.0.1:4100 with the port running fastest,
  and the states of \<open>next_local_addr\<close> that stand at it.
\<close>

definition port_of :: "nat \<Rightarrow> 16 word" where
  "port_of r = of_nat (4100 + r)"

definition ip_of :: "nat \<Rightarrow> 32 word" where
  "ip_of k = of_nat ((k + 1) * 2 ^ 24 + 127)"

definition cycle_addr :: "nat \<Rightarrow> sockaddr_in" where
  "cycle_addr i = \<lparr>sin_port = htons (port_of (i mod 61001)), sin_addr = ip_of (i div 61001)\<rparr>"

definition at_index :: "nat \<Rightarrow> local_state \<Rightarrow> bool" where
  "at_index i st \<longleftrightarrow> i < total_local_addr \<and> sin_addr (lc_addr st) = ip_of (i div 61001)
     \<and> lc_port st = port_of (i mod 61001)"

lemma total_local_addr_eq: "total_local_addr = 255 * 61001"
  by (simp add: total_local_addr_def)

lemma at_index_init: "at_index 0 local_init"
  by (simp add: at_index_def local_init_def port_of_def ip_of_def total_local_addr_eq)

lemma unat_port_of: "r < 61001 \<Longrightarrow> unat (port_of r) = 4100 + r"
  unfolding port_of_def by (rule unat_of_nat_small) simp

lemma unat_ip_of: "k < 255 \<Longrightarrow> unat (ip_of k) = (k + 1) * 2 ^ 24 + 127"
  unfolding ip_of_def by (rule unat_of_nat_small) simp

lemma port_of_Suc: "port_of r + 1 = port_of (Suc r)"
  by (simp add: port_of_def)

lemma port_of_0: "port_of 0 = 4100"
  by (simp add: port_of_def)

lemma port_of_overflow:
  assumes "r < 61001"
  shows "port_of (Suc r) > 65100 \<longleftrightarrow> r = 61000"
proof -
  have "unat (port_of (Suc r)) = 4100 + Suc r"
    unfolding port_of_def by (rule unat_of_nat_small) (use assms in simp)
  with assms show ?thesis by (auto simp: word_less_nat_alt)
qed

lemma ip_of_last:
  assumes "k < 255"
  shows "ip_of k = 0xff00007f \<longleftrightarrow> k = 254"
  using unat_ip_of [OF assms] unat_ip_of [of 254] by (auto simp: ip_of_def)

lemma ip_of_Suc: "ip_of k + push_bit 24 1 = ip_of (Suc k)"
  by (simp add: ip_of_def push_bit_eq_mult algebra_simps)

lemma ip_of_wrap: "ip_of 254 + push_bit 24 2 = ip_of 0"
  by (simp add: ip_of_def push_bit_eq_mult)

lemma Suc_mod_cycle:
  assumes i: "i < 255 * 61001"
  shows "i mod 61001 \<noteq> 61000 \<Longrightarrow> Suc i < 255 * 61001
      \<and> Suc i div 61001 = i div 61001 \<and> Suc i mod 61001 = Suc (i mod 61001)"
    and "i mod 61001 = 61000 \<Longrightarrow> i div 61001 \<noteq> 254 \<Longrightarrow> Suc i < 255 * 61001
      \<and> Suc i div 61001 = Suc (i div 61001) \<and> Suc i mod 61001 = 0"
    and "i mod 61001 = 61000 \<Longrightarrow> i div 61001 = 254 \<Longrightarrow> Suc i mod (255 * 61001) = 0"
proof -
  have eq: "i = i div 61001 * 61001 + i mod 61001" by simp
  have k: "i div 61001 < 255" using i by (rule less_mult_imp_div_less)
  have last: "Suc i = 255 * 61001 \<Longrightarrow> i mod 61001 = 61000 \<and> i div 61001 = 254"
  proof -
    assume "Suc i = 255 * 61001"
    then have "i = 15555254" by simp
    then show ?thesis by simp
  qed
  have dm: "Suc i mod 61001 = (if i mod 61001 = 61000 then 0 else Suc (i mod 61001))"
    "Suc i div 61001 = (if i mod 61001 = 61000 then Suc (i div 61001) else i div 61001)"
    by (auto simp: mod_Suc div_Suc)
  have lt: "\<not> (i mod 61001 = 61000 \<and> i div 61001 = 254) \<Longrightarrow> Suc i < 255 * 61001"
    using last i Suc_lessI by blast
  show "i mod 61001 \<noteq> 61000 \<Longrightarrow> Suc i < 255 * 61001
      \<and> Suc i div 61001 = i div 61001 \<and> Suc i mod 61001 = Suc (i mod 61001)"
    using lt dm by simp
  show "i mod 61001 = 61000 \<Longrightarrow> i div 61001 \<noteq> 254 \<Longrightarrow> Suc i < 255 * 61001
      \<and> Suc i div 61001 = Suc (i div 61001) \<and> Suc i mod 61001 = 0"
    using lt dm by simp
  assume "i mod 61001 = 61000" "i div 61001 = 254"
  with eq have "Suc i = 255 * 61001" by linarith
  then show "Suc i mod (255 * 61001) = 0" by simp
qed

lemma next_local_addr_at_index:
  assumes "at_index i st"
  shows "\<exists>st'. next_local_addr st = (cycle_addr (Suc i mod total_local_addr), st')
    \<and> at_index (Suc i mod total_local_addr) st'"
proof -
  let ?k = "i div 61001" let ?r = "i mod 61001"
  from assms have i: "i < 255 * 61001" "lc_port st = port_of ?r" "sin_addr (lc_addr st) = ip_of ?k"
    by (auto simp: at_index_def total_local_addr_eq)
  have k: "?k < 255" using i(1) by (rule less_mult_imp_div_less)
  have r: "?r < 61001" by simp
  note w = port_of_Suc port_of_overflow [OF r] ip_of_last [OF k]
  note defs = next_local_addr_def at_index_def total_local_addr_eq cycle_addr_def Let_def
  consider "?r \<noteq> 61000" | "?r = 61000" "?k \<noteq> 254" | "?r = 61000" "?k = 254" by blast
  then show ?thesis
  proof cases
    case 1
    with w i Suc_mod_cycle(1) [OF i(1)] show ?thesis by (simp add: defs)
  next
    case 2
    with w i ip_of_Suc port_of_0 Suc_mod_cycle(2) [OF i(1)] show ?thesis by (simp add: defs)
  next
    case 3
    with w i ip_of_wrap port_of_0 Suc_mod_cycle(3) [OF i(1)] show ?thesis by (simp add: defs)
  qed
qed

lemma bind_loop_correct:
  assumes "at_index i st" "0 < n"
  shows "fst (bind_loop n bnd st) \<longleftrightarrow> (\<exists>j \<in> {1..n}. bnd (cycle_addr ((i + j) mod total_local_addr)))"
  using assms
proof (induction n arbitrary: i st)
  case (Suc n)
  from next_local_addr_at_index [OF Suc.prems(1)] obtain st' where
    st': "next_local_addr st = (cycle_addr (Suc i mod total_local_addr), st')"
      "at_index (Suc i mod total_local_addr) st'" by blast
  have split: "(\<exists>j \<in> {1..Suc n}. P (i + j)) \<longleftrightarrow> P (Suc i) \<or> (\<exists>j \<in> {1..n}. P (Suc i + j))" for P
  proof
    assume "\<exists>j \<in> {1..Suc n}. P (i + j)"
    then obtain j where j: "1 \<le> j" "j \<le> Suc n" "P (i + j)" by auto
    show "P (Suc i) \<or> (\<exists>j \<in> {1..n}. P (Suc i + j))"
    proof (cases "j = 1")
      case False
      with j show ?thesis by (intro disjI2 bexI [of _ "j - 1"]) auto
    qed (use j in simp)
  next
    assume "P (Suc i) \<or> (\<exists>j \<in> {1..n}. P (Suc i + j))"
    then show "\<exists>j \<in> {1..Suc n}. P (i + j)"
      by (auto intro: bexI [of _ 1] bexI [of _ "Suc j" for j])
  qed
  show ?case
  proof (cases "n = 0")
    case True
    with st' show ?thesis by simp
  next
    case False
    with Suc.IH [OF st'(2)] have "fst (bind_loop n bnd st') \<longleftrightarrow>
        (\<exists>j \<in> {1..n}. bnd (cycle_addr ((Suc i + j) mod total_local_addr)))"
      by (simp add: mod_simps)
    with False st' show ?thesis by (subst split) simp
  qed
qed simp

text \<open>One round of the cycle meets every address.\<close>

lemma bind_loop_total:
  assumes "at_index i st"
  shows "fst (bind_loop total_local_addr bnd st) \<longleftrightarrow> (\<exists>j < total_local_addr. bnd (cycle_addr j))"
proof -
  have i: "i < total_local_addr" using assms by (simp add: at_index_def)
  have reach: "\<exists>j \<in> {1..total_local_addr}. (i + j) mod total_local_addr = m" if "m < total_local_addr" for m
  proof (cases "i < m")
    case True
    with that show ?thesis by (intro bexI [of _ "m - i"]) auto
  next
    case False
    with that i show ?thesis by (intro bexI [of _ "m + total_local_addr - i"]) auto
  qed
  have lt: "(i + j) mod total_local_addr < total_local_addr" for j using i by simp
  have "0 < total_local_addr" using i by simp
  note loop = bind_loop_correct [OF assms this, of bnd]
  show ?thesis unfolding loop
  proof
    assume "\<exists>j < total_local_addr. bnd (cycle_addr j)"
    with reach show "\<exists>j \<in> {1..total_local_addr}. bnd (cycle_addr ((i + j) mod total_local_addr))" by metis
  qed (use lt in blast)
qed

lemma bind_loop_at_index: "at_index i st \<Longrightarrow> \<exists>j. at_index j (snd (bind_loop n bnd st))"
proof (induction n arbitrary: i st)
  case (Suc n)
  from next_local_addr_at_index [OF Suc.prems] obtain st' where
    "next_local_addr st = (cycle_addr (Suc i mod total_local_addr), st')"
    "at_index (Suc i mod total_local_addr) st'" by blast
  with Suc.IH show ?case by auto
qed auto

section \<open>Connecting\<close>

lemma connect_TCP_spec:
  assumes "at_index i (locals ns)" "socket_ok env"
  obtains j ns' where
    "connect_TCP env ns = Inr ((\<exists>j < total_local_addr. bind_ok env (cycle_addr j)) \<and> connect_ok env, ns')"
    "open_socks ns' = open_socks ns + 1" "at_index j (locals ns')"
proof -
  obtain bnd st where b: "bind_loop total_local_addr (bind_ok env) (locals ns) = (bnd, st)"
    by (cases "bind_loop total_local_addr (bind_ok env) (locals ns)")
  from bind_loop_at_index [OF assms(1), of total_local_addr "bind_ok env"] b obtain j where "at_index j st" by auto
  with bind_loop_total [OF assms(1), of "bind_ok env"] b assms(2) show thesis
    by (intro that [of "ns\<lparr>open_socks := open_socks ns + 1, locals := st\<rparr>" j])
      (auto simp: connect_TCP_def Let_def)
qed

text \<open>
  C36: \<open>connect_TCP\<close> finds a free local address whenever one of the 255 * 61001 addresses
  127.0.0.1-255, ports 4100-65100, can be bound, wherever the rotation stands, and then succeeds
  exactly if the server accepts.  It opens one socket in every case: where it returns -1 the
  socket is not closed again.
\<close>

theorem connect_TCP_succeeds_iff:
  assumes "at_index i (locals ns)" "socket_ok env"
  shows "\<exists>ns'. connect_TCP env ns
      = Inr ((\<exists>j < total_local_addr. bind_ok env (cycle_addr j)) \<and> connect_ok env, ns')
    \<and> open_socks ns' = open_socks ns + 1"
  by (rule connect_TCP_spec [OF assms]) blast

theorem connect_TCP_succeeds_iff_witness:
  "\<exists>ns'. connect_TCP \<lparr>socket_ok = True, bind_ok = (\<lambda>a. a = cycle_addr 15000000), connect_ok = True\<rparr>
       \<lparr>locals = local_init, open_socks = 1\<rparr> = Inr (True, ns') \<and> open_socks ns' = 2"
proof -
  have "\<exists>j < 15555255. cycle_addr j = cycle_addr 15000000" by (rule exI [of _ 15000000]) simp
  with connect_TCP_succeeds_iff [of 0 "\<lparr>locals = local_init, open_socks = 1\<rparr>"
      "\<lparr>socket_ok = True, bind_ok = (\<lambda>a. a = cycle_addr 15000000), connect_ok = True\<rparr>"]
  show ?thesis by (auto simp: at_index_init total_local_addr_eq numeral_2_eq_2)
qed

section \<open>The rotation\<close>

text \<open>The next \<open>n\<close> addresses of the rotation.\<close>

fun local_addrs :: "nat \<Rightarrow> local_state \<Rightarrow> sockaddr_in list" where
  "local_addrs 0 st = []"
| "local_addrs (Suc n) st = (case next_local_addr st of (a, st') \<Rightarrow> a # local_addrs n st')"

lemma local_addrs_cycle:
  assumes "at_index i st"
  shows "local_addrs n st = map (\<lambda>j. cycle_addr ((i + j) mod total_local_addr)) [1..<Suc n]"
  using assms
proof (induction n arbitrary: i st)
  case (Suc n)
  from next_local_addr_at_index [OF Suc.prems] obtain st' where st':
    "next_local_addr st = (cycle_addr (Suc i mod total_local_addr), st')" "at_index (Suc i mod total_local_addr) st'" by blast
  have "[1..<Suc (Suc n)] = 1 # map Suc [1..<Suc n]" by (simp only: map_Suc_upt upt_conv_Cons)
  with st' Suc.IH [OF st'(2)] show ?case by (simp add: mod_simps comp_def del: upt_Suc)
qed simp

lemma htons_htons [simp]: "htons (htons x) = x"
  by (rule bit_word_eqI) (auto simp: htons_def bit_simps)

lemma cycle_addr_inj:
  assumes "i < total_local_addr" "j < total_local_addr" "cycle_addr i = cycle_addr j"
  shows "i = j"
proof -
  have k: "i div 61001 < 255" "j div 61001 < 255"
    using assms(1,2) by (auto simp: total_local_addr_eq intro: less_mult_imp_div_less)
  from assms(3) have "htons (htons (port_of (i mod 61001))) = htons (htons (port_of (j mod 61001)))"
    and ip: "ip_of (i div 61001) = ip_of (j div 61001)" by (simp_all add: cycle_addr_def)
  then have "port_of (i mod 61001) = port_of (j mod 61001)" by (simp only: htons_htons)
  then have "unat (port_of (i mod 61001)) = unat (port_of (j mod 61001))" by (rule arg_cong)
  moreover have "unat (port_of (i mod 61001)) = 4100 + i mod 61001" "unat (port_of (j mod 61001)) = 4100 + j mod 61001"
    by (rule unat_port_of, simp)+
  ultimately have "i mod 61001 = j mod 61001" by linarith
  moreover have "i div 61001 = j div 61001"
    using arg_cong [OF ip, of unat] unfolding unat_ip_of [OF k(1)] unat_ip_of [OF k(2)] by simp
  ultimately show ?thesis using div_mult_mod_eq [of i 61001] div_mult_mod_eq [of j 61001] by linarith
qed

text \<open>The cycle is the whole range of addresses and ports.\<close>

lemma port_range: "4100 \<le> unat p \<Longrightarrow> unat p \<le> 65100 \<Longrightarrow> \<exists>r < 61001. p = port_of r" for p :: "16 word"
  by (rule exI [of _ "unat p - 4100"]) (simp add: port_of_def)

lemma ip_range: "1 \<le> k \<Longrightarrow> k \<le> 255 \<Longrightarrow> unat ip = k * 2 ^ 24 + 127 \<Longrightarrow> \<exists>m < 255. ip = ip_of m" for ip :: "32 word"
proof (rule exI [of _ "k - 1"])
  assume k: "1 \<le> k" "k \<le> 255" "unat ip = k * 2 ^ 24 + 127"
  then have "unat ip = unat (ip_of (k - 1))" using unat_ip_of [of "k - 1"] by simp
  then have "ip = ip_of (k - 1)" by (simp only: word_unat_eq_iff)
  with k show "k - 1 < 255 \<and> ip = ip_of (k - 1)" by linarith
qed

lemma cycle_addr_image:
  "cycle_addr ` {..<total_local_addr}
    = {\<lparr>sin_port = htons p, sin_addr = ip\<rparr> | p ip. 4100 \<le> unat p \<and> unat p \<le> 65100
         \<and> (\<exists>k. 1 \<le> k \<and> k \<le> 255 \<and> unat ip = k * 2 ^ 24 + 127)}" (is "_ = ?R")
proof (intro equalityI subsetI)
  fix a assume "a \<in> cycle_addr ` {..<total_local_addr}"
  then obtain i where i: "i < 255 * 61001" "a = cycle_addr i" by (auto simp: total_local_addr_eq)
  have k: "i div 61001 < 255" using i(1) by (rule less_mult_imp_div_less)
  have r: "i mod 61001 < 61001" by simp
  have "4100 \<le> unat (port_of (i mod 61001))" "unat (port_of (i mod 61001)) \<le> 65100"
    using unat_port_of [OF r] r by linarith+
  moreover have "\<exists>m. 1 \<le> m \<and> m \<le> 255 \<and> unat (ip_of (i div 61001)) = m * 2 ^ 24 + 127"
    using unat_ip_of [OF k] k by (intro exI [of _ "i div 61001 + 1"]) linarith
  ultimately show "a \<in> ?R" unfolding i(2) cycle_addr_def by blast
next
  fix a assume "a \<in> ?R"
  then obtain r m where a: "r < 61001" "m < 255" "a = \<lparr>sin_port = htons (port_of r), sin_addr = ip_of m\<rparr>"
    using port_range ip_range by blast
  then have "cycle_addr (m * 61001 + r) = a" "m * 61001 + r < total_local_addr"
    by (simp_all add: cycle_addr_def total_local_addr_eq)
  then show "a \<in> cycle_addr ` {..<total_local_addr}" by blast
qed

lemma rotation_inj: "inj_on (\<lambda>j. (i + j) mod n) {1..<Suc n}" for i n :: nat
proof (rule linorder_inj_onI)
  fix x y assume xy: "x < y" "x \<in> {1..<Suc n}" "y \<in> {1..<Suc n}"
  then have "\<not> n dvd (i + y) - (i + x)" using nat_dvd_not_less [of "y - x" n] by simp
  with xy(1) have "(i + y) mod n \<noteq> (i + x) mod n" by (subst mod_eq_dvd_iff_nat) simp_all
  then show "(i + x) mod n \<noteq> (i + y) mod n" by simp
qed (simp add: linear)

text \<open>
  C37: wherever the rotation stands, the next 255 * 61001 local addresses are pairwise different
  and are all the addresses 127.0.0.k, k from 1 to 255, with a port from 4100 to 65100 (in
  network byte order); so an address is reused only after all the others.
\<close>

theorem next_local_addr_full_cycle:
  assumes "at_index i st"
  shows "distinct (local_addrs total_local_addr st)
    \<and> set (local_addrs total_local_addr st)
      = {\<lparr>sin_port = htons p, sin_addr = ip\<rparr> | p ip. 4100 \<le> unat p \<and> unat p \<le> 65100
           \<and> (\<exists>k. 1 \<le> k \<and> k \<le> 255 \<and> unat ip = k * 2 ^ 24 + 127)}"
proof -
  have pos: "0 < total_local_addr" by (simp add: total_local_addr_eq)
  note la = local_addrs_cycle [OF assms, of total_local_addr]
  have inj: "inj_on cycle_addr ((\<lambda>j. (i + j) mod total_local_addr) ` {1..<Suc total_local_addr})"
    using pos by (intro inj_onI cycle_addr_inj) auto
  have "inj_on (\<lambda>j. cycle_addr ((i + j) mod total_local_addr)) {1..<Suc total_local_addr}"
    using comp_inj_on [OF rotation_inj inj] by (simp add: comp_def)
  then have d: "distinct (local_addrs total_local_addr st)" unfolding la by (simp add: distinct_map del: upt_Suc)
  have img: "(\<lambda>j. (i + j) mod total_local_addr) ` {1..<Suc total_local_addr} = {..<total_local_addr}"
  proof (rule card_subset_eq)
    show "card ((\<lambda>j. (i + j) mod total_local_addr) ` {1..<Suc total_local_addr}) = card {..<total_local_addr}"
      by (subst card_image [OF rotation_inj]) simp
  qed (use pos in auto)
  have "set (local_addrs total_local_addr st) = cycle_addr ` {..<total_local_addr}"
    unfolding la img [symmetric] by (simp add: image_image del: upt_Suc)
  with d cycle_addr_image show ?thesis by simp
qed

theorem next_local_addr_full_cycle_witness: "distinct (local_addrs total_local_addr local_init)"
  using next_local_addr_full_cycle [OF at_index_init] by blast

section \<open>The 503 reply, whole\<close>

text \<open>Reading a file to its end.\<close>

lemma read_all_file:
  assumes "rx f = [RData body, REof]" "body \<noteq> []"
  shows "\<exists>stat f'. read_all f n = (take n body, stat, f')"
proof -
  obtain d stat f' where r: "read_all f n = (d, stat, f')" by (cases "read_all f n")
  have "d = take n body"
  proof (cases "n > 0")
    case True
    obtain acc remain st s1 where l: "read_all_loop f n [] io_stat_init = (acc, remain, st, s1)"
      by (cases "read_all_loop f n [] io_stat_init")
    have "acc = take n body"
    proof (cases "n < length body")
      case True
      with l assms \<open>n > 0\<close> show ?thesis
        by (auto simp: read_all_loop.simps [of f] read_all_loop.simps [of _ 0] sys_read_def Let_def min_absorb2)
    next
      case False
      with l assms \<open>n > 0\<close> show ?thesis
        by (auto simp: read_all_loop.simps [of f] read_all_loop.simps [of "f\<lparr>rx := r, received := x\<rparr>" for r x]
            sys_read_def Let_def min_absorb1 split: if_splits)
    qed
    with l r show ?thesis by (simp add: read_all_def)
  qed (use r read_all_spec(2,3) [OF r] in simp)
  with r show ?thesis by simp
qed

text \<open>Decimal numbers read back.\<close>

definition of_decimal :: "string \<Rightarrow> nat" where
  "of_decimal s = foldl (\<lambda>a c. 10 * a + (of_char c - 48)) 0 s"

lemma of_decimal_to_string: "of_decimal (to_string n) = n"
proof (induction n rule: to_string.induct)
  case (1 n)
  show ?case
  proof (cases "n < 10")
    case True
    then show ?thesis by (simp add: to_string.simps [of n] of_decimal_def)
  next
    case False
    with 1 show ?thesis by (simp add: to_string.simps [of n] of_decimal_def)
  qed
qed

lemma to_string_digits: "c \<in> set (to_string n) \<Longrightarrow> 48 \<le> (of_char c :: nat) \<and> (of_char c :: nat) < 58"
proof (induction n rule: to_string.induct)
  case (1 n)
  show ?case
  proof (cases "n < 10")
    case True
    with 1(2) show ?thesis by (simp add: to_string.simps [of n])
  next
    case False
    with 1 show ?thesis by (auto simp: to_string.simps [of n])
  qed
qed

text \<open>The length a client reads in the 503 header: the digits after the fixed 86 characters.\<close>

definition announced_length :: "string \<Rightarrow> nat" where
  "announced_length h = of_decimal (takeWhile (\<lambda>c. c \<noteq> CHR 0x0D) (drop 86 h))"

lemma announced_length_503: "announced_length (reply_503_header n @ x) = n"
proof -
  have "CHR 0x0D \<notin> set (to_string n)" using to_string_digits [of "CHR 0x0D" n] by auto
  then have "takeWhile (\<lambda>c. c \<noteq> CHR 0x0D) (to_string n @ CHR 0x0D # y) = to_string n" for y
    by (subst takeWhile_append2) auto
  then show ?thesis by (simp add: announced_length_def reply_503_header_def CRLF_def of_decimal_to_string)
qed



section \<open>The graceful close\<close>

text \<open>The loop takes chunk after chunk, in pieces of the size of the buffer.\<close>

lemma sock_update_swap: "s\<lparr>received := x, rx := y\<rparr> = s\<lparr>rx := y, received := x\<rparr>" for s :: sock
  by (cases s) simp

lemma consume_chunk: "b \<noteq> [] \<Longrightarrow> consume (s\<lparr>rx := RData b # r\<rparr>) = consume (s\<lparr>rx := r, received := received s @ b\<rparr>)"
proof (induction "length b" arbitrary: b s rule: less_induct)
  case less
  let ?n = SOCK_IO_BUF_SIZE
  have "consume (s\<lparr>rx := RData b # r\<rparr>) =
      consume (s\<lparr>rx := if drop ?n b = [] then r else RData (drop ?n b) # r, received := received s @ take ?n b\<rparr>)"
    using less.prems by (subst consume.simps) (simp add: sys_read_def Let_def)
  also have "\<dots> = consume (s\<lparr>rx := r, received := received s @ b\<rparr>)"
  proof (cases "drop ?n b = []")
    case False
    with less.hyps [of "drop ?n b" "s\<lparr>received := received s @ take ?n b\<rparr>"] less.prems show ?thesis
      by (simp add: sock_update_swap)
  qed simp
  finally show ?case .
qed

lemma consume_chunks:
  "[] \<notin> set ds \<Longrightarrow> consume (s\<lparr>rx := map RData ds @ r\<rparr>) = consume (s\<lparr>rx := r, received := received s @ concat ds\<rparr>)"
proof (induction ds arbitrary: s)
  case (Cons d ds)
  then have "d \<noteq> []" by auto
  then have "consume (s\<lparr>rx := map RData (d # ds) @ r\<rparr>) = consume ((s\<lparr>received := received s @ d\<rparr>)\<lparr>rx := map RData ds @ r\<rparr>)"
    by (simp add: consume_chunk sock_update_swap)
  also have "\<dots> = consume (s\<lparr>rx := r, received := received s @ concat (d # ds)\<rparr>)"
    using Cons.IH [of "s\<lparr>received := received s @ d\<rparr>"] Cons.prems by (simp add: sock_update_swap)
  finally show ?case .
qed simp

text \<open>
  The graceful close shuts down writing, reads and drops everything the peer has sent so far,
  and then closes the socket at once exactly if the peer has ended its side; otherwise the
  socket lingers until the timer of \<open>close_after_timeout\<close> closes it.
\<close>

theorem close_socket_gracefully_outcome:
  assumes "[] \<notin> set ds" "\<not> closed s" "\<not> lingering s" "rx s = map RData ds @ (if fin then [REof] else [])"
  shows "received (close_socket_gracefully s) = received s @ concat ds \<and> sent (close_socket_gracefully s) = sent s
    \<and> shut_wr (close_socket_gracefully s) \<and> closed (close_socket_gracefully s) = fin
    \<and> lingering (close_socket_gracefully s) = (\<not> fin) \<and> closed (close_after_timeout (close_socket_gracefully s))"
proof -
  let ?r = "if fin then [REof] else []"
  have s: "s\<lparr>shut_wr := True\<rparr> = s\<lparr>shut_wr := True, rx := map RData ds @ ?r\<rparr>" using assms(4) by simp
  have "consume (s\<lparr>shut_wr := True\<rparr>) = consume (s\<lparr>shut_wr := True, rx := ?r, received := received s @ concat ds\<rparr>)"
    by (subst s) (simp add: consume_chunks [OF assms(1)])
  with assms(2,3) show ?thesis
    by (simp add: close_socket_gracefully_def close_after_timeout_def consume.simps sys_read_def)
qed

theorem close_socket_gracefully_outcome_witness:
  "closed (close_socket_gracefully (idle_sock\<lparr>rx := [RData ''late'', REof]\<rparr>))
   \<and> lingering (close_socket_gracefully (idle_sock\<lparr>rx := [RData ''late'']\<rparr>))"
  using close_socket_gracefully_outcome [of "[''late'']" "idle_sock\<lparr>rx := [RData ''late'', REof]\<rparr>" True]
    close_socket_gracefully_outcome [of "[''late'']" "idle_sock\<lparr>rx := [RData ''late'']\<rparr>" False]
  by (simp add: idle_sock_def)

end
