(* ===== verification/Conn.thy ===== *)
theory Conn
  imports Circular Stores Parser Net
begin

text \<open>
  The \<open>Connection\<close>, \<open>Client\<close> and \<open>Server\<close> classes of \<open>src/connection.*\<close>, \<open>src/client.*\<close> and
  \<open>src/server.*\<close>: their data, construction and destruction, the switch to slow mode and the
  two directions of fast-mode forwarding.  A libevent event is whether it is pending; a
  pointer that may be null is an option; \<open>delete\<close> of the connection ends an operation with
  \<open>Deleted\<close>.
\<close>

section \<open>Data\<close>

record client =
  c_sock :: sock
  c_read_evt :: bool
  c_write_evt :: bool
  c_queued_output :: "circularbuf option"
  request_buf :: "filebuf option"
  request_tmp_buf :: "filebuf option"
  response_buf :: "fifofilebuf option"
  read_count :: "64 word"
  write_count :: "64 word"
  request_history :: "hybridbuf option"

text \<open>\<open>s_read_timeout\<close>: the pending read event was added with a timeout.\<close>

record server =
  s_sock :: sock
  s_read_evt :: bool
  s_read_timeout :: bool
  s_write_evt :: bool
  s_queued_output :: "circularbuf option"

text \<open>
  \<open>past_servers\<close> is a ghost field: the sockets of the server connections that were closed, the
  latest first.
\<close>

record 'p connection =
  client :: client
  server :: "server option"
  parser :: "'p http_parser option"
  fast_mode :: bool
  in_transition :: bool
  past_servers :: "sock list"

text \<open>The global variables and class variables.\<close>

record world =
  hybridbuf_pool :: "hybridbuf list"
  connection_count :: nat
  active_count :: "32 word"
  netst :: net_state

text \<open>
  What the system answers during one event: to the connection attempt (with the socket it
  yields), to making a socket non-blocking, to opening \<open>utils/503.html\<close>, and to the creation
  of temporary files (numbered in the order of their creation).
\<close>

record env =
  e_net :: net_env
  e_server_sock :: sock
  e_nonblocking :: bool
  e_503 :: "(nat \<times> sock) option"
  e_disk :: "nat \<Rightarrow> disk option"
  e_reopen :: bool

datatype 'p outcome = Live "'p connection" | Deleted "'p connection"

section \<open>Client: construction, history, modes\<close>

definition Client_new :: "env \<Rightarrow> world \<Rightarrow> sock \<Rightarrow> (world \<times> client) res" where
  "Client_new env w sk =
     bindE
       (case hybridbuf_pool w of
          h # hs \<Rightarrow>
            bindE (Filebuf_clear Hybridbuf_vt h) (\<lambda>h'. Inr (w\<lparr>hybridbuf_pool := hs\<rparr>, h'))
        | [] \<Rightarrow> bindE (Hybridbuf_new (e_disk env 0)) (\<lambda>h'. Inr (w, h')))
       (\<lambda>(w', h').
          Inr (w', \<lparr>c_sock = sk, c_read_evt = False, c_write_evt = False, c_queued_output = None,
                    request_buf = None, request_tmp_buf = None, response_buf = None,
                    read_count = of_nat COUNTER_INIT, write_count = of_nat COUNTER_INIT,
                    request_history = Some h'\<rparr>))"

definition Client_release_request_history :: "world \<Rightarrow> client \<Rightarrow> (world \<times> client) res" where
  "Client_release_request_history w cl =
     (case request_history cl of
        Some h \<Rightarrow>
          if length (hybridbuf_pool w) < MAX_HYBRID_POOL then
            bindE (Filebuf_clear Hybridbuf_vt h) (\<lambda>h'.
              Inr (w\<lparr>hybridbuf_pool := hybridbuf_pool w @ [h']\<rparr>, cl\<lparr>request_history := None\<rparr>))
          else Inr (w, cl\<lparr>request_history := None\<rparr>)
      | None \<Rightarrow> Inr (w, cl))"

definition Client_stop_reading :: "client \<Rightarrow> client" where
  "Client_stop_reading cl = cl\<lparr>c_read_evt := False\<rparr>"

definition Client_stop_writing :: "client \<Rightarrow> client" where
  "Client_stop_writing cl = cl\<lparr>c_write_evt := False\<rparr>"

definition Client_start_reading :: "client \<Rightarrow> client" where
  "Client_start_reading cl = cl\<lparr>c_read_evt := True\<rparr>"

definition Client_start_writing :: "client \<Rightarrow> client" where
  "Client_start_writing cl = cl\<lparr>c_write_evt := True\<rparr>"

definition Client_pause_r :: "client \<Rightarrow> client" where
  "Client_pause_r cl = Client_stop_reading cl"

definition Client_resume_r :: "client \<Rightarrow> client" where
  "Client_resume_r cl = Client_start_reading cl"

definition Client_set_reply_only_mode :: "client \<Rightarrow> client" where
  "Client_set_reply_only_mode cl = Client_start_writing (Client_stop_reading cl)"

definition Client_free_queued_output :: "client \<Rightarrow> client" where
  "Client_free_queued_output cl = cl\<lparr>c_queued_output := None\<rparr>"

text \<open>\<open>copy_history_to\<close>, into \<open>request_buf\<close>, the only buffer it is called with.\<close>

definition Client_copy_history_to_request_buf :: "client \<Rightarrow> client res" where
  "Client_copy_history_to_request_buf cl =
     bindE (derefE (request_history cl)) (\<lambda>h.
     bindE (derefE (request_buf cl)) (\<lambda>fb.
     bindE (Filebuf_copy_data Hybridbuf_vt Filebuf_vt h fb) (\<lambda>(h', fb').
       Inr (cl\<lparr>request_history := Some h', request_buf := Some fb'\<rparr>))))"

text \<open>
  \<open>keep_track_request_history\<close>: the boolean is False where \<open>do_parse\<close> throws; the history is
  then left as it was.  A message end outside the data would make the store read out of bounds.
\<close>

definition Client_keep_track_request_history ::
    "'p llhttp \<Rightarrow> 'p connection \<Rightarrow> char list \<Rightarrow> ('p connection \<times> bool) res" where
  "Client_keep_track_request_history ll c data =
     bindE (derefE (parser c)) (\<lambda>p.
     case HttpParser_do_parse ll p data of (p', ok) \<Rightarrow>
       let c1 = c\<lparr>parser := Some p'\<rparr> in
       if \<not> ok then Inr (c1, False)
       else
         bindE (derefE (request_history (client c1))) (\<lambda>h.
         bindE
           (case eom_last p' of
              Some eom \<Rightarrow>
                bindE (Filebuf_clear Hybridbuf_vt h) (\<lambda>h1.
                bindE (mem_read data eom (length data - eom)) (\<lambda>tail. Hybridbuf_store h1 tail))
            | None \<Rightarrow> Hybridbuf_store h data)
           (\<lambda>h'. Inr (c1\<lparr>client := (client c1)\<lparr>request_history := Some h'\<rparr>\<rparr>, True))))"

section \<open>Server: construction\<close>

text \<open>\<open>new Server(conn)\<close>: \<open>None\<close> where the constructor throws \<open>ConnectionError\<close>.\<close>

definition Server_new :: "env \<Rightarrow> world \<Rightarrow> (world \<times> server option) res" where
  "Server_new env w =
     bindE (connect_TCP (e_net env) (netst w)) (\<lambda>(connected, ns).
       let w1 = w\<lparr>netst := ns\<rparr> in
       if \<not> connected then Inr (w1, None)
       else if \<not> e_nonblocking env then Inl Abort
       else Inr (w1\<lparr>active_count := active_count w1 + 1\<rparr>,
                 Some \<lparr>s_sock = e_server_sock env, s_read_evt = False, s_read_timeout = False,
                       s_write_evt = False, s_queued_output = None\<rparr>))"

text \<open>\<open>test_server_alive\<close>, which \<open>main\<close> calls before it starts.\<close>

definition Server_test_server_alive :: "net_env \<Rightarrow> net_state \<Rightarrow> (bool \<times> net_state) res" where
  "Server_test_server_alive env ns =
     bindE (connect_TCP env ns) (\<lambda>(connected, ns').
       if connected then Inr (True, ns'\<lparr>open_socks := open_socks ns' - 1\<rparr>) else Inr (False, ns'))"

section \<open>Connection: destruction\<close>

definition Connection_new :: "world \<Rightarrow> client \<Rightarrow> world \<times> 'p connection" where
  "Connection_new w cl =
     (w\<lparr>connection_count := connection_count w + 1\<rparr>,
      \<lparr>client = cl, server = None, parser = None, fast_mode = True, in_transition = False,
       past_servers = []\<rparr>)"

text \<open>\<open>free_server\<close> runs \<open>~Server\<close>: the counter, the events, the socket.\<close>

definition Connection_free_server :: "world \<Rightarrow> 'p connection \<Rightarrow> world \<times> 'p connection" where
  "Connection_free_server w c =
     (case server c of
        None \<Rightarrow> (w, c)
      | Some sv \<Rightarrow>
          (w\<lparr>active_count := active_count w - 1\<rparr>,
           c\<lparr>server := None, past_servers := close_socket_gracefully (s_sock sv) # past_servers c\<rparr>))"

definition Connection_free_parser :: "'p connection \<Rightarrow> 'p connection" where
  "Connection_free_parser c = c\<lparr>parser := None\<rparr>"

text \<open>\<open>free_client\<close> runs \<open>~Client\<close>: the events, the socket, the queue, the history.\<close>

definition Connection_free_client :: "world \<Rightarrow> 'p connection \<Rightarrow> (world \<times> 'p connection) res" where
  "Connection_free_client w c =
     (let cl = (client c)\<lparr>c_read_evt := False, c_write_evt := False,
                 c_sock := close_socket_gracefully (c_sock (client c)), c_queued_output := None,
                 request_buf := None, request_tmp_buf := None, response_buf := None\<rparr> in
      bindE (Client_release_request_history w cl) (\<lambda>(w', cl'). Inr (w', c\<lparr>client := cl'\<rparr>)))"

definition Connection_delete :: "world \<Rightarrow> 'p connection \<Rightarrow> (world \<times> 'p outcome) res" where
  "Connection_delete w c =
     (case Connection_free_server w c of (w1, c1) \<Rightarrow>
      bindE (Connection_free_client w1 c1) (\<lambda>(w2, c2).
        Inr (w2\<lparr>connection_count := connection_count w2 - 1\<rparr>, Deleted (Connection_free_parser c2))))"

section \<open>Connection: the switch to slow mode\<close>

definition Connection_set_transition_done :: "'p connection \<Rightarrow> 'p connection" where
  "Connection_set_transition_done c = c\<lparr>in_transition := False\<rparr>"

text \<open>\<open>while (queued_output->data_size() > 0) queued_output->dump_to(response_buf)\<close>, with fuel.\<close>

fun dump_loop :: "nat \<Rightarrow> circularbuf \<Rightarrow> fifofilebuf \<Rightarrow> (circularbuf \<times> fifofilebuf) res" where
  "dump_loop 0 cb fb = (if Circularbuf_data_size cb > 0 then Inl Diverged else Inr (cb, fb))"
| "dump_loop (Suc fuel) cb fb =
     (if Circularbuf_data_size cb > 0 then
        bindE (Circularbuf_dump_to FIFOfilebuf_vt cb fb) (\<lambda>(cb', fb'). dump_loop fuel cb' fb')
      else Inr (cb, fb))"

definition Connection_set_slow_mode ::
    "'p llhttp \<Rightarrow> env \<Rightarrow> world \<Rightarrow> 'p connection \<Rightarrow> (world \<times> 'p connection) res" where
  "Connection_set_slow_mode ll env w c =
     (if \<not> fast_mode c \<or> in_transition c then Inr (w, c)
      else
        bindE (Filebuf_new (e_disk env 0)) (\<lambda>rb.
        bindE (Filebuf_new (e_disk env 1)) (\<lambda>tb.
        bindE (FIFOfilebuf_new (e_disk env 2) (e_reopen env)) (\<lambda>pb.
        let cl = (client c)\<lparr>request_buf := Some rb, request_tmp_buf := Some tb, response_buf := Some pb\<rparr>;
            c1 = c\<lparr>fast_mode := False, in_transition := True, client := cl\<rparr>
        in case parser c1 of
          None \<Rightarrow>
            bindE (Client_release_request_history w (Client_pause_r cl)) (\<lambda>(w1, cl1).
              Inr (w1, Connection_set_transition_done
                     (c1\<lparr>parser := Some (HttpParser_new ll), client := Client_resume_r cl1\<rparr>)))
        | Some p \<Rightarrow>
            let cl1 = Client_pause_r cl in
            bindE (derefE (server c1)) (\<lambda>sv.
            bindE (derefE (s_queued_output sv)) (\<lambda>sq.
            let sv1 = sv\<lparr>s_read_evt := True, s_read_timeout := True\<rparr>;
                sv2 = (if Circularbuf_data_size sq > 0 then sv1\<lparr>s_write_evt := True\<rparr>
                       else sv1\<lparr>s_queued_output := None\<rparr>)
            in
            bindE (Client_copy_history_to_request_buf cl1) (\<lambda>cl2.
            bindE (Client_release_request_history w cl2) (\<lambda>(w1, cl3).
            bindE (derefE (c_queued_output cl3)) (\<lambda>cq.
            bindE (derefE (response_buf cl3)) (\<lambda>pb1.
            bindE (dump_loop (Circularbuf_data_size cq) cq pb1) (\<lambda>(cq', pb').
              Inr (w1, c1\<lparr>server := Some sv2,
                          client := Client_free_queued_output
                            (cl3\<lparr>c_queued_output := Some cq', response_buf := Some pb'\<rparr>)\<rparr>))))))))))))"

section \<open>Connection: fast-mode forwarding\<close>

text \<open>
  The common end of a connection that can still deliver queued output: reply-only mode, or
  deletion when there is nothing to deliver.
\<close>

definition Connection_close_or_reply :: "world \<Rightarrow> 'p connection \<Rightarrow> (world \<times> 'p outcome) res" where
  "Connection_close_or_reply w c =
     (case Connection_free_server w c of (w1, c1) \<Rightarrow>
      let c2 = Connection_free_parser c1 in
      bindE (derefE (c_queued_output (client c2))) (\<lambda>cq.
        if Circularbuf_data_size cq > 0 then
          Inr (w1, Live (c2\<lparr>client := Client_set_reply_only_mode (client c2)\<rparr>))
        else Connection_delete w1 c2))"

text \<open>Client to server.\<close>

definition Connection_fast_forward_cs ::
    "'p llhttp \<Rightarrow> world \<Rightarrow> 'p connection \<Rightarrow> (world \<times> 'p outcome) res" where
  "Connection_fast_forward_cs ll w c =
     bindE (derefE (server c)) (\<lambda>sv.
     bindE (derefE (s_queued_output sv)) (\<lambda>sq.
     case read_all (c_sock (client c)) (Circularbuf_remaining_space sq) of (d, stat_c, sk) \<Rightarrow>
     bindE (to_global_buffer d) (\<lambda>g.
     let c1 = c\<lparr>client := (client c)\<lparr>c_sock := sk,
                   read_count := read_count (client c) + of_nat (nbytes stat_c)\<rparr>\<rparr> in
     bindE (Client_keep_track_request_history ll c1 g) (\<lambda>(c2, parsed).
     if \<not> parsed then Connection_close_or_reply w c2
     else
       bindE (Circularbuf_copy_from sq g) (\<lambda>(_, sq1).
       bindE (Circularbuf_write_all_to sq1 (s_sock sv)) (\<lambda>(stat_s, sq2, ssk).
       let sv1 = sv\<lparr>s_sock := ssk, s_queued_output := Some sq2\<rparr>;
           c3 = c2\<lparr>server := Some sv1\<rparr>
       in
       if has_eof stat_c then Connection_delete w c3
       else if nbytes stat_s = 0 then
         Inr (w, Live (c3\<lparr>client := (client c3)\<lparr>c_read_evt := False\<rparr>,
                          server := Some (sv1\<lparr>s_write_evt := True\<rparr>)\<rparr>))
       else Inr (w, Live c3)))))))"

text \<open>Server to client.\<close>

definition Connection_fast_forward_sc :: "world \<Rightarrow> 'p connection \<Rightarrow> (world \<times> 'p outcome) res" where
  "Connection_fast_forward_sc w c =
     bindE (derefE (server c)) (\<lambda>sv.
     bindE (derefE (c_queued_output (client c))) (\<lambda>cq.
     bindE (Circularbuf_read_all_from cq (s_sock sv)) (\<lambda>(stat_s, cq1, ssk).
     bindE (Circularbuf_write_all_to cq1 (c_sock (client c))) (\<lambda>(stat_c, cq2, sk).
     let cl1 = (client c)\<lparr>c_queued_output := Some cq2, c_sock := sk,
                  write_count := write_count (client c) + of_nat (nbytes stat_c)\<rparr>;
         sv1 = sv\<lparr>s_sock := ssk\<rparr>;
         c1 = c\<lparr>client := cl1, server := Some sv1\<rparr>
     in
     if has_eof stat_s then Connection_close_or_reply w c1
     else if nbytes stat_c = 0 then
       Inr (w, Live (c1\<lparr>server := Some (sv1\<lparr>s_read_evt := False\<rparr>), client := cl1\<lparr>c_write_evt := True\<rparr>\<rparr>))
     else Inr (w, Live c1)))))"

end
