(* ===== verification/Handlers.thy ===== *)
theory Handlers
  imports Conn
begin

text \<open>
  The event handlers of \<open>src/client.cpp\<close> and \<open>src/server.cpp\<close>, one definition per function,
  and the slow-mode transfers they dispatch to.  A handler takes the event's environment, the
  global state and the connection and ends in a fault or with the connection alive or deleted.
\<close>

section \<open>Client\<close>

definition Client_recv_to_buffer_slowly ::
    "'p llhttp \<Rightarrow> env \<Rightarrow> world \<Rightarrow> 'p connection \<Rightarrow> (world \<times> 'p outcome) res" where
  "Client_recv_to_buffer_slowly ll env w c =
     (case read_all (c_sock (client c)) SOCK_IO_BUF_SIZE of (d, stat, sk) \<Rightarrow>
      bindE (to_global_buffer d) (\<lambda>g.
      let c1 = c\<lparr>client := (client c)\<lparr>c_sock := sk\<rparr>\<rparr> in
      if has_eof stat then Connection_delete w c1
      else
        bindE (derefE (parser c1)) (\<lambda>p.
        case HttpParser_do_parse ll p g of (p1, ok) \<Rightarrow>
        if \<not> ok then
          bindE (assertE (server c1 = None)) (\<lambda>_.
          let c2 = Connection_free_parser c1 in
          bindE (derefE (response_buf (client c2))) (\<lambda>pb.
            if data_size pb > 0 then
              Inr (w, Live (c2\<lparr>client := Client_set_reply_only_mode (client c2)\<rparr>))
            else Connection_delete w c2))
        else
          bindE (derefE (request_buf (client c1))) (\<lambda>rb.
          case eom_first p1 of
            Some part1_size \<Rightarrow>
              bindE (mem_read g 0 part1_size) (\<lambda>part1.
              bindE (vt_store Filebuf_vt rb part1) (\<lambda>rb1.
              bindE (if nbytes stat - part1_size > 0 then
                       bindE (derefE (request_tmp_buf (client c1))) (\<lambda>tb.
                       bindE (vt_store Filebuf_vt tb (drop part1_size g)) (\<lambda>tb1. Inr (Some tb1)))
                     else Inr (request_tmp_buf (client c1))) (\<lambda>tmp.
              bindE (vt_rewind Filebuf_vt rb1 0) (\<lambda>rb2.
              let cl = Client_pause_r ((client c1)\<lparr>request_buf := Some rb2, request_tmp_buf := tmp\<rparr>);
                  c2 = c1\<lparr>client := cl, parser := Some (HttpParser_switch_to_response_mode ll p1)\<rparr>
              in
              bindE (Server_new env w) (\<lambda>(w1, sv).
              case sv of
                None \<Rightarrow>
                  bindE (reply_with_503_unavailable (e_503 env) (c_sock cl)) (\<lambda>(_, sk').
                    Connection_delete w1 (c2\<lparr>client := cl\<lparr>c_sock := sk'\<rparr>\<rparr>))
              | Some s \<Rightarrow>
                  Inr (w1, Live (c2\<lparr>server := Some (s\<lparr>s_write_evt := True, s_read_evt := True\<rparr>)\<rparr>)))))))
          | None \<Rightarrow>
              bindE (vt_store Filebuf_vt rb g) (\<lambda>rb1.
                Inr (w, Live (c1\<lparr>client := (client c1)\<lparr>request_buf := Some rb1\<rparr>,
                                 parser := Some p1\<rparr>)))))))"

definition Client_send_response_slowly :: "world \<Rightarrow> 'p connection \<Rightarrow> (world \<times> 'p outcome) res" where
  "Client_send_response_slowly w c =
     bindE (derefE (response_buf (client c))) (\<lambda>pb.
     bindE (vt_fetch FIFOfilebuf_vt pb SOCK_IO_BUF_SIZE) (\<lambda>(count, d, pb1).
     bindE (to_global_buffer d) (\<lambda>g.
     if count > 0 then
       case write_all (c_sock (client c)) g of (stat, sk) \<Rightarrow>
       bindE (if int (nbytes stat) < count then vt_rewind FIFOfilebuf_vt pb1 (nat count - nbytes stat)
              else Inr pb1) (\<lambda>pb2.
         Inr (w, Live (c\<lparr>client := (client c)\<lparr>c_sock := sk, response_buf := Some pb2\<rparr>\<rparr>)))
     else if count = 0 then
       let c1 = c\<lparr>client := (client c)\<lparr>response_buf := Some pb1, c_write_evt := False\<rparr>\<rparr> in
       if parser c1 = None then Connection_delete w c1 else Inr (w, Live c1)
     else Inr (w, Live (c\<lparr>client := (client c)\<lparr>response_buf := Some pb1\<rparr>\<rparr>)))))"

definition Client_on_readable ::
    "'p llhttp \<Rightarrow> env \<Rightarrow> world \<Rightarrow> 'p connection \<Rightarrow> (world \<times> 'p outcome) res" where
  "Client_on_readable ll env w c =
     (if fast_mode c then
        case parser c of
          None \<Rightarrow>
            let c1 = c\<lparr>parser := Some (HttpParser_new ll)\<rparr> in
            bindE (Server_new env w) (\<lambda>(w1, sv).
            case sv of
              None \<Rightarrow>
                bindE (reply_with_503_unavailable (e_503 env) (c_sock (client c1))) (\<lambda>(_, sk).
                  Connection_delete w1 (c1\<lparr>client := (client c1)\<lparr>c_sock := sk\<rparr>\<rparr>))
            | Some s \<Rightarrow>
                Connection_fast_forward_cs ll w1
                  (c1\<lparr>server := Some (s\<lparr>s_queued_output := Some Circularbuf_new, s_read_evt := True\<rparr>),
                      client := (client c1)\<lparr>c_queued_output := Some Circularbuf_new\<rparr>\<rparr>))
        | Some p \<Rightarrow> Connection_fast_forward_cs ll w c
      else Client_recv_to_buffer_slowly ll env w c)"

definition Client_on_writable :: "world \<Rightarrow> 'p connection \<Rightarrow> (world \<times> 'p outcome) res" where
  "Client_on_writable w c =
     (if fast_mode c then
        case server c of
          None \<Rightarrow>
            bindE (derefE (c_queued_output (client c))) (\<lambda>cq.
            bindE (Circularbuf_write_all_to cq (c_sock (client c))) (\<lambda>(stat, cq1, sk).
            let c1 = c\<lparr>client := (client c)\<lparr>c_queued_output := Some cq1, c_sock := sk\<rparr>\<rparr> in
            if (has_error stat \<and> sock_errno sk \<noteq> EAGAIN \<and> sock_errno sk \<noteq> EINTR)
               \<or> Circularbuf_data_size cq1 = 0
            then Connection_delete w c1 else Inr (w, Live c1)))
        | Some sv \<Rightarrow>
            let sv1 = sv\<lparr>s_read_evt := True\<rparr>; cl1 = (client c)\<lparr>c_write_evt := False\<rparr> in
            bindE (derefE (c_queued_output cl1)) (\<lambda>cq.
            bindE (Circularbuf_write_all_to cq (c_sock cl1)) (\<lambda>(stat, cq1, sk).
              Inr (w, Live (c\<lparr>server := Some sv1,
                              client := cl1\<lparr>c_queued_output := Some cq1, c_sock := sk\<rparr>\<rparr>))))
      else Client_send_response_slowly w c)"

section \<open>Server\<close>

definition Server_recv_to_buffer_slowly ::
    "'p llhttp \<Rightarrow> world \<Rightarrow> 'p connection \<Rightarrow> (world \<times> 'p outcome) res" where
  "Server_recv_to_buffer_slowly ll w c =
     bindE (derefE (server c)) (\<lambda>sv.
     case read_all (s_sock sv) SOCK_IO_BUF_SIZE of (d, stat, ssk) \<Rightarrow>
     bindE (to_global_buffer d) (\<lambda>g.
     bindE (derefE (response_buf (client c))) (\<lambda>pb.
     bindE (vt_store FIFOfilebuf_vt pb g) (\<lambda>pb1.
     let cl = Client_start_writing ((client c)\<lparr>response_buf := Some pb1\<rparr>);
         c1 = c\<lparr>server := Some (sv\<lparr>s_sock := ssk\<rparr>), client := cl\<rparr>
     in
     bindE (derefE (parser c1)) (\<lambda>p.
     case HttpParser_do_parse ll p g of (p1, ok) \<Rightarrow>
     if \<not> ok then
       case Connection_free_server w c1 of (w1, c2) \<Rightarrow>
       let c3 = Connection_free_parser c2 in
       if data_size pb1 > 0 then
         Inr (w1, Live (c3\<lparr>client := Client_set_reply_only_mode (client c3)\<rparr>))
       else Connection_delete w1 c3
     else if has_eof stat \<or> eom_last p1 \<noteq> None then
       case Connection_free_server w c1 of (w1, c2) \<Rightarrow>
         Inr (w1, Live (c2\<lparr>parser := Some (HttpParser_switch_to_request_mode ll p1),
                           client := Client_resume_r (client c2)\<rparr>))
     else Inr (w, Live (c1\<lparr>parser := Some p1\<rparr>)))))))"

definition Server_send_request_slowly :: "world \<Rightarrow> 'p connection \<Rightarrow> (world \<times> 'p outcome) res" where
  "Server_send_request_slowly w c =
     bindE (derefE (server c)) (\<lambda>sv.
     bindE (derefE (request_buf (client c))) (\<lambda>rb.
     bindE (vt_fetch Filebuf_vt rb SOCK_IO_BUF_SIZE) (\<lambda>(count, d, rb1).
     bindE (to_global_buffer d) (\<lambda>g.
     if count > 0 then
       case write_all (s_sock sv) g of (stat, ssk) \<Rightarrow>
       bindE (if int (nbytes stat) < count then vt_rewind Filebuf_vt rb1 (nat count - nbytes stat)
              else Inr rb1) (\<lambda>rb2.
         Inr (w, Live (c\<lparr>server := Some (sv\<lparr>s_sock := ssk\<rparr>),
                         client := (client c)\<lparr>request_buf := Some rb2\<rparr>\<rparr>)))
     else if count = 0 then
       bindE (Filebuf_clear Filebuf_vt rb1) (\<lambda>rb2.
         Inr (w, Live (c\<lparr>server := Some (sv\<lparr>s_write_evt := False\<rparr>),
                         client := (client c)\<lparr>request_buf := request_tmp_buf (client c),
                                              request_tmp_buf := Some rb2\<rparr>\<rparr>)))
     else Inr (w, Live (c\<lparr>client := (client c)\<lparr>request_buf := Some rb1\<rparr>\<rparr>))))))"

text \<open>\<open>timed_out\<close> is \<open>flag & EV_TIMEOUT\<close>.\<close>

definition Server_on_readable ::
    "'p llhttp \<Rightarrow> bool \<Rightarrow> world \<Rightarrow> 'p connection \<Rightarrow> (world \<times> 'p outcome) res" where
  "Server_on_readable ll timed_out w c =
     (if fast_mode c then Connection_fast_forward_sc w c
      else if in_transition c then
        if timed_out then
          case Connection_free_server w (Connection_set_transition_done c) of (w1, c1) \<Rightarrow>
            Inr (w1, Live (c1\<lparr>client := Client_resume_r (client c1)\<rparr>))
        else
          bindE (derefE (server c)) (\<lambda>sv.
          case read_all (s_sock sv) SOCK_IO_BUF_SIZE of (d, stat, ssk) \<Rightarrow>
          bindE (to_global_buffer d) (\<lambda>g.
          let c1 = c\<lparr>server := Some (sv\<lparr>s_sock := ssk\<rparr>)\<rparr> in
          if has_eof stat then
            case Connection_free_server w (Connection_set_transition_done c1) of (w1, c2) \<Rightarrow>
              Inr (w1, Live (c2\<lparr>client := Client_resume_r (client c2)\<rparr>))
          else
            bindE (derefE (response_buf (client c1))) (\<lambda>pb.
            bindE (vt_store FIFOfilebuf_vt pb g) (\<lambda>pb1.
              Inr (w, Live (c1\<lparr>client := Client_start_writing ((client c1)\<lparr>response_buf := Some pb1\<rparr>)\<rparr>))))))
      else Server_recv_to_buffer_slowly ll w c)"

text \<open>
  The log lines evaluate \<open>server->queued_output->data_size()\<close>; in the branch of the transition
  this happens after the queue may have been freed.
\<close>

definition Server_on_writable :: "world \<Rightarrow> 'p connection \<Rightarrow> (world \<times> 'p outcome) res" where
  "Server_on_writable w c =
     bindE (derefE (server c)) (\<lambda>sv.
     if fast_mode c then
       let cl1 = (client c)\<lparr>c_read_evt := True\<rparr>; sv1 = sv\<lparr>s_write_evt := False\<rparr> in
       bindE (derefE (s_queued_output sv1)) (\<lambda>sq.
       bindE (Circularbuf_write_all_to sq (s_sock sv1)) (\<lambda>(stat, sq1, ssk).
         Inr (w, Live (c\<lparr>client := cl1, server := Some (sv1\<lparr>s_sock := ssk, s_queued_output := Some sq1\<rparr>)\<rparr>))))
     else if in_transition c then
       bindE (derefE (s_queued_output sv)) (\<lambda>sq.
       bindE (Circularbuf_write_all_to sq (s_sock sv)) (\<lambda>(stat, sq1, ssk).
       let sv1 = sv\<lparr>s_sock := ssk, s_queued_output := Some sq1\<rparr>;
           sv2 = (if Circularbuf_data_size sq1 = 0
                  then sv1\<lparr>s_write_evt := False, s_queued_output := None\<rparr> else sv1)
       in bindE (derefE (s_queued_output sv2)) (\<lambda>logged.
            Inr (w, Live (c\<lparr>server := Some sv2\<rparr>)))))
     else Server_send_request_slowly w c)"

end
