(* ===== verification/Monitor.thy ===== *)
theory Monitor
  imports Handlers "HOL-Library.AList"
begin

text \<open>
  The parts of the program that work on all connections: accepting (\<open>Connection::accept_new\<close>),
  the periodic \<open>monitor_data_rates\<close>, and the signal handler that puts every connection into
  slow mode after a delay (\<open>src/connection.cpp\<close>, \<open>src/ls_proxy.cpp\<close>).
\<close>

section \<open>Accepting\<close>

text \<open>
  \<open>accepted\<close> is what \<open>accept\<close> returned, \<open>None\<close> for -1, on which making the socket
  non-blocking fails.  The result is the refused socket or the new connection.
\<close>

definition Connection_accept_new ::
    "env \<Rightarrow> world \<Rightarrow> sock option \<Rightarrow> (world \<times> (sock + 'p connection)) res" where
  "Connection_accept_new env w accepted =
     (case accepted of
        None \<Rightarrow> Inl Abort
      | Some sk \<Rightarrow>
          if \<not> e_nonblocking env then Inl Abort
          else if connection_count w \<ge> MAX_CONNECTION then
            bindE (reply_with_503_unavailable (e_503 env) sk) (\<lambda>(_, sk').
              Inr (w, Inl (close_socket_gracefully sk')))
          else
            bindE (Client_new env w sk) (\<lambda>(w1, cl).
              case Connection_new w1 (cl\<lparr>c_read_evt := True\<rparr>) of (w2, c) \<Rightarrow> Inr (w2, Inr c)))"

section \<open>Monitoring data rates\<close>

definition min_dtr :: "64 word" where
  "min_dtr = of_nat (DTR_THRESHOLD * MONITOR_INTERVAL)"

definition min_down :: "64 word" where
  "min_down = of_nat (MIN_DOWNLOAD_SPEED * MONITOR_INTERVAL)"

text \<open>The body of the loop of \<open>monitor_data_rates\<close>, for one connection.\<close>

definition monitor_connection ::
    "'p llhttp \<Rightarrow> env \<Rightarrow> world \<Rightarrow> 'p connection \<Rightarrow> (world \<times> 'p outcome) res" where
  "monitor_connection ll env w c =
     (let rc = read_count (client c); wc = write_count (client c) in
      if wc < min_down \<and> rc < min_down then Connection_delete w c
      else
        bindE (if fast_mode c \<and> rc + wc < min_dtr then Connection_set_slow_mode ll env w c
               else Inr (w, c)) (\<lambda>(w1, c1).
          Inr (w1, Live (c1\<lparr>client := (client c1)\<lparr>read_count := 0, write_count := 0\<rparr>\<rparr>))))"

section \<open>Events and the slow-mode signal\<close>

text \<open>
  The live connections by number, and their events.  A server's events belong to one \<open>Server\<close>
  object, so they also carry how many servers the connection had before it.
  \<open>event_base_foreach_event\<close> visits the pending events; each event leads to its connection
  (\<open>get_associated_conn\<close>).
\<close>

datatype evt = ClientRead nat | ClientWrite nat | ServerRead nat nat | ServerWrite nat nat

type_synonym 'p conns = "(nat \<times> 'p connection) list"

definition get_associated_conn :: "evt \<Rightarrow> nat" where
  "get_associated_conn e =
     (case e of ClientRead i \<Rightarrow> i | ClientWrite i \<Rightarrow> i | ServerRead i g \<Rightarrow> i | ServerWrite i g \<Rightarrow> i)"

definition pending_events_of :: "nat \<Rightarrow> 'p connection \<Rightarrow> evt list" where
  "pending_events_of i c =
     (if c_read_evt (client c) then [ClientRead i] else [])
     @ (if c_write_evt (client c) then [ClientWrite i] else [])
     @ (case server c of None \<Rightarrow> []
        | Some sv \<Rightarrow>
            (if s_read_evt sv then [ServerRead i (length (past_servers c))] else [])
            @ (if s_write_evt sv then [ServerWrite i (length (past_servers c))] else []))"

definition pending_events :: "'p conns \<Rightarrow> evt list" where
  "pending_events cs = concat (map (\<lambda>(i, c). pending_events_of i c) cs)"

definition get_all_connections :: "'p conns \<Rightarrow> nat list" where
  "get_all_connections cs = remdups (map get_associated_conn (pending_events cs))"

text \<open>
  The loop of \<open>monitor_data_rates\<close> over the set of all connections; the environment each
  connection meets is given by its number.
\<close>

definition put_outcome :: "nat \<Rightarrow> 'p outcome \<Rightarrow> 'p conns \<Rightarrow> 'p conns" where
  "put_outcome i r cs = (case r of Live c \<Rightarrow> AList.update i c cs | Deleted c \<Rightarrow> AList.delete i cs)"

fun monitor_loop ::
    "'p llhttp \<Rightarrow> (nat \<Rightarrow> env) \<Rightarrow> world \<Rightarrow> 'p conns \<Rightarrow> nat list \<Rightarrow> (world \<times> 'p conns) res" where
  "monitor_loop ll envs w cs [] = Inr (w, cs)"
| "monitor_loop ll envs w cs (i # is) =
     bindE (derefE (map_of cs i)) (\<lambda>c.
     bindE (monitor_connection ll (envs i) w c) (\<lambda>(w1, r).
       monitor_loop ll envs w1 (put_outcome i r cs) is))"

definition monitor_data_rates ::
    "'p llhttp \<Rightarrow> (nat \<Rightarrow> env) \<Rightarrow> world \<Rightarrow> 'p conns \<Rightarrow> (world \<times> 'p conns) res" where
  "monitor_data_rates ll envs w cs = monitor_loop ll envs w cs (get_all_connections cs)"

text \<open>The signal handler only collects the events; the timer scans them later.\<close>

definition put_all_connection_slow_mode :: "'p conns \<Rightarrow> evt list" where
  "put_all_connection_slow_mode cs = pending_events cs"

text \<open>
  Whether an event is pending when the timer looks at it; the event belongs to a client or a
  server, and is freed with it.
\<close>

definition event_pending :: "'p conns \<Rightarrow> evt \<Rightarrow> bool res" where
  "event_pending cs e =
     (case map_of cs (get_associated_conn e) of
        None \<Rightarrow> Inl UseAfterFree
      | Some c \<Rightarrow>
          (case e of
             ClientRead _ \<Rightarrow> Inr (c_read_evt (client c))
           | ClientWrite _ \<Rightarrow> Inr (c_write_evt (client c))
           | ServerRead _ g \<Rightarrow>
               (case server c of None \<Rightarrow> Inl UseAfterFree
                | Some sv \<Rightarrow> if g = length (past_servers c) then Inr (s_read_evt sv) else Inl UseAfterFree)
           | ServerWrite _ g \<Rightarrow>
               (case server c of None \<Rightarrow> Inl UseAfterFree
                | Some sv \<Rightarrow> if g = length (past_servers c) then Inr (s_write_evt sv) else Inl UseAfterFree)))"

fun put_events_slow_mode ::
    "'p llhttp \<Rightarrow> env \<Rightarrow> world \<Rightarrow> 'p conns \<Rightarrow> evt list \<Rightarrow> (world \<times> 'p conns) res" where
  "put_events_slow_mode ll env w cs [] = Inr (w, cs)"
| "put_events_slow_mode ll env w cs (e # es) =
     bindE (event_pending cs e) (\<lambda>pend.
     if pend then
       bindE (derefE (map_of cs (get_associated_conn e))) (\<lambda>c.
       bindE (Connection_set_slow_mode ll env w c) (\<lambda>(w1, c1).
         put_events_slow_mode ll env w1 (AList.update (get_associated_conn e) c1 cs) es))
     else put_events_slow_mode ll env w cs es)"

end
