(* ===== verification/Invariants.thy ===== *)
theory Invariants
  imports Monitor
begin

text \<open>
  The invariant of a connection and of the global state, and the proof that every handler keeps
  it and ends without a fault.  The invariant says which of the program's modes a connection is
  in, which of its parts exist in that mode, that its buffers are well formed, and which of its
  events are pending; in every mode at least one is.
\<close>

section \<open>Definitions\<close>

text \<open>A history buffer as the pool hands it out.\<close>

definition clean_history :: "hybridbuf \<Rightarrow> bool" where
  "clean_history h \<longleftrightarrow> Hybridbuf_inv h \<and> Hybridbuf_stored h = [] \<and> Hybridbuf_appendable h"

definition world_inv :: "world \<Rightarrow> bool" where
  "world_inv w \<longleftrightarrow>
     length (hybridbuf_pool w) \<le> MAX_HYBRID_POOL \<and> (\<forall>h \<in> set (hybridbuf_pool w). clean_history h)
     \<and> (\<exists>i. at_index i (locals (netst w)))"

text \<open>
  A system on which the calls the program aborts on succeed, and on which a new socket has
  transferred nothing yet.
\<close>

definition fresh_sock :: "sock \<Rightarrow> bool" where
  "fresh_sock s \<longleftrightarrow> received s = [] \<and> sent s = []"

definition env_ok :: "env \<Rightarrow> bool" where
  "env_ok env \<longleftrightarrow> socket_ok (e_net env) \<and> e_nonblocking env \<and> e_503 env \<noteq> None
     \<and> (\<forall>i. e_disk env i = Some healthy_disk) \<and> e_reopen env \<and> fresh_sock (e_server_sock env)"

definition queue_ok :: "circularbuf \<Rightarrow> bool" where
  "queue_ok q \<longleftrightarrow> Circularbuf_inv q \<and> length (cb_buffer q) = SOCK_IO_BUF_SIZE"

definition history_ok :: "client \<Rightarrow> bool" where
  "history_ok cl \<longleftrightarrow> (\<forall>h. request_history cl = Some h \<longrightarrow> Hybridbuf_inv h \<and> Hybridbuf_appendable h)"

definition file_wf :: "filebuf \<Rightarrow> bool" where
  "file_wf fb \<longleftrightarrow> healthy fb \<and> fd_pos fb \<le> length (content fb)"

definition response_ok :: "fifofilebuf \<Rightarrow> bool" where
  "response_ok pb \<longleftrightarrow> FIFOfilebuf_inv pb \<and> Filebuf_appendable pb"

definition slow_buffers_ok :: "client \<Rightarrow> bool" where
  "slow_buffers_ok cl \<longleftrightarrow>
     (\<exists>rb tb pb. request_buf cl = Some rb \<and> file_wf rb \<and> request_tmp_buf cl = Some tb \<and> file_wf tb
        \<and> response_buf cl = Some pb \<and> response_ok pb)"

text \<open>The modes.\<close>

definition fast_fresh :: "'p connection \<Rightarrow> bool" where
  "fast_fresh c \<longleftrightarrow> fast_mode c \<and> \<not> in_transition c \<and> parser c = None \<and> server c = None
     \<and> c_queued_output (client c) = None \<and> c_read_evt (client c) \<and> \<not> c_write_evt (client c)
     \<and> request_history (client c) \<noteq> None"

definition fast_active :: "'p connection \<Rightarrow> bool" where
  "fast_active c \<longleftrightarrow> fast_mode c \<and> \<not> in_transition c
     \<and> (\<exists>p. parser c = Some p \<and> HttpParser_inv p)
     \<and> (\<exists>sv sq. server c = Some sv \<and> s_queued_output sv = Some sq \<and> queue_ok sq
          \<and> (c_read_evt (client c) \<or> s_write_evt sv) \<and> (s_read_evt sv \<or> c_write_evt (client c)))
     \<and> (\<exists>cq. c_queued_output (client c) = Some cq \<and> queue_ok cq)
     \<and> request_history (client c) \<noteq> None"

definition fast_reply :: "'p connection \<Rightarrow> bool" where
  "fast_reply c \<longleftrightarrow> fast_mode c \<and> \<not> in_transition c \<and> parser c = None \<and> server c = None
     \<and> (\<exists>cq. c_queued_output (client c) = Some cq \<and> queue_ok cq \<and> Circularbuf_contents cq \<noteq> [])
     \<and> \<not> c_read_evt (client c) \<and> c_write_evt (client c)"

definition slow_transition :: "'p connection \<Rightarrow> bool" where
  "slow_transition c \<longleftrightarrow> \<not> fast_mode c \<and> in_transition c \<and> slow_buffers_ok (client c)
     \<and> (\<exists>p. parser c = Some p \<and> HttpParser_inv p)
     \<and> (\<exists>sv. server c = Some sv \<and> s_read_evt sv \<and> s_read_timeout sv
          \<and> (\<forall>sq. s_queued_output sv = Some sq \<longrightarrow> queue_ok sq))
     \<and> \<not> c_read_evt (client c)"

definition slow_receiving :: "'p connection \<Rightarrow> bool" where
  "slow_receiving c \<longleftrightarrow> \<not> fast_mode c \<and> \<not> in_transition c \<and> slow_buffers_ok (client c)
     \<and> (\<exists>p. parser c = Some p \<and> HttpParser_inv p) \<and> server c = None \<and> c_read_evt (client c)"

definition slow_serving :: "'p connection \<Rightarrow> bool" where
  "slow_serving c \<longleftrightarrow> \<not> fast_mode c \<and> \<not> in_transition c \<and> slow_buffers_ok (client c)
     \<and> (\<exists>p. parser c = Some p \<and> HttpParser_inv p) \<and> (\<exists>sv. server c = Some sv \<and> s_read_evt sv)
     \<and> \<not> c_read_evt (client c)"

definition slow_reply :: "'p connection \<Rightarrow> bool" where
  "slow_reply c \<longleftrightarrow> \<not> fast_mode c \<and> \<not> in_transition c \<and> slow_buffers_ok (client c)
     \<and> parser c = None \<and> server c = None \<and> \<not> c_read_evt (client c) \<and> c_write_evt (client c)"

definition conn_inv :: "'p connection \<Rightarrow> bool" where
  "conn_inv c \<longleftrightarrow> history_ok (client c)
     \<and> (fast_fresh c \<or> fast_active c \<or> fast_reply c \<or> slow_transition c \<or> slow_receiving c
        \<or> slow_serving c \<or> slow_reply c)"

lemmas mode_defs = fast_fresh_def fast_active_def fast_reply_def slow_transition_def
  slow_receiving_def slow_serving_def slow_reply_def

text \<open>What a handler promises: no fault, and the invariant of what is left.\<close>

definition outcome_inv :: "'p outcome \<Rightarrow> bool" where
  "outcome_inv r \<longleftrightarrow> (case r of Live c \<Rightarrow> conn_inv c | Deleted c \<Rightarrow> True)"

definition safe_result :: "(world \<times> 'p outcome) res \<Rightarrow> bool" where
  "safe_result r \<longleftrightarrow> (\<exists>w o'. r = Inr (w, o') \<and> world_inv w \<and> outcome_inv o')"

section \<open>Building blocks\<close>

lemma world_inv_updates [simp]:
  "world_inv (w\<lparr>connection_count := n\<rparr>) = world_inv w"
  "world_inv (w\<lparr>active_count := a\<rparr>) = world_inv w"
  by (simp_all add: world_inv_def)

lemma history_ok_updates [simp]:
  "history_ok (cl\<lparr>c_sock := x1\<rparr>) = history_ok cl"
  "history_ok (cl\<lparr>c_read_evt := x2\<rparr>) = history_ok cl"
  "history_ok (cl\<lparr>c_write_evt := x2\<rparr>) = history_ok cl"
  "history_ok (cl\<lparr>c_queued_output := x3\<rparr>) = history_ok cl"
  "history_ok (cl\<lparr>request_buf := x4\<rparr>) = history_ok cl"
  "history_ok (cl\<lparr>request_tmp_buf := x4\<rparr>) = history_ok cl"
  "history_ok (cl\<lparr>response_buf := x5\<rparr>) = history_ok cl"
  "history_ok (cl\<lparr>read_count := x6\<rparr>) = history_ok cl"
  "history_ok (cl\<lparr>write_count := x6\<rparr>) = history_ok cl"
  "history_ok (cl\<lparr>request_history := None\<rparr>)"
  by (simp_all add: history_ok_def)

lemmas client_ops = Client_stop_reading_def Client_stop_writing_def Client_start_reading_def
  Client_start_writing_def Client_pause_r_def Client_resume_r_def Client_set_reply_only_mode_def
  Client_free_queued_output_def

lemma clean_history_clear:
  assumes "Hybridbuf_inv h"
  obtains h' where "Filebuf_clear Hybridbuf_vt h = Inr h'" "clean_history h'"
  using hb.clear_law [OF assms] by (auto simp: clean_history_def)

lemma release_history_inv:
  assumes "world_inv w" "\<And>h. request_history cl = Some h \<Longrightarrow> Hybridbuf_inv h"
  obtains w' where "Client_release_request_history w cl = Inr (w', cl\<lparr>request_history := None\<rparr>)"
    "world_inv w'" "connection_count w' = connection_count w" "active_count w' = active_count w"
    "netst w' = netst w"
proof (cases "request_history cl")
  case None
  then have "cl\<lparr>request_history := None\<rparr> = cl" by (cases cl) simp
  with None assms that show thesis by (simp add: Client_release_request_history_def)
next
  case (Some h)
  obtain h' where "Filebuf_clear Hybridbuf_vt h = Inr h'" "clean_history h'"
    using clean_history_clear [OF assms(2) [OF Some]] .
  then have h': "Client_release_request_history w cl =
      Inr (if length (hybridbuf_pool w) < MAX_HYBRID_POOL then w\<lparr>hybridbuf_pool := hybridbuf_pool w @ [h']\<rparr> else w,
           cl\<lparr>request_history := None\<rparr>)" "clean_history h'"
    using Some by (simp_all add: Client_release_request_history_def)
  show thesis by (rule that [OF h'(1)]) (use assms(1) h'(2) in \<open>auto simp: world_inv_def\<close>)
qed

lemma release_history_safe:
  assumes "world_inv w" "history_ok cl"
  obtains w' where "Client_release_request_history w cl = Inr (w', cl\<lparr>request_history := None\<rparr>)"
    "world_inv w'" "connection_count w' = connection_count w" "active_count w' = active_count w"
    "netst w' = netst w"
proof -
  have "\<And>h. request_history cl = Some h \<Longrightarrow> Hybridbuf_inv h" using assms(2) by (simp add: history_ok_def)
  from release_history_inv [OF assms(1) this] that show thesis by blast
qed

lemma free_server_simps [simp]:
  "client (snd (Connection_free_server w c)) = client c"
  "server (snd (Connection_free_server w c)) = None"
  "parser (snd (Connection_free_server w c)) = parser c"
  "fast_mode (snd (Connection_free_server w c)) = fast_mode c"
  "in_transition (snd (Connection_free_server w c)) = in_transition c"
  "world_inv (fst (Connection_free_server w c)) = world_inv w"
  "connection_count (fst (Connection_free_server w c)) = connection_count w"
  by (simp_all add: Connection_free_server_def split: option.splits)

lemma free_server_active:
  "active_count (fst (Connection_free_server w c)) =
     (if server c = None then active_count w else active_count w - 1)"
  by (simp add: Connection_free_server_def split: option.splits)

lemma free_server_split:
  "P (case Connection_free_server w c of (w1, c1) \<Rightarrow> f w1 c1) =
   P (f (fst (Connection_free_server w c)) (snd (Connection_free_server w c)))"
  by (simp add: case_prod_beta)

lemma delete_safe:
  assumes "world_inv w" "history_ok (client c)"
  obtains w' c' where "Connection_delete w c = Inr (w', Deleted c')" "world_inv w'"
    "connection_count w' = connection_count w - 1"
    "active_count w' = (if server c = None then active_count w else active_count w - 1)"
proof -
  let ?c1 = "snd (Connection_free_server w c)" let ?w1 = "fst (Connection_free_server w c)"
  let ?cl = "(client ?c1)\<lparr>c_read_evt := False, c_write_evt := False,
     c_sock := close_socket_gracefully (c_sock (client ?c1)), c_queued_output := None,
     request_buf := None, request_tmp_buf := None, response_buf := None\<rparr>"
  from assms have "world_inv ?w1" "history_ok ?cl" by simp_all
  then obtain w' where "Client_release_request_history ?w1 ?cl = Inr (w', ?cl\<lparr>request_history := None\<rparr>)"
    "world_inv w'" "connection_count w' = connection_count ?w1" "active_count w' = active_count ?w1"
    by (rule release_history_safe)
  with that show thesis
    by (simp add: Connection_delete_def Connection_free_client_def case_prod_beta free_server_active)
qed

lemma delete_safe_result: "world_inv w \<Longrightarrow> history_ok (client c) \<Longrightarrow> safe_result (Connection_delete w c)"
  by (rule delete_safe) (auto simp: safe_result_def outcome_inv_def)

lemma safe_live: "safe_result (Inr (w, Live c)) \<longleftrightarrow> world_inv w \<and> conn_inv c"
  by (simp add: safe_result_def outcome_inv_def)

section \<open>Fast mode\<close>

lemma keep_track_spec:
  assumes ll: "llhttp_ok ll" and "parser c = Some p" "HttpParser_inv p" "request_history (client c) = Some h"
    "Hybridbuf_inv h" "Hybridbuf_appendable h"
  obtains p' ok h' where
    "Client_keep_track_request_history ll c g =
       Inr (c\<lparr>parser := Some p', client := (client c)\<lparr>request_history := Some h'\<rparr>\<rparr>, ok)"
    "HttpParser_do_parse ll p g = (p', ok)" "HttpParser_inv p'"
    "Hybridbuf_inv h'" "Hybridbuf_appendable h'"
    "Hybridbuf_stored h' = (if \<not> ok then Hybridbuf_stored h
       else case eom_last p' of None \<Rightarrow> Hybridbuf_stored h @ g | Some e \<Rightarrow> drop e g)"
proof -
  obtain p' ok where pr: "HttpParser_do_parse ll p g = (p', ok)" by (cases "HttpParser_do_parse ll p g")
  note pinv = HttpParser_do_parse_inv [OF pr assms(3)]
  note kt = Client_keep_track_request_history_def [of ll c g]
  show thesis
  proof (cases "ok")
    case False
    have "(client c)\<lparr>request_history := Some h\<rparr> = client c" using assms(4) by (cases "client c") simp
    then have "c\<lparr>parser := Some p', client := (client c)\<lparr>request_history := Some h\<rparr>\<rparr> = c\<lparr>parser := Some p'\<rparr>"
      by (cases c) simp
    with False pr pinv assms show thesis by (intro that [of h p' ok]) (simp_all add: kt)
  next
    case True
    show thesis
    proof (cases "eom_last p'")
      case None
      from hb.store_law [OF assms(5,6)] obtain h' where "Hybridbuf_store h g = Inr h'" "Hybridbuf_inv h'"
        "Hybridbuf_appendable h'" "Hybridbuf_stored h' = Hybridbuf_stored h @ g"
        by (auto simp: Hybridbuf_vt_def)
      with None True pr pinv assms show thesis by (intro that [of h' p' ok]) (simp_all add: kt)
    next
      case (Some e)
      obtain h1 where h1: "Filebuf_clear Hybridbuf_vt h = Inr h1" "clean_history h1"
        using clean_history_clear [OF assms(5)] .
      then have "Hybridbuf_inv h1" "Hybridbuf_appendable h1" "Hybridbuf_stored h1 = []"
        by (simp_all add: clean_history_def)
      with hb.store_law obtain h' where "Hybridbuf_store h1 (drop e g) = Inr h'" "Hybridbuf_inv h'"
        "Hybridbuf_appendable h'" "Hybridbuf_stored h' = drop e g"
        by (fastforce simp: Hybridbuf_vt_def)
      moreover have "e \<le> length g" using HttpParser_do_parse_bounds(2) [OF ll assms(3) pr Some] .
      ultimately show thesis using Some h1 True pr pinv assms by (intro that [of h' p' ok]) (simp_all add: kt)
    qed
  qed
qed

lemma close_or_reply_safe:
  assumes "world_inv w" "history_ok (client c)" "fast_mode c" "\<not> in_transition c"
    "c_queued_output (client c) = Some cq" "queue_ok cq"
  shows "safe_result (Connection_close_or_reply w c)"
proof (cases "Circularbuf_data_size cq > 0")
  case True
  then have "Circularbuf_contents cq \<noteq> []"
    using assms(6) by (auto simp: queue_ok_def Circularbuf_data_size_contents)
  with True assms show ?thesis
    by (auto simp: Connection_close_or_reply_def case_prod_beta Connection_free_parser_def safe_result_def
        outcome_inv_def conn_inv_def fast_reply_def client_ops)
next
  case False
  let ?c = "Connection_free_parser (snd (Connection_free_server w c))"
  have "safe_result (Connection_delete (fst (Connection_free_server w c)) ?c)"
    using assms by (intro delete_safe_result) (simp_all add: Connection_free_parser_def)
  with False assms show ?thesis
    by (simp add: Connection_close_or_reply_def case_prod_beta Connection_free_parser_def)
qed

text \<open>
  The parts of an active fast-mode connection, and the shape in which forwarding leaves them.
\<close>

lemma fast_activeE:
  assumes "fast_active c" "history_ok (client c)"
  obtains p sv sq cq h where "fast_mode c" "\<not> in_transition c" "parser c = Some p" "HttpParser_inv p"
    "server c = Some sv" "s_queued_output sv = Some sq" "queue_ok sq"
    "c_read_evt (client c) \<or> s_write_evt sv" "s_read_evt sv \<or> c_write_evt (client c)"
    "c_queued_output (client c) = Some cq" "queue_ok cq"
    "request_history (client c) = Some h" "Hybridbuf_inv h" "Hybridbuf_appendable h"
  using assms by (auto simp: fast_active_def history_ok_def)

lemma queue_ok_space: "queue_ok q \<Longrightarrow> Circularbuf_remaining_space q \<le> SOCK_IO_BUF_SIZE"
  by (simp add: queue_ok_def Circularbuf_remaining_space_def)

lemma queue_append:
  assumes "queue_ok q" "length d \<le> Circularbuf_remaining_space q"
  obtains q' where "Circularbuf_copy_from q d = Inr (length d, q')" "queue_ok q'"
    "Circularbuf_contents q' = Circularbuf_contents q @ d"
proof -
  from assms(1) have i: "Circularbuf_inv q" by (simp add: queue_ok_def)
  obtain q' where "Circularbuf_copy_from q d = Inr (min (length d) (Circularbuf_remaining_space q), q')"
    "Circularbuf_inv q'" "length (cb_buffer q') = length (cb_buffer q)"
    "Circularbuf_contents q' = Circularbuf_contents q @ take (Circularbuf_remaining_space q) d"
    using Circularbuf_copy_from_spec [OF i] .
  with assms that show thesis by (simp add: queue_ok_def)
qed

lemma queue_drain:
  assumes "queue_ok q"
  obtains stat q' s' where "Circularbuf_write_all_to q s = Inr (stat, q', s')" "queue_ok q'"
    "Circularbuf_drained q s stat q' s'"
proof -
  from assms have "Circularbuf_inv q" by (simp add: queue_ok_def)
  then obtain stat q' s' where "Circularbuf_write_all_to q s = Inr (stat, q', s')"
    "Circularbuf_drained q s stat q' s'" by (rule Circularbuf_write_all_to_spec)
  with assms that show thesis by (simp add: queue_ok_def Circularbuf_drained_def)
qed

lemma queue_fill:
  assumes "queue_ok q"
  obtains stat q' s' d where "Circularbuf_read_all_from q s = Inr (stat, q', s')" "queue_ok q'"
    "read_all s (Circularbuf_remaining_space q) = (d, stat, s')"
    "Circularbuf_contents q' = Circularbuf_contents q @ d"
proof -
  from assms have i: "Circularbuf_inv q" and l: "length (cb_buffer q) \<le> SOCK_IO_BUF_SIZE"
    by (simp_all add: queue_ok_def)
  show thesis
    by (rule Circularbuf_read_all_from_spec [OF i l, of s], rule that)
      (use assms in \<open>auto simp: queue_ok_def\<close>)
qed

lemma queue_ok_new [simp]: "queue_ok Circularbuf_new"
  by (simp add: queue_ok_def Circularbuf_new_def Circularbuf_inv_def)

text \<open>
  Forwarding from the client: the chunk read, the history it leaves, what goes to the server
  and what stays queued.
\<close>

lemma fast_forward_cs_unfold:
  assumes ll: "llhttp_ok ll" and hist: "history_ok (client c)" and act: "fast_active c"
  obtains p sv sq cq h d stat sk p' ok h' sq2 and stat_s :: io_stat and ssk c2 sv2 where
    "parser c = Some p" "server c = Some sv" "s_queued_output sv = Some sq" "queue_ok sq"
    "c_queued_output (client c) = Some cq" "queue_ok cq" "request_history (client c) = Some h"
    "read_all (c_sock (client c)) (Circularbuf_remaining_space sq) = (d, stat, sk)"
    "HttpParser_do_parse ll p d = (p', ok)" "HttpParser_inv p'" "Hybridbuf_inv h'" "Hybridbuf_appendable h'"
    "Hybridbuf_stored h' = (if \<not> ok then Hybridbuf_stored h
       else case eom_last p' of None \<Rightarrow> Hybridbuf_stored h @ d | Some e \<Rightarrow> drop e d)"
    "queue_ok sq2" "sent ssk @ Circularbuf_contents sq2 = sent (s_sock sv) @ Circularbuf_contents sq @ d"
    "received ssk = received (s_sock sv)"
    "c2 = c\<lparr>parser := Some p', client := (client c)\<lparr>c_sock := sk,
            read_count := read_count (client c) + of_nat (nbytes stat), request_history := Some h'\<rparr>\<rparr>"
    "sv2 = sv\<lparr>s_sock := ssk, s_queued_output := Some sq2\<rparr>"
    "Connection_fast_forward_cs ll w c =
       (if \<not> ok then Connection_close_or_reply w c2
        else if has_eof stat then Connection_delete w (c2\<lparr>server := Some sv2\<rparr>)
        else if nbytes stat_s = 0 then
          Inr (w, Live (c2\<lparr>server := Some (sv2\<lparr>s_write_evt := True\<rparr>),
                           client := (client c2)\<lparr>c_read_evt := False\<rparr>\<rparr>))
        else Inr (w, Live (c2\<lparr>server := Some sv2\<rparr>)))"
proof -
  from act hist obtain p sv sq cq h where c: "parser c = Some p" "HttpParser_inv p" "server c = Some sv"
    "s_queued_output sv = Some sq" "queue_ok sq" "c_queued_output (client c) = Some cq" "queue_ok cq"
    "request_history (client c) = Some h" "Hybridbuf_inv h" "Hybridbuf_appendable h"
    by (rule fast_activeE)
  obtain d stat sk where r: "read_all (c_sock (client c)) (Circularbuf_remaining_space sq) = (d, stat, sk)"
    by (cases "read_all (c_sock (client c)) (Circularbuf_remaining_space sq)")
  have g: "length d \<le> SOCK_IO_BUF_SIZE" "length d \<le> Circularbuf_remaining_space sq"
    using read_all_spec(2,3) [OF r] queue_ok_space [OF c(5)] by linarith+
  let ?c1 = "c\<lparr>client := (client c)\<lparr>c_sock := sk, read_count := read_count (client c) + of_nat (nbytes stat)\<rparr>\<rparr>"
  have "parser ?c1 = Some p" "request_history (client ?c1) = Some h" using c by simp_all
  then obtain p' ok h' where k: "Client_keep_track_request_history ll ?c1 d =
       Inr (?c1\<lparr>parser := Some p', client := (client ?c1)\<lparr>request_history := Some h'\<rparr>\<rparr>, ok)"
    "HttpParser_do_parse ll p d = (p', ok)" "HttpParser_inv p'" "Hybridbuf_inv h'" "Hybridbuf_appendable h'"
    "Hybridbuf_stored h' = (if \<not> ok then Hybridbuf_stored h
       else case eom_last p' of None \<Rightarrow> Hybridbuf_stored h @ d | Some e \<Rightarrow> drop e d)"
    using keep_track_spec [OF ll _ c(2) _ c(9,10)] by blast
  obtain sq1 where a: "Circularbuf_copy_from sq d = Inr (length d, sq1)" "queue_ok sq1"
    "Circularbuf_contents sq1 = Circularbuf_contents sq @ d"
    using queue_append [OF c(5) g(2)] .
  obtain stat_s sq2 ssk where b: "Circularbuf_write_all_to sq1 (s_sock sv) = Inr (stat_s, sq2, ssk)" "queue_ok sq2"
    "Circularbuf_drained sq1 (s_sock sv) stat_s sq2 ssk"
    using queue_drain [OF a(2)] .
  have e: "sent ssk @ Circularbuf_contents sq2 = sent (s_sock sv) @ Circularbuf_contents sq @ d"
    "received ssk = received (s_sock sv)"
    using Circularbuf_drained_stream [OF b(3)] a(3) by simp_all
  show thesis
    by (rule that [where stat_s = stat_s, OF c(1,3,4,5,6,7,8) r k(2-6) b(2) e refl refl])
      (use c r g a b(1) k(1) in \<open>simp add: Connection_fast_forward_cs_def\<close>)
qed

lemma fast_forward_cs_safe:
  assumes ll: "llhttp_ok ll" and w: "world_inv w" and hist: "history_ok (client c)" and act: "fast_active c"
  shows "safe_result (Connection_fast_forward_cs ll w c)"
proof (rule fast_forward_cs_unfold [OF ll hist act, where w = w], goal_cases)
  case (1 p sv sq cq h d stat sk p' ok h' sq2 stat_s ssk c2 sv2)
  have h2: "history_ok (client c2)" using 1 by (simp add: history_ok_def)
  from act 1(2) have c: "fast_mode c" "\<not> in_transition c" "c_read_evt (client c) \<or> s_write_evt sv"
    "s_read_evt sv \<or> c_write_evt (client c)" by (auto simp: fast_active_def)
  have "safe_result (Connection_close_or_reply w c2)"
    using w h2 c 1(5,6,17) by (intro close_or_reply_safe [of _ _ cq]) simp_all
  moreover have "safe_result (Connection_delete w (c2\<lparr>server := Some sv2\<rparr>))"
    using w h2 by (intro delete_safe_result) simp_all
  moreover have "conn_inv (c2\<lparr>server := Some (sv2\<lparr>s_write_evt := True\<rparr>),
      client := (client c2)\<lparr>c_read_evt := False\<rparr>\<rparr>)" "conn_inv (c2\<lparr>server := Some sv2\<rparr>)"
    using h2 c 1(2,5,6,10,14,17,18) by (simp_all add: conn_inv_def fast_active_def)
  ultimately show ?case unfolding 1(19) using w by (simp only: safe_live split: if_split) blast
qed

text \<open>Forwarding from the server.\<close>

lemma fast_forward_sc_unfold:
  assumes hist: "history_ok (client c)" and act: "fast_active c"
  obtains sv cq d stat cq2 and stat_c :: io_stat and sk ssk cl2 sv2 c2 where
    "server c = Some sv" "c_queued_output (client c) = Some cq" "queue_ok cq2"
    "read_all (s_sock sv) (Circularbuf_remaining_space cq) = (d, stat, ssk)"
    "sent sk @ Circularbuf_contents cq2 = sent (c_sock (client c)) @ Circularbuf_contents cq @ d"
    "received sk = received (c_sock (client c))"
    "cl2 = (client c)\<lparr>c_queued_output := Some cq2, c_sock := sk,
       write_count := write_count (client c) + of_nat (nbytes stat_c)\<rparr>"
    "sv2 = sv\<lparr>s_sock := ssk\<rparr>" "c2 = c\<lparr>client := cl2, server := Some sv2\<rparr>"
    "Connection_fast_forward_sc w c =
       (if has_eof stat then Connection_close_or_reply w c2
        else if nbytes stat_c = 0 then
          Inr (w, Live (c2\<lparr>server := Some (sv2\<lparr>s_read_evt := False\<rparr>), client := cl2\<lparr>c_write_evt := True\<rparr>\<rparr>))
        else Inr (w, Live c2))"
proof -
  from act hist obtain p sv sq cq h where c: "server c = Some sv" "c_queued_output (client c) = Some cq" "queue_ok cq"
    by (rule fast_activeE)
  obtain d stat cq1 ssk where a: "Circularbuf_read_all_from cq (s_sock sv) = Inr (stat, cq1, ssk)" "queue_ok cq1"
    "read_all (s_sock sv) (Circularbuf_remaining_space cq) = (d, stat, ssk)"
    "Circularbuf_contents cq1 = Circularbuf_contents cq @ d"
    using queue_fill [OF c(3)] by blast
  obtain stat_c cq2 sk where b: "Circularbuf_write_all_to cq1 (c_sock (client c)) = Inr (stat_c, cq2, sk)" "queue_ok cq2"
    "Circularbuf_drained cq1 (c_sock (client c)) stat_c cq2 sk"
    using queue_drain [OF a(2)] .
  have e: "sent sk @ Circularbuf_contents cq2 = sent (c_sock (client c)) @ Circularbuf_contents cq @ d"
    "received sk = received (c_sock (client c))"
    using Circularbuf_drained_stream [OF b(3)] a(4) by simp_all
  show thesis
    by (rule that [where stat_c = stat_c, OF c(1,2) b(2) a(3) e refl refl refl])
      (use c a b in \<open>simp add: Connection_fast_forward_sc_def Let_def\<close>)
qed

lemma fast_forward_sc_safe:
  assumes w: "world_inv w" and hist: "history_ok (client c)" and act: "fast_active c"
  shows "safe_result (Connection_fast_forward_sc w c)"
proof (rule fast_forward_sc_unfold [OF hist act, where w = w], goal_cases)
  case (1 sv cq d stat cq2 stat_c sk ssk cl2 sv2 c2)
  have "safe_result (Connection_close_or_reply w c2)"
    using w hist act 1(3,7,9) by (intro close_or_reply_safe [of _ _ cq2]) (simp_all add: fast_active_def)
  moreover have "conn_inv (c2\<lparr>server := Some (sv2\<lparr>s_read_evt := False\<rparr>), client := cl2\<lparr>c_write_evt := True\<rparr>\<rparr>)"
    "conn_inv c2"
    using hist act 1(1,3,7-9) by (auto simp: conn_inv_def fast_active_def)
  ultimately show ?case unfolding 1(10) using w by (simp only: safe_live split: if_split) blast
qed

section \<open>Connecting to the server\<close>

lemma Server_new_safe:
  assumes "env_ok env" "world_inv w"
  obtains w' where "Server_new env w = Inr (w', None)" "world_inv w'" "active_count w' = active_count w"
      "connection_count w' = connection_count w"
  | w' where "Server_new env w = Inr (w', Some \<lparr>s_sock = e_server_sock env, s_read_evt = False,
        s_read_timeout = False, s_write_evt = False, s_queued_output = None\<rparr>)" "world_inv w'"
      "active_count w' = active_count w + 1" "connection_count w' = connection_count w"
proof -
  obtain bnd st where b: "bind_loop total_local_addr (bind_ok (e_net env)) (locals (netst w)) = (bnd, st)"
    by (cases "bind_loop total_local_addr (bind_ok (e_net env)) (locals (netst w))")
  have st: "\<exists>j. at_index j st"
    using assms(2) bind_loop_at_index [of _ "locals (netst w)" total_local_addr "bind_ok (e_net env)"] b
    by (auto simp: world_inv_def)
  let ?ns = "(netst w)\<lparr>open_socks := open_socks (netst w) + 1, locals := st\<rparr>"
  have c: "connect_TCP (e_net env) (netst w) = Inr (bnd \<and> connect_ok (e_net env), ?ns)"
    using assms(1) b by (simp add: connect_TCP_def env_ok_def Let_def)
  have wi: "world_inv (w\<lparr>netst := ?ns\<rparr>)" using assms(2) st by (simp add: world_inv_def)
  show thesis
  proof (cases "bnd \<and> connect_ok (e_net env)")
    case True
    with c wi assms(1) show thesis
      by (intro that(2) [of "w\<lparr>netst := ?ns, active_count := active_count w + 1\<rparr>"])
        (simp_all add: Server_new_def env_ok_def)
  next
    case False
    with c wi show thesis by (intro that(1) [of "w\<lparr>netst := ?ns\<rparr>"]) (simp_all add: Server_new_def)
  qed
qed

lemma reply_503_safe:
  assumes "e_503 env \<noteq> None"
  obtains n sk' where "reply_with_503_unavailable (e_503 env) sk = Inr (n, sk')"
proof -
  from assms obtain size f where f: "e_503 env = Some (size, f)" by auto
  let ?h = "reply_503_header size" let ?n = "min (length ?h) SOCK_IO_BUF_SIZE"
  obtain body stat f' where r: "read_all f (SOCK_IO_BUF_SIZE - ?n) = (body, stat, f')"
    by (cases "read_all f (SOCK_IO_BUF_SIZE - ?n)")
  have "length (take ?n ?h @ body) \<le> SOCK_IO_BUF_SIZE"
    using read_all_spec(2,3) [OF r] by simp
  moreover obtain wst sk' where "write_all sk (take ?n ?h @ body) = (wst, sk')"
    by (cases "write_all sk (take ?n ?h @ body)")
  ultimately show thesis using f r that by (simp add: reply_with_503_unavailable_def Let_def)
qed

lemma Client_on_readable_fast_safe:
  assumes ll: "llhttp_ok ll" and env: "env_ok env" and w: "world_inv w" and hist: "history_ok (client c)"
    and mode: "fast_fresh c \<or> fast_active c"
  shows "safe_result (Client_on_readable ll env w c)"
  using mode
proof
  assume "fast_active c"
  with fast_forward_cs_safe [OF ll w hist this] show ?thesis
    by (auto simp: Client_on_readable_def fast_active_def)
next
  assume fresh: "fast_fresh c"
  from env w show ?thesis
  proof (cases rule: Server_new_safe)
    case (1 w')
    obtain n sk where "reply_with_503_unavailable (e_503 env) (c_sock (client c)) = Inr (n, sk)"
      using env reply_503_safe unfolding env_ok_def by blast
    with 1 fresh hist show ?thesis
      by (simp add: Client_on_readable_def fast_fresh_def delete_safe_result)
  next
    case (2 w')
    with fresh hist show ?thesis
      by (auto simp: Client_on_readable_def fast_fresh_def fast_active_def
          intro!: fast_forward_cs_safe [OF ll])
  qed
qed

end
