(* ===== verification/Slowmode.thy ===== *)
theory Slowmode
  imports Invariants
begin

text \<open>
  Slow mode keeps the invariant: the transfers through the request and response files, the
  switch to slow mode, and with them every handler of a connection.  The one handler that can
  end in a fault is \<open>Server_on_writable\<close> during the transition; when it does is stated exactly.
\<close>

section \<open>Request and response files\<close>

lemma file_wf_write:
  assumes "file_wf fb"
  obtains fb' where "Filebuf_file_write fb d = Inr fb'" "file_wf fb'"
    "content fb' = file_put (content fb) (fd_pos fb) d" "fd_pos fb' = fd_pos fb + length d"
proof (cases "d = []")
  case True
  then have "Filebuf_file_write fb d = Inr fb"
    by (cases fb) (simp add: Filebuf_file_write_def eval_nat_numeral)
  with assms that True show thesis by (simp add: file_put_def file_wf_def)
next
  case False
  from assms Filebuf_write_loop_healthy [OF _ False, of fb 8] that show thesis
    by (simp add: Filebuf_file_write_def file_wf_def healthy_def length_file_put)
qed

lemma file_wf_read:
  assumes "file_wf fb"
  obtains d fb' where "Filebuf_file_read fb n = Inr (int (length d), d, fb')" "file_wf fb'"
    "length d \<le> n" "fd_pos fb' = fd_pos fb + length d" "content fb' = content fb"
    "d = take n (drop (fd_pos fb) (content fb))"
  using assms by (auto simp: Filebuf_file_read_def file_read_at_healthy file_wf_def healthy_def)

lemma file_wf_rewind:
  assumes "file_wf fb" "amt \<le> fd_pos fb"
  obtains fb' where "Filebuf_file_rewind fb amt = Inr fb'" "file_wf fb'" "content fb' = content fb"
    "fd_pos fb' = (if amt = 0 then 0 else fd_pos fb - amt)"
  using assms by (cases "amt = 0") (auto simp: Filebuf_file_rewind_def file_wf_def healthy_def)

lemma file_wf_clear:
  assumes "file_wf fb"
  obtains fb' where "Filebuf_clear Filebuf_vt fb = Inr fb'" "file_wf fb'" "content fb' = []"
  using assms
  by (auto simp: Filebuf_clear_healthy file_wf_def Filebuf_vt_def Filebuf_file_rewind_def healthy_def)

lemma Filebuf_inv_wf: "Filebuf_inv fb \<Longrightarrow> file_wf fb"
  by (simp add: Filebuf_inv_def file_wf_def)

lemma response_store:
  assumes "response_ok pb"
  obtains pb' where "vt_store FIFOfilebuf_vt pb d = Inr pb'" "response_ok pb'"
    "content pb' = content pb @ d" "reader_pos pb' = reader_pos pb"
  using assms ff.store_law [of pb d] ff.store_keeps_cursor [of pb d] by (auto simp: response_ok_def)

text \<open>A fetch of which \<open>m\<close> bytes were used, the others being put back.\<close>

lemma response_fetch:
  assumes "response_ok pb" "0 < n"
  obtains d pb1 where "vt_fetch FIFOfilebuf_vt pb n = Inr (int (length d), d, pb1)" "response_ok pb1"
    "length d \<le> n" "content pb1 = content pb" "reader_pos pb1 = reader_pos pb + length d"
    "d = take (length d) (drop (reader_pos pb) (content pb))"
    "d = [] \<longleftrightarrow> reader_pos pb = length (content pb)"
    "\<And>m. m < length d \<Longrightarrow> \<exists>pb2. vt_rewind FIFOfilebuf_vt pb1 (length d - m) = Inr pb2 \<and> response_ok pb2
       \<and> content pb2 = content pb \<and> reader_pos pb2 = reader_pos pb + m"
proof -
  from assms have i: "FIFOfilebuf_inv pb" "Filebuf_appendable pb" by (simp_all add: response_ok_def)
  from ff.fetch_law [OF i(1) assms(2)] obtain d pb1 where
    f: "vt_fetch FIFOfilebuf_vt pb n = Inr (int (length d), d, pb1)" "FIFOfilebuf_inv pb1"
      "content pb1 = content pb" "reader_pos pb1 = reader_pos pb + length d"
      "d = take (length d) (drop (reader_pos pb) (content pb))" "length d \<le> n"
      "d = [] \<longleftrightarrow> reader_pos pb = length (content pb)" by blast
  have a: "Filebuf_appendable pb1" using ff.fetch_keeps_appendable [OF i f(1)] .
  have "\<exists>pb2. vt_rewind FIFOfilebuf_vt pb1 (length d - m) = Inr pb2 \<and> response_ok pb2
       \<and> content pb2 = content pb \<and> reader_pos pb2 = reader_pos pb + m" if m: "m < length d" for m
  proof -
    obtain pb2 where r: "vt_rewind FIFOfilebuf_vt pb1 (length d - m) = Inr pb2" "FIFOfilebuf_inv pb2"
      "content pb2 = content pb" "reader_pos pb2 = reader_pos pb + m"
      using ff.fetch_put_back [OF i(1) f(1) assms(2) m] by blast
    have "Filebuf_appendable pb2" using ff.back_keeps_appendable [OF f(2) a _ r(1)] m by simp
    with r show ?thesis by (auto simp: response_ok_def)
  qed
  with f a that show thesis by (simp add: response_ok_def)
qed

lemma file_wf_send:
  assumes "file_wf fb"
  obtains d fb1 where "vt_fetch Filebuf_vt fb n = Inr (int (length d), d, fb1)" "file_wf fb1"
    "length d \<le> n" "content fb1 = content fb" "fd_pos fb1 = fd_pos fb + length d"
    "d = take n (drop (fd_pos fb) (content fb))"
    "\<And>m. m < length d \<Longrightarrow> \<exists>fb2. vt_rewind Filebuf_vt fb1 (length d - m) = Inr fb2 \<and> file_wf fb2
       \<and> content fb2 = content fb \<and> fd_pos fb2 = fd_pos fb + m"
proof -
  obtain d fb1 where f: "Filebuf_file_read fb n = Inr (int (length d), d, fb1)" "file_wf fb1"
    "length d \<le> n" "fd_pos fb1 = fd_pos fb + length d" "content fb1 = content fb"
    "d = take n (drop (fd_pos fb) (content fb))"
    using file_wf_read [OF assms] .
  have "\<exists>fb2. Filebuf_file_rewind fb1 (length d - m) = Inr fb2 \<and> file_wf fb2
       \<and> content fb2 = content fb \<and> fd_pos fb2 = fd_pos fb + m" if m: "m < length d" for m
  proof -
    have "length d - m \<le> fd_pos fb1" using f(4) by simp
    then obtain fb2 where "Filebuf_file_rewind fb1 (length d - m) = Inr fb2" "file_wf fb2"
      "content fb2 = content fb1" "fd_pos fb2 = (if length d - m = 0 then 0 else fd_pos fb1 - (length d - m))"
      using file_wf_rewind [OF f(2)] by blast
    with f m show ?thesis by auto
  qed
  with f that show thesis by (simp add: Filebuf_vt_def)
qed

section \<open>Sending a response slowly\<close>

definition slow_conn :: "'p connection \<Rightarrow> bool" where
  "slow_conn c \<longleftrightarrow> slow_transition c \<or> slow_receiving c \<or> slow_serving c \<or> slow_reply c"

lemma slow_connE:
  assumes "slow_conn c"
  obtains rb tb pb where "\<not> fast_mode c" "request_buf (client c) = Some rb" "file_wf rb"
    "request_tmp_buf (client c) = Some tb" "file_wf tb" "response_buf (client c) = Some pb" "response_ok pb"
  using assms by (auto simp: slow_conn_def mode_defs slow_buffers_ok_def)

lemma slow_conn_inv: "conn_inv c \<and> \<not> fast_mode c \<longleftrightarrow> history_ok (client c) \<and> slow_conn c"
proof -
  have "fast_fresh c \<or> fast_active c \<or> fast_reply c \<Longrightarrow> fast_mode c"
    by (auto simp: fast_fresh_def fast_active_def fast_reply_def)
  moreover have "slow_conn c \<Longrightarrow> \<not> fast_mode c" by (erule slow_connE)
  ultimately show ?thesis by (auto simp only: conn_inv_def slow_conn_def)
qed

text \<open>The mode of a connection does not depend on what its buffers hold.\<close>

lemma slow_buffers_response:
  "slow_buffers_ok cl \<Longrightarrow> response_ok pb \<Longrightarrow> slow_buffers_ok (cl\<lparr>c_sock := sk, response_buf := Some pb\<rparr>)"
  "slow_buffers_ok cl \<Longrightarrow> response_ok pb \<Longrightarrow> slow_buffers_ok (cl\<lparr>response_buf := Some pb, c_write_evt := b\<rparr>)"
  by (auto simp: slow_buffers_ok_def)

lemma slow_conn_response:
  "slow_conn c \<Longrightarrow> response_ok pb \<Longrightarrow>
   slow_conn (c\<lparr>client := (client c)\<lparr>c_sock := sk, response_buf := Some pb\<rparr>\<rparr>)"
  unfolding slow_conn_def by (elim disjE) (simp_all add: mode_defs slow_buffers_response)

lemma slow_conn_stop_writing:
  "slow_conn c \<Longrightarrow> response_ok pb \<Longrightarrow> parser c \<noteq> None \<Longrightarrow>
   slow_conn (c\<lparr>client := (client c)\<lparr>response_buf := Some pb, c_write_evt := False\<rparr>\<rparr>)"
  unfolding slow_conn_def by (elim disjE) (simp_all add: mode_defs slow_buffers_response)

lemma send_response_unfold:
  assumes slow: "slow_conn c"
  obtains pb and d :: "char list" and pb1 and sk :: sock and pb2 c1 where "response_buf (client c) = Some pb" "response_ok pb1" "response_ok pb2"
    "content pb1 = content pb" "d = [] \<longleftrightarrow> reader_pos pb = length (content pb)" "reader_pos pb1 = reader_pos pb + length d"
    "content pb2 = content pb" "received sk = received (c_sock (client c))"
    "sent sk @ drop (reader_pos pb2) (content pb2) = sent (c_sock (client c)) @ drop (reader_pos pb) (content pb)"
    "c1 = c\<lparr>client := (client c)\<lparr>response_buf := Some pb1, c_write_evt := False\<rparr>\<rparr>"
    "Client_send_response_slowly w c =
       (if d = [] then if parser c1 = None then Connection_delete w c1 else Inr (w, Live c1)
        else Inr (w, Live (c\<lparr>client := (client c)\<lparr>c_sock := sk, response_buf := Some pb2\<rparr>\<rparr>)))"
    "d = take (length d) (drop (reader_pos pb) (content pb))" "sk = snd (write_all (c_sock (client c)) d)"
proof -
  from slow obtain rb tb pb where c: "response_buf (client c) = Some pb" "response_ok pb"
    by (rule slow_connE)
  obtain d pb1 where f: "vt_fetch FIFOfilebuf_vt pb SOCK_IO_BUF_SIZE = Inr (int (length d), d, pb1)"
    "response_ok pb1" "length d \<le> SOCK_IO_BUF_SIZE" "content pb1 = content pb" "reader_pos pb1 = reader_pos pb + length d"
    "d = take (length d) (drop (reader_pos pb) (content pb))" "d = [] \<longleftrightarrow> reader_pos pb = length (content pb)"
    "\<And>m. m < length d \<Longrightarrow> \<exists>pb2. vt_rewind FIFOfilebuf_vt pb1 (length d - m) = Inr pb2 \<and> response_ok pb2
       \<and> content pb2 = content pb \<and> reader_pos pb2 = reader_pos pb + m"
    by (rule response_fetch [OF c(2) SOCK_IO_BUF_SIZE_pos]) blast
  obtain stat sk where wr: "write_all (c_sock (client c)) d = (stat, sk)"
    by (cases "write_all (c_sock (client c)) d")
  note ws = write_all_spec [OF wr]
  obtain pb2 where r: "(if nbytes stat < length d then vt_rewind FIFOfilebuf_vt pb1 (length d - nbytes stat)
      else Inr pb1) = Inr pb2" "response_ok pb2" "content pb2 = content pb" "reader_pos pb2 = reader_pos pb + nbytes stat"
    using f(2,4,5,8) ws(2) by (cases "nbytes stat < length d") auto
  have "take (nbytes stat) d @ drop (reader_pos pb + nbytes stat) (content pb) = drop (reader_pos pb) (content pb)"
    using take_prefix_append_drop [OF f(6) ws(2)] .
  then have st: "sent sk @ drop (reader_pos pb2) (content pb2) = sent (c_sock (client c)) @ drop (reader_pos pb) (content pb)"
    using ws(1) r(3,4) by simp
  let ?c1 = "c\<lparr>client := (client c)\<lparr>response_buf := Some pb1, c_write_evt := False\<rparr>\<rparr>"
  have eq: "Client_send_response_slowly w c =
       (if d = [] then if parser ?c1 = None then Connection_delete w ?c1 else Inr (w, Live ?c1)
        else Inr (w, Live (c\<lparr>client := (client c)\<lparr>c_sock := sk, response_buf := Some pb2\<rparr>\<rparr>)))"
    using c f(1,3) wr r(1) by (auto simp: Client_send_response_slowly_def Let_def split: if_splits)
  show thesis by (rule that [OF c(1) f(2) r(2) f(4,7,5) r(3) ws(5) st refl eq f(6)]) (simp add: wr)
qed

lemma Client_send_response_slowly_safe:
  assumes w: "world_inv w" and hist: "history_ok (client c)" and slow: "slow_conn c"
  shows "safe_result (Client_send_response_slowly w c)"
proof (rule send_response_unfold [OF slow, where w = w], goal_cases)
  case (1 pb d pb1 sk pb2 c1)
  have "safe_result (Connection_delete w c1)" using w hist 1(10) by (intro delete_safe_result) simp_all
  moreover have "parser c \<noteq> None \<Longrightarrow> conn_inv c1"
    using slow_conn_stop_writing [OF slow 1(2)] hist slow_conn_inv [of c1] 1(10) by simp
  moreover have "conn_inv (c\<lparr>client := (client c)\<lparr>c_sock := sk, response_buf := Some pb2\<rparr>\<rparr>)"
    using hist slow_conn_response [OF slow 1(3)] slow_conn_inv by fastforce
  ultimately show ?case using w 1(10) by (simp add: 1(11) safe_live)
qed

section \<open>Receiving a request slowly\<close>

lemma slow_receiving_store:
  assumes "slow_receiving c" "file_wf rb" "HttpParser_inv p"
  shows "slow_receiving (c\<lparr>client := (client c)\<lparr>c_sock := sk, request_buf := Some rb\<rparr>, parser := Some p\<rparr>)"
  using assms by (auto simp: slow_receiving_def slow_buffers_ok_def)

text \<open>The three ways on from a chunk of a request: an error, a complete request, more to come.\<close>

lemma recv_slowly_malformed:
  assumes w: "world_inv w" and hist: "history_ok (client c)" and recv: "slow_receiving c"
    and r: "read_all (c_sock (client c)) SOCK_IO_BUF_SIZE = (d, stat, sk)" "\<not> has_eof stat"
    and p: "parser c = Some p" "HttpParser_do_parse ll p d = (p1, False)"
  shows "safe_result (Client_recv_to_buffer_slowly ll env w c)"
proof -
  have g: "length d \<le> SOCK_IO_BUF_SIZE" using read_all_spec(2,3) [OF r(1)] by simp
  from recv obtain pb where c: "server c = None" "\<not> fast_mode c" "\<not> in_transition c"
    "response_buf (client c) = Some pb" "slow_buffers_ok (client c)"
    by (auto simp: slow_receiving_def slow_buffers_ok_def)
  let ?c = "Connection_free_parser (c\<lparr>client := (client c)\<lparr>c_sock := sk\<rparr>\<rparr>)"
  have eq: "Client_recv_to_buffer_slowly ll env w c =
      (if data_size pb > 0 then Inr (w, Live (?c\<lparr>client := Client_set_reply_only_mode (client ?c)\<rparr>))
       else Connection_delete w ?c)"
    using r p g c by (simp add: Client_recv_to_buffer_slowly_def Connection_free_parser_def)
  have "safe_result (Connection_delete w ?c)"
    using w hist by (intro delete_safe_result) (simp_all add: Connection_free_parser_def)
  moreover have "conn_inv (?c\<lparr>client := Client_set_reply_only_mode (client ?c)\<rparr>)"
    using hist c
    by (simp add: conn_inv_def slow_reply_def Connection_free_parser_def client_ops slow_buffers_ok_def)
  ultimately show ?thesis unfolding eq using w by (simp add: safe_live)
qed

lemma recv_slowly_complete_unfold:
  assumes ll: "llhttp_ok ll" and recv: "slow_receiving c"
    and r: "read_all (c_sock (client c)) SOCK_IO_BUF_SIZE = (d, stat, sk)" "\<not> has_eof stat"
    and p: "parser c = Some p" "HttpParser_inv p" "HttpParser_do_parse ll p d = (p1, True)" "eom_first p1 = Some k"
  obtains rb tb rb2 tb1 cl2 c2 where "request_buf (client c) = Some rb" "request_tmp_buf (client c) = Some tb"
    "file_wf rb2" "content rb2 = file_put (content rb) (fd_pos rb) (take k d)" "fd_pos rb2 = 0"
    "file_wf tb1" "content tb1 = file_put (content tb) (fd_pos tb) (drop k d)" "fd_pos tb1 = fd_pos tb + (length d - k)"
    "cl2 = Client_pause_r ((client c)\<lparr>c_sock := sk, request_buf := Some rb2, request_tmp_buf := Some tb1\<rparr>)"
    "c2 = c\<lparr>client := cl2, parser := Some (HttpParser_switch_to_response_mode ll p1)\<rparr>"
    "Client_recv_to_buffer_slowly ll env w c =
      bindE (Server_new env w) (\<lambda>(w1, sv). case sv of
         None \<Rightarrow> bindE (reply_with_503_unavailable (e_503 env) (c_sock cl2)) (\<lambda>(_, sk').
                   Connection_delete w1 (c2\<lparr>client := cl2\<lparr>c_sock := sk'\<rparr>\<rparr>))
       | Some s \<Rightarrow> Inr (w1, Live (c2\<lparr>server := Some (s\<lparr>s_write_evt := True, s_read_evt := True\<rparr>)\<rparr>)))"
proof -
  have g: "length d \<le> SOCK_IO_BUF_SIZE" "length d = nbytes stat" using read_all_spec(2,3) [OF r(1)] by simp_all
  have k: "k \<le> length d" using HttpParser_do_parse_bounds(1) [OF ll p(2,3,4)] .
  from recv obtain rb tb where c: "request_buf (client c) = Some rb" "file_wf rb"
    "request_tmp_buf (client c) = Some tb" "file_wf tb"
    by (auto simp: slow_receiving_def slow_buffers_ok_def)
  obtain rb1 where s1: "Filebuf_file_write rb (take k d) = Inr rb1" "file_wf rb1"
    "content rb1 = file_put (content rb) (fd_pos rb) (take k d)" using file_wf_write [OF c(2)] .
  obtain rb2 where s2: "Filebuf_file_rewind rb1 0 = Inr rb2" "file_wf rb2" "content rb2 = content rb1" "fd_pos rb2 = 0"
    using file_wf_rewind [OF s1(2), of 0] by auto
  obtain tb0 where s0: "Filebuf_file_write tb (drop k d) = Inr tb0" "file_wf tb0"
    "content tb0 = file_put (content tb) (fd_pos tb) (drop k d)" "fd_pos tb0 = fd_pos tb + length (drop k d)"
    using file_wf_write [OF c(4)] .
  let ?tb = "if nbytes stat - k > 0 then tb0 else tb"
  have s3: "(if nbytes stat - k > 0 then
       bindE (Filebuf_file_write tb (drop k d)) (\<lambda>tb1. Inr (Some tb1)) else Inr (Some tb)) = Inr (Some ?tb)"
    using s0(1) by simp
  have s4: "file_wf ?tb" "content ?tb = file_put (content tb) (fd_pos tb) (drop k d)" "fd_pos ?tb = fd_pos tb + (length d - k)"
    using s0 c(4) g(2) k by (auto simp: file_put_def file_wf_def)
  show thesis
    by (rule that [OF c(1,3) s2(2) _ s2(4) s4 refl refl])
      (use s1 s2 r p(1,3,4) g k c(1,3) s3 in \<open>auto simp: Client_recv_to_buffer_slowly_def Filebuf_vt_def Let_def split: if_splits\<close>)
qed

lemma recv_slowly_complete:
  assumes ll: "llhttp_ok ll" and env: "env_ok env" and w: "world_inv w" and hist: "history_ok (client c)"
    and recv: "slow_receiving c"
    and r: "read_all (c_sock (client c)) SOCK_IO_BUF_SIZE = (d, stat, sk)" "\<not> has_eof stat"
    and p: "parser c = Some p" "HttpParser_inv p" "HttpParser_do_parse ll p d = (p1, True)" "eom_first p1 = Some k"
  shows "safe_result (Client_recv_to_buffer_slowly ll env w c)"
proof (rule recv_slowly_complete_unfold [OF ll recv r p, where w = w and env = env], goal_cases)
  case (1 rb tb rb2 tb1 cl2 c2)
  have h: "history_ok cl2" using hist 1(9) by (simp add: client_ops)
  from recv obtain pb where c: "\<not> fast_mode c" "\<not> in_transition c" "response_buf (client c) = Some pb" "response_ok pb"
    by (auto simp: slow_receiving_def slow_buffers_ok_def)
  from env w show ?case
  proof (cases rule: Server_new_safe)
    case s: (1 w')
    obtain n sk' where "reply_with_503_unavailable (e_503 env) (c_sock cl2) = Inr (n, sk')"
      using env reply_503_safe unfolding env_ok_def by blast
    with s h show ?thesis unfolding 1(11) by (simp add: delete_safe_result)
  next
    case s: (2 w')
    have "slow_serving (c2\<lparr>server := Some \<lparr>s_sock = e_server_sock env, s_read_evt = True, s_read_timeout = False,
        s_write_evt = True, s_queued_output = None\<rparr>\<rparr>)"
      using c 1(3,6,9,10) by (simp add: slow_serving_def slow_buffers_ok_def client_ops)
    with s h 1(10) show ?thesis unfolding 1(11) by (simp add: safe_live conn_inv_def)
  qed
qed

lemma Client_recv_to_buffer_slowly_safe:
  assumes ll: "llhttp_ok ll" and env: "env_ok env" and w: "world_inv w" and hist: "history_ok (client c)"
    and recv: "slow_receiving c"
  shows "safe_result (Client_recv_to_buffer_slowly ll env w c)"
proof -
  obtain d stat sk where r: "read_all (c_sock (client c)) SOCK_IO_BUF_SIZE = (d, stat, sk)"
    by (cases "read_all (c_sock (client c)) SOCK_IO_BUF_SIZE")
  have g: "length d \<le> SOCK_IO_BUF_SIZE" using read_all_spec(2,3) [OF r] by simp
  from recv obtain p rb where p: "parser c = Some p" "HttpParser_inv p" and rb: "request_buf (client c) = Some rb" "file_wf rb"
    by (auto simp: slow_receiving_def slow_buffers_ok_def)
  obtain p1 ok where pr: "HttpParser_do_parse ll p d = (p1, ok)" by (cases "HttpParser_do_parse ll p d")
  consider "has_eof stat" | "\<not> has_eof stat" "\<not> ok" | k where "\<not> has_eof stat" "ok" "eom_first p1 = Some k"
    | "\<not> has_eof stat" "ok" "eom_first p1 = None" by fastforce
  then show ?thesis
  proof cases
    case 1
    with r g w hist show ?thesis by (simp add: Client_recv_to_buffer_slowly_def delete_safe_result)
  next
    case 2
    with recv_slowly_malformed [OF w hist recv r _ p(1)] pr show ?thesis by simp
  next
    case 3
    with recv_slowly_complete [OF ll env w hist recv r _ p] pr show ?thesis by simp
  next
    case 4
    obtain rb1 where s1: "Filebuf_file_write rb d = Inr rb1" "file_wf rb1" using file_wf_write [OF rb(2)] .
    let ?c = "c\<lparr>client := (client c)\<lparr>c_sock := sk, request_buf := Some rb1\<rparr>, parser := Some p1\<rparr>"
    have "Client_recv_to_buffer_slowly ll env w c = Inr (w, Live ?c)"
      using 4 r g p(1) pr rb(1) s1(1) by (simp add: Client_recv_to_buffer_slowly_def Filebuf_vt_def)
    moreover have "conn_inv ?c"
      using slow_receiving_store [OF recv s1(2) HttpParser_do_parse_inv [OF pr p(2)]] hist
      by (simp add: conn_inv_def)
    ultimately show ?thesis using w by (simp add: safe_live)
  qed
qed

section \<open>The server's side\<close>

lemma server_recv_unfold:
  assumes serv: "slow_serving c"
  obtains sv pb pb1 d and stat :: io_stat and ssk :: sock and p p1 ok c1 w2 c2 c3 where "server c = Some sv" "response_buf (client c) = Some pb"
    "response_ok pb1" "content pb1 = content pb @ d" "reader_pos pb1 = reader_pos pb"
    "received ssk = received (s_sock sv) @ d" "sent ssk = sent (s_sock sv)" "parser c = Some p" "HttpParser_inv p1"
    "HttpParser_do_parse ll p d = (p1, ok)"
    "c1 = c\<lparr>server := Some (sv\<lparr>s_sock := ssk\<rparr>), client := Client_start_writing ((client c)\<lparr>response_buf := Some pb1\<rparr>)\<rparr>"
    "(w2, c2) = Connection_free_server w c1" "c3 = Connection_free_parser c2"
    "Server_recv_to_buffer_slowly ll w c =
      (if \<not> ok then
         if data_size pb1 > 0 then Inr (w2, Live (c3\<lparr>client := Client_set_reply_only_mode (client c3)\<rparr>))
         else Connection_delete w2 c3
       else if has_eof stat \<or> eom_last p1 \<noteq> None then
         Inr (w2, Live (c2\<lparr>parser := Some (HttpParser_switch_to_request_mode ll p1), client := Client_resume_r (client c2)\<rparr>))
       else Inr (w, Live (c1\<lparr>parser := Some p1\<rparr>)))"
proof -
  from serv obtain sv p pb where c: "\<not> fast_mode c" "\<not> in_transition c" "server c = Some sv" "s_read_evt sv"
    "parser c = Some p" "HttpParser_inv p" "response_buf (client c) = Some pb" "response_ok pb"
    by (auto simp: slow_serving_def slow_buffers_ok_def)
  obtain d stat ssk where r: "read_all (s_sock sv) SOCK_IO_BUF_SIZE = (d, stat, ssk)"
    by (cases "read_all (s_sock sv) SOCK_IO_BUF_SIZE")
  note rs = read_all_spec [OF r]
  have g: "length d \<le> SOCK_IO_BUF_SIZE" using rs(2,3) by simp
  obtain pb1 where s: "vt_store FIFOfilebuf_vt pb d = Inr pb1" "response_ok pb1"
    "content pb1 = content pb @ d" "reader_pos pb1 = reader_pos pb"
    using response_store [OF c(8)] .
  obtain p1 ok where pr: "HttpParser_do_parse ll p d = (p1, ok)" by (cases "HttpParser_do_parse ll p d")
  let ?c1 = "c\<lparr>server := Some (sv\<lparr>s_sock := ssk\<rparr>), client := Client_start_writing ((client c)\<lparr>response_buf := Some pb1\<rparr>)\<rparr>"
  obtain w2 c2 where f: "(w2, c2) = Connection_free_server w ?c1" by (metis surj_pair)
  show thesis
    by (rule that [where stat = stat, OF c(3,7) s(2-4) rs(1,6) c(5) HttpParser_do_parse_inv [OF pr c(6)] pr refl f refl])
      (use c r g s(1) pr f [symmetric] in \<open>simp add: Server_recv_to_buffer_slowly_def Let_def\<close>)
qed

lemma Server_recv_to_buffer_slowly_safe:
  assumes w: "world_inv w" and hist: "history_ok (client c)" and serv: "slow_serving c"
  shows "safe_result (Server_recv_to_buffer_slowly ll w c)"
proof (rule server_recv_unfold [OF serv, where w = w and ll = ll], goal_cases)
  case (1 sv pb pb1 d stat ssk p p1 ok c1 w2 c2 c3)
  from serv 1(1) have c: "\<not> fast_mode c" "\<not> in_transition c" "s_read_evt sv" "slow_buffers_ok (client c)"
    "\<not> c_read_evt (client c)" by (auto simp: slow_serving_def)
  from 1(12) have f: "w2 = fst (Connection_free_server w c1)" "c2 = snd (Connection_free_server w c1)"
    by (metis fst_conv, metis snd_conv)
  have h: "history_ok (client c1)" "slow_buffers_ok (client c1)"
    using hist c 1(3,11) by (auto simp: client_ops slow_buffers_ok_def)
  have "safe_result (Connection_delete w2 c3)"
    using w h 1(13) f by (intro delete_safe_result) (simp_all add: Connection_free_parser_def)
  moreover have "conn_inv (c3\<lparr>client := Client_set_reply_only_mode (client c3)\<rparr>)"
    "conn_inv (c2\<lparr>parser := Some (HttpParser_switch_to_request_mode ll p1), client := Client_resume_r (client c2)\<rparr>)"
    "conn_inv (c1\<lparr>parser := Some p1\<rparr>)"
    using h c 1(9,11,13) f
    by (simp_all add: conn_inv_def slow_reply_def slow_receiving_def slow_serving_def
        Connection_free_parser_def client_ops slow_buffers_ok_def)
  moreover have "world_inv w2" using w f by simp
  ultimately show ?case unfolding 1(14) using w by (simp only: safe_live split: if_split) blast
qed

lemma slow_serving_update:
  assumes "slow_serving c" "s_read_evt sv'" "slow_buffers_ok cl'" "\<not> c_read_evt cl'"
  shows "slow_serving (c\<lparr>server := Some sv', client := cl'\<rparr>)"
  using assms by (auto simp: slow_serving_def)

lemma send_request_unfold:
  assumes serv: "slow_serving c"
  obtains sv rb tb d rb2 and ssk :: sock and rb3 where "server c = Some sv" "request_buf (client c) = Some rb" "file_wf rb"
    "request_tmp_buf (client c) = Some tb" "file_wf tb"
    "d = take SOCK_IO_BUF_SIZE (drop (fd_pos rb) (content rb))"
    "file_wf rb2" "content rb2 = []" "file_wf rb3" "content rb3 = content rb" "received ssk = received (s_sock sv)"
    "sent ssk @ drop (fd_pos rb3) (content rb3) = sent (s_sock sv) @ drop (fd_pos rb) (content rb)"
    "Server_send_request_slowly w c =
       (if d = [] then Inr (w, Live (c\<lparr>server := Some (sv\<lparr>s_write_evt := False\<rparr>),
          client := (client c)\<lparr>request_buf := Some tb, request_tmp_buf := Some rb2\<rparr>\<rparr>))
        else Inr (w, Live (c\<lparr>server := Some (sv\<lparr>s_sock := ssk\<rparr>), client := (client c)\<lparr>request_buf := Some rb3\<rparr>\<rparr>)))"
    "ssk = snd (write_all (s_sock sv) d)"
proof -
  from serv obtain sv rb tb where c: "server c = Some sv" "request_buf (client c) = Some rb" "file_wf rb"
    "request_tmp_buf (client c) = Some tb" "file_wf tb"
    by (auto simp: slow_serving_def slow_buffers_ok_def)
  obtain d rb1 where f: "vt_fetch Filebuf_vt rb SOCK_IO_BUF_SIZE = Inr (int (length d), d, rb1)" "file_wf rb1"
    "length d \<le> SOCK_IO_BUF_SIZE" "content rb1 = content rb" "fd_pos rb1 = fd_pos rb + length d"
    "d = take SOCK_IO_BUF_SIZE (drop (fd_pos rb) (content rb))"
    "\<And>m. m < length d \<Longrightarrow> \<exists>fb2. vt_rewind Filebuf_vt rb1 (length d - m) = Inr fb2 \<and> file_wf fb2
       \<and> content fb2 = content rb \<and> fd_pos fb2 = fd_pos rb + m"
    by (rule file_wf_send [OF c(3)]) blast
  obtain rb2 where k: "Filebuf_clear Filebuf_vt rb1 = Inr rb2" "file_wf rb2" "content rb2 = []"
    using file_wf_clear [OF f(2)] .
  obtain stat ssk where wr: "write_all (s_sock sv) d = (stat, ssk)" by (cases "write_all (s_sock sv) d")
  note ws = write_all_spec [OF wr]
  obtain rb3 where r: "(if nbytes stat < length d then vt_rewind Filebuf_vt rb1 (length d - nbytes stat)
      else Inr rb1) = Inr rb3" "file_wf rb3" "content rb3 = content rb" "fd_pos rb3 = fd_pos rb + nbytes stat"
    using f(2,4,5,7) ws(2) by (cases "nbytes stat < length d") auto
  have "d = take (length d) (drop (fd_pos rb) (content rb))" unfolding f(6) by simp
  then have "take (nbytes stat) d @ drop (fd_pos rb + nbytes stat) (content rb) = drop (fd_pos rb) (content rb)"
    using ws(2) by (rule take_prefix_append_drop)
  then have st: "sent ssk @ drop (fd_pos rb3) (content rb3) = sent (s_sock sv) @ drop (fd_pos rb) (content rb)"
    using ws(1) r(3,4) by simp
  show thesis
    by (rule that [OF c f(6) k(2,3) r(2,3) ws(5) st])
      (use c f(1,3) wr k(1) r(1) in \<open>auto simp: Server_send_request_slowly_def split: if_splits\<close>)
qed

lemma Server_send_request_slowly_safe:
  assumes w: "world_inv w" and hist: "history_ok (client c)" and serv: "slow_serving c"
  shows "safe_result (Server_send_request_slowly w c)"
proof (rule send_request_unfold [OF serv, where w = w], goal_cases)
  case (1 sv rb tb d rb2 ssk rb3)
  from serv 1(1) have s: "s_read_evt sv" "\<not> c_read_evt (client c)" by (auto simp: slow_serving_def)
  have "slow_serving (c\<lparr>server := Some (sv\<lparr>s_write_evt := False\<rparr>),
      client := (client c)\<lparr>request_buf := Some tb, request_tmp_buf := Some rb2\<rparr>\<rparr>)"
    "slow_serving (c\<lparr>server := Some (sv\<lparr>s_sock := ssk\<rparr>), client := (client c)\<lparr>request_buf := Some rb3\<rparr>\<rparr>)"
    using serv s 1(5,7,9) by (auto intro!: slow_serving_update simp: slow_buffers_ok_def slow_serving_def)
  then show ?case unfolding 1(13) using w hist by (simp add: safe_live conn_inv_def)
qed

text \<open>The end of the transition: the server is closed and the client resumed.\<close>

lemma transition_end_safe:
  assumes w: "world_inv w" and hist: "history_ok (client c)" and trans: "slow_transition c"
    and c': "client c' = client c" "parser c' = parser c" "fast_mode c' = fast_mode c"
  shows "safe_result (case Connection_free_server w (Connection_set_transition_done c') of (w1, c1) \<Rightarrow>
      Inr (w1, Live (c1\<lparr>client := Client_resume_r (client c1)\<rparr>)))"
  using assms
  by (auto simp: case_prod_beta safe_live conn_inv_def slow_transition_def slow_receiving_def
      Connection_set_transition_done_def client_ops slow_buffers_ok_def)

lemma Server_on_readable_transition_safe:
  assumes w: "world_inv w" and hist: "history_ok (client c)" and trans: "slow_transition c"
  shows "safe_result (Server_on_readable ll timed_out w c)"
proof -
  from trans obtain sv p pb where c: "\<not> fast_mode c" "in_transition c" "server c = Some sv" "s_read_evt sv"
    "s_read_timeout sv" "parser c = Some p" "HttpParser_inv p" "response_buf (client c) = Some pb" "response_ok pb"
    by (auto simp: slow_transition_def slow_buffers_ok_def)
  obtain d stat ssk where r: "read_all (s_sock sv) SOCK_IO_BUF_SIZE = (d, stat, ssk)"
    by (cases "read_all (s_sock sv) SOCK_IO_BUF_SIZE")
  have g: "length d \<le> SOCK_IO_BUF_SIZE" using read_all_spec(2,3) [OF r] by simp
  consider "timed_out" | "\<not> timed_out" "has_eof stat" | "\<not> timed_out" "\<not> has_eof stat" by blast
  then show ?thesis
  proof cases
    case 1
    with c transition_end_safe [OF w hist trans, of c] show ?thesis by (simp add: Server_on_readable_def)
  next
    case 2
    with c r g transition_end_safe [OF w hist trans, of "c\<lparr>server := Some (sv\<lparr>s_sock := ssk\<rparr>)\<rparr>"]
    show ?thesis by (simp add: Server_on_readable_def)
  next
    case 3
    obtain pb1 where s: "vt_store FIFOfilebuf_vt pb d = Inr pb1" "response_ok pb1"
      using response_store [OF c(9)] by metis
    with 3 c r g w hist trans show ?thesis
      by (auto simp: Server_on_readable_def safe_live conn_inv_def slow_transition_def client_ops slow_buffers_ok_def)
  qed
qed

section \<open>The handlers\<close>

lemma conn_inv_cases [consumes 1, case_names fresh active reply slow]:
  assumes "conn_inv c"
  obtains "history_ok (client c)" "fast_fresh c" | "history_ok (client c)" "fast_active c"
  | "history_ok (client c)" "fast_reply c" | "history_ok (client c)" "slow_conn c"
  using assms by (auto simp only: conn_inv_def slow_conn_def)

lemma Client_on_readable_safe:
  assumes ll: "llhttp_ok ll" and env: "env_ok env" and w: "world_inv w" and c: "conn_inv c"
    and pending: "c_read_evt (client c)"
  shows "safe_result (Client_on_readable ll env w c)"
  using c
proof (cases rule: conn_inv_cases)
  case fresh
  with Client_on_readable_fast_safe [OF ll env w] show ?thesis by blast
next
  case active
  with Client_on_readable_fast_safe [OF ll env w] show ?thesis by blast
next
  case reply
  with pending show ?thesis by (simp add: fast_reply_def)
next
  case slow
  with pending have r: "slow_receiving c"
    by (auto simp only: slow_conn_def slow_transition_def slow_serving_def slow_reply_def)
  then have "\<not> fast_mode c" by (simp add: slow_receiving_def)
  with Client_recv_to_buffer_slowly_safe [OF ll env w slow(1) r] show ?thesis by (simp add: Client_on_readable_def)
qed

lemma Client_on_writable_active_safe:
  assumes w: "world_inv w" and hist: "history_ok (client c)" and act: "fast_active c"
  shows "safe_result (Client_on_writable w c)"
proof -
  from act hist obtain p sv sq cq h where c: "fast_mode c" "server c = Some sv"
    "c_queued_output (client c) = Some cq" "queue_ok cq"
    by (rule fast_activeE)
  obtain stat cq1 sk where d: "Circularbuf_write_all_to cq (c_sock (client c)) = Inr (stat, cq1, sk)" "queue_ok cq1"
    using queue_drain [OF c(4)] .
  let ?c = "c\<lparr>server := Some (sv\<lparr>s_read_evt := True\<rparr>),
     client := (client c)\<lparr>c_write_evt := False, c_queued_output := Some cq1, c_sock := sk\<rparr>\<rparr>"
  have "Client_on_writable w c = Inr (w, Live ?c)" using c d by (simp add: Client_on_writable_def)
  moreover have "fast_active ?c" using act c d(2) by (auto simp: fast_active_def)
  ultimately show ?thesis using w hist by (simp add: safe_live conn_inv_def)
qed

lemma Client_on_writable_reply_safe:
  assumes w: "world_inv w" and hist: "history_ok (client c)" and rep: "fast_reply c"
  shows "safe_result (Client_on_writable w c)"
proof -
  from rep obtain cq where c: "fast_mode c" "server c = None" "c_queued_output (client c) = Some cq" "queue_ok cq"
    by (auto simp: fast_reply_def)
  obtain stat cq1 sk where d: "Circularbuf_write_all_to cq (c_sock (client c)) = Inr (stat, cq1, sk)" "queue_ok cq1"
    using queue_drain [OF c(4)] .
  let ?c = "c\<lparr>client := (client c)\<lparr>c_queued_output := Some cq1, c_sock := sk\<rparr>\<rparr>"
  have eq: "Client_on_writable w c =
      (if (has_error stat \<and> sock_errno sk \<noteq> EAGAIN \<and> sock_errno sk \<noteq> EINTR) \<or> Circularbuf_data_size cq1 = 0
       then Connection_delete w ?c else Inr (w, Live ?c))"
    using c d by (simp add: Client_on_writable_def Let_def)
  have "safe_result (Connection_delete w ?c)" using w hist by (intro delete_safe_result) simp_all
  moreover have "Circularbuf_data_size cq1 \<noteq> 0 \<Longrightarrow> conn_inv ?c"
    using hist rep d(2) by (auto simp: conn_inv_def fast_reply_def queue_ok_def Circularbuf_data_size_contents)
  ultimately show ?thesis unfolding eq using w by (simp add: safe_live)
qed

lemma Client_on_writable_safe:
  assumes w: "world_inv w" and c: "conn_inv c" and pending: "c_write_evt (client c)"
  shows "safe_result (Client_on_writable w c)"
  using c
proof (cases rule: conn_inv_cases)
  case fresh
  with pending show ?thesis by (simp add: fast_fresh_def)
next
  case active
  with Client_on_writable_active_safe [OF w] show ?thesis by blast
next
  case reply
  with Client_on_writable_reply_safe [OF w] show ?thesis by blast
next
  case slow
  then have "\<not> fast_mode c" by (blast elim: slow_connE)
  with Client_send_response_slowly_safe [OF w slow] show ?thesis by (simp add: Client_on_writable_def)
qed

lemma Server_on_readable_safe:
  assumes w: "world_inv w" and c: "conn_inv c" and pending: "server c = Some sv"
  shows "safe_result (Server_on_readable ll timed_out w c)"
  using c
proof (cases rule: conn_inv_cases)
  case fresh
  with pending show ?thesis by (simp add: fast_fresh_def)
next
  case active
  then have "fast_mode c" by (simp add: fast_active_def)
  with fast_forward_sc_safe [OF w active] show ?thesis by (simp add: Server_on_readable_def)
next
  case reply
  with pending show ?thesis by (simp add: fast_reply_def)
next
  case slow
  with pending consider "slow_transition c" | "slow_serving c"
    by (auto simp only: slow_conn_def slow_receiving_def slow_reply_def)
  then show ?thesis
  proof cases
    case 1
    with Server_on_readable_transition_safe [OF w slow(1)] show ?thesis by blast
  next
    case 2
    then have "\<not> fast_mode c" "\<not> in_transition c" by (simp_all add: slow_serving_def)
    with Server_recv_to_buffer_slowly_safe [OF w slow(1) 2] show ?thesis by (simp add: Server_on_readable_def)
  qed
qed

text \<open>
  During the transition, whether the write empties the server's queue (or finds it gone); this
  is where the handler's log line dereferences the freed queue.
\<close>

definition queue_runs_dry :: "server \<Rightarrow> bool" where
  "queue_runs_dry sv \<longleftrightarrow>
     (case s_queued_output sv of None \<Rightarrow> True
      | Some sq \<Rightarrow> (case Circularbuf_write_all_to sq (s_sock sv) of Inl _ \<Rightarrow> True
                    | Inr (stat, sq', sk) \<Rightarrow> Circularbuf_data_size sq' = 0))"

lemma Server_on_writable_transition:
  assumes w: "world_inv w" and hist: "history_ok (client c)" and trans: "slow_transition c" and sv: "server c = Some sv"
  shows "if queue_runs_dry sv then Server_on_writable w c = Inl NullDeref
         else safe_result (Server_on_writable w c)"
proof (cases "s_queued_output sv")
  case None
  with trans sv show ?thesis by (simp add: queue_runs_dry_def Server_on_writable_def slow_transition_def)
next
  case (Some sq)
  with trans sv have "queue_ok sq" by (auto simp: slow_transition_def)
  then obtain stat sq1 sk where "Circularbuf_write_all_to sq (s_sock sv) = Inr (stat, sq1, sk)" "queue_ok sq1"
    by (rule queue_drain)
  with Some trans sv w hist show ?thesis
    by (auto simp: queue_runs_dry_def Server_on_writable_def slow_transition_def safe_live conn_inv_def)
qed

lemma Server_on_writable_fast_safe:
  assumes w: "world_inv w" and hist: "history_ok (client c)" and act: "fast_active c"
  shows "safe_result (Server_on_writable w c)"
proof -
  from act hist obtain p sv sq cq h where c: "fast_mode c" "server c = Some sv" "s_queued_output sv = Some sq" "queue_ok sq"
    by (rule fast_activeE)
  obtain stat sq1 sk where d: "Circularbuf_write_all_to sq (s_sock sv) = Inr (stat, sq1, sk)" "queue_ok sq1"
    using queue_drain [OF c(4)] .
  let ?c = "c\<lparr>client := (client c)\<lparr>c_read_evt := True\<rparr>,
     server := Some (sv\<lparr>s_write_evt := False, s_sock := sk, s_queued_output := Some sq1\<rparr>)\<rparr>"
  have "Server_on_writable w c = Inr (w, Live ?c)" using c d by (simp add: Server_on_writable_def)
  moreover have "fast_active ?c" using act c d(2) by (auto simp: fast_active_def)
  ultimately show ?thesis using w hist by (simp add: safe_live conn_inv_def)
qed

lemma Server_on_writable_safe:
  assumes w: "world_inv w" and c: "conn_inv c" and pending: "server c = Some sv"
    and wet: "in_transition c \<Longrightarrow> \<not> queue_runs_dry sv"
  shows "safe_result (Server_on_writable w c)"
  using c
proof (cases rule: conn_inv_cases)
  case fresh
  with pending show ?thesis by (simp add: fast_fresh_def)
next
  case active
  with Server_on_writable_fast_safe [OF w] show ?thesis by blast
next
  case reply
  with pending show ?thesis by (simp add: fast_reply_def)
next
  case slow
  with pending consider "slow_transition c" | "slow_serving c"
    by (auto simp only: slow_conn_def slow_receiving_def slow_reply_def)
  then show ?thesis
  proof cases
    case 1
    with wet have "\<not> queue_runs_dry sv" by (simp add: slow_transition_def)
    with Server_on_writable_transition [OF w slow(1) 1 pending] show ?thesis by simp
  next
    case 2
    then have "\<not> fast_mode c" "\<not> in_transition c" by (simp_all add: slow_serving_def)
    with pending Server_send_request_slowly_safe [OF w slow(1) 2] show ?thesis by (simp add: Server_on_writable_def)
  qed
qed

section \<open>The switch to slow mode\<close>

lemma dump_loop_correct:
  assumes "queue_ok cq" "response_ok pb"
  obtains cq' pb' where "dump_loop (Circularbuf_data_size cq) cq pb = Inr (cq', pb')" "response_ok pb'"
    "content pb' = content pb @ Circularbuf_contents cq" "Circularbuf_data_size cq' = 0"
    "reader_pos pb' = reader_pos pb"
proof (cases "Circularbuf_data_size cq")
  case 0
  with assms have "Circularbuf_contents cq = []" by (simp add: queue_ok_def Circularbuf_data_size_contents)
  with 0 assms that show thesis by simp
next
  case (Suc n)
  from assms have "Circularbuf_inv cq" "FIFOfilebuf_inv pb" "Filebuf_appendable pb"
    by (simp_all add: queue_ok_def response_ok_def)
  note i = this
  from ff.dump_to_correct [OF i] obtain cq' pb' where d: "Circularbuf_dump_to FIFOfilebuf_vt cq pb = Inr (cq', pb')"
    "Circularbuf_inv cq'" "Circularbuf_contents cq' = []" "FIFOfilebuf_inv pb'" "Filebuf_appendable pb'"
    "content pb' = content pb @ Circularbuf_contents cq" by blast
  then have "Circularbuf_data_size cq' = 0" by (simp add: Circularbuf_data_size_contents)
  moreover from this have "dump_loop n cq' pb' = Inr (cq', pb')" by (cases n) simp_all
  moreover have "reader_pos pb' = reader_pos pb" using ff.dump_to_keeps_cursor [OF i(2,3) d(1)] .
  ultimately show thesis using Suc d that by (simp add: response_ok_def)
qed

text \<open>The three new files of a slow-mode connection.\<close>

definition new_file :: filebuf where
  "new_file = \<lparr>data_size = 0, content = [], fd_pos = 0, d_write = [], d_read = [], d_trunc = [], fb_errno = EOTHER 0\<rparr>"

definition new_response :: fifofilebuf where
  "new_response = \<lparr>data_size = 0, content = [], fd_pos = 0, d_write = [], d_read = [], d_trunc = [],
     fb_errno = EOTHER 0, reader_pos = 0\<rparr>"

lemma new_files [simp]:
  "Filebuf_new (Some healthy_disk) = Inr new_file"
  "FIFOfilebuf_new (Some healthy_disk) True = Inr new_response"
  "Filebuf_inv new_file" "file_wf new_file" "response_ok new_response"
  "content new_file = []" "content new_response = []" "reader_pos new_response = 0"
  by (simp_all add: new_file_def new_response_def Filebuf_new_def FIFOfilebuf_new_def healthy_disk_def
      Filebuf_inv_def healthy_def file_wf_def response_ok_def FIFOfilebuf_inv_def Filebuf_appendable_def filebuf.defs
      fifofilebuf.defs)

lemma env_ok_new_files:
  assumes "env_ok env"
  shows "Filebuf_new (e_disk env i) = Inr new_file" "FIFOfilebuf_new (e_disk env i) (e_reopen env) = Inr new_response"
  using assms by (simp_all add: env_ok_def)

text \<open>
  What the switch leaves of an active connection: the history becomes the request buffer, the
  client's queue the response buffer, and the server's queue stays if it is not empty.
\<close>

lemma set_slow_mode_active:
  assumes env: "env_ok env" and w: "world_inv w" and hist: "history_ok (client c)" and act: "fast_active c"
  obtains w' c' h cq sv sv' rb pb where "Connection_set_slow_mode ll env w c = Inr (w', c')" "world_inv w'"
    "connection_count w' = connection_count w" "active_count w' = active_count w" "conn_inv c'" "slow_transition c'"
    "request_history (client c) = Some h" "c_queued_output (client c) = Some cq" "server c = Some sv"
    "request_buf (client c') = Some rb" "content rb = Hybridbuf_stored h" "Filebuf_inv rb" "Filebuf_appendable rb"
    "response_buf (client c') = Some pb" "content pb = Circularbuf_contents cq" "reader_pos pb = 0"
    "server c' = Some sv'" "s_sock sv' = s_sock sv" "c_sock (client c') = c_sock (client c)"
    "parser c' = parser c" "past_servers c' = past_servers c" "request_tmp_buf (client c') = Some new_file"
    "s_queued_output sv' = (if Circularbuf_contents (the (s_queued_output sv)) = [] then None else s_queued_output sv)"
proof -
  from act hist obtain p sv sq cq h where c: "fast_mode c" "\<not> in_transition c" "parser c = Some p"
    "HttpParser_inv p" "server c = Some sv" "s_queued_output sv = Some sq" "queue_ok sq"
    "c_read_evt (client c) \<or> s_write_evt sv" "s_read_evt sv \<or> c_write_evt (client c)"
    "c_queued_output (client c) = Some cq" "queue_ok cq"
    "request_history (client c) = Some h" "Hybridbuf_inv h" "Hybridbuf_appendable h"
    by (rule fast_activeE)
  from Filebuf_copy_data_correct [OF c(13) new_files(3)] obtain h' rb where
    cp: "Filebuf_copy_data Hybridbuf_vt Filebuf_vt h new_file = Inr (h', rb)" "Hybridbuf_inv h'"
      "Filebuf_inv rb" "Filebuf_appendable rb" "content rb = Hybridbuf_stored h" by blast
  obtain cq' pb where dl: "dump_loop (Circularbuf_data_size cq) cq new_response = Inr (cq', pb)" "response_ok pb"
    "content pb = Circularbuf_contents cq" "reader_pos pb = 0"
    using dump_loop_correct [OF c(11) new_files(5)] unfolding new_files append_Nil by blast
  let ?cl = "(client c)\<lparr>request_tmp_buf := Some new_file, response_buf := Some new_response,
     c_read_evt := False, request_history := Some h', request_buf := Some rb\<rparr>"
  have "\<And>x. request_history ?cl = Some x \<Longrightarrow> Hybridbuf_inv x" using cp(2) by simp
  then obtain w' where rel: "Client_release_request_history w ?cl = Inr (w', ?cl\<lparr>request_history := None\<rparr>)"
    "world_inv w'" "connection_count w' = connection_count w" "active_count w' = active_count w"
    using release_history_inv [OF w] by blast
  let ?sv1 = "sv\<lparr>s_read_evt := True, s_read_timeout := True\<rparr>"
  let ?sv = "if Circularbuf_data_size sq > 0 then ?sv1\<lparr>s_write_evt := True\<rparr> else ?sv1\<lparr>s_queued_output := None\<rparr>"
  let ?cl' = "Client_free_queued_output (?cl\<lparr>request_history := None, c_queued_output := Some cq', response_buf := Some pb\<rparr>)"
  let ?c = "c\<lparr>fast_mode := False, in_transition := True, server := Some ?sv, client := ?cl'\<rparr>"
  have eq: "Connection_set_slow_mode ll env w c = Inr (w', ?c)"
    using c env_ok_new_files [OF env] cp(1) dl(1) rel(1)
    by (simp add: Connection_set_slow_mode_def Client_copy_history_to_request_buf_def client_ops Let_def)
  have sq: "Circularbuf_data_size sq > 0 \<longleftrightarrow> Circularbuf_contents sq \<noteq> []"
    using c(7) by (simp add: queue_ok_def Circularbuf_data_size_contents)
  have tr: "slow_transition ?c"
    using c cp(3) dl(2) by (auto simp: slow_transition_def slow_buffers_ok_def client_ops Filebuf_inv_wf)
  then have "conn_inv ?c" by (simp add: conn_inv_def client_ops)
  with eq rel tr c cp dl sq show thesis by (intro that [of w' ?c h cq sv rb pb ?sv]) (simp_all add: client_ops)
qed

text \<open>A connection without a parser: it has sent nothing yet, or it is in reply-only mode.\<close>

lemma set_slow_mode_no_parser:
  assumes env: "env_ok env" and w: "world_inv w" and hist: "history_ok (client c)"
    and mode: "fast_fresh c \<or> fast_reply c"
  obtains w' where "Connection_set_slow_mode ll env w c =
      Inr (w', c\<lparr>fast_mode := False, in_transition := False, parser := Some (HttpParser_new ll),
        client := (client c)\<lparr>request_buf := Some new_file, request_tmp_buf := Some new_file,
          response_buf := Some new_response, request_history := None, c_read_evt := True\<rparr>\<rparr>)"
    "world_inv w'" "connection_count w' = connection_count w" "active_count w' = active_count w"
proof -
  from mode have c: "fast_mode c" "\<not> in_transition c" "parser c = None"
    by (auto simp: fast_fresh_def fast_reply_def)
  let ?cl = "(client c)\<lparr>request_buf := Some new_file, request_tmp_buf := Some new_file,
     response_buf := Some new_response, c_read_evt := False\<rparr>"
  from hist have "history_ok ?cl" by simp
  with w obtain w' where "Client_release_request_history w ?cl = Inr (w', ?cl\<lparr>request_history := None\<rparr>)"
    "world_inv w'" "connection_count w' = connection_count w" "active_count w' = active_count w"
    by (rule release_history_safe)
  with c env_ok_new_files [OF env] that show thesis
    by (simp add: Connection_set_slow_mode_def client_ops Connection_set_transition_done_def Let_def)
qed

lemma set_slow_mode_safe:
  assumes env: "env_ok env" and w: "world_inv w" and c: "conn_inv c"
  obtains w' c' where "Connection_set_slow_mode ll env w c = Inr (w', c')" "world_inv w'" "conn_inv c'"
    "\<not> fast_mode c'" "connection_count w' = connection_count w" "active_count w' = active_count w"
    "server c' = None \<longleftrightarrow> server c = None" "past_servers c' = past_servers c"
  using c
proof (cases rule: conn_inv_cases)
  case active
  obtain w' c' sv sv' where "Connection_set_slow_mode ll env w c = Inr (w', c')" "world_inv w'"
    "connection_count w' = connection_count w" "active_count w' = active_count w" "conn_inv c'" "slow_transition c'"
    "server c = Some sv" "server c' = Some sv'" "past_servers c' = past_servers c"
    by (rule set_slow_mode_active [OF env w active, of ll]) (rule that)
  then show thesis by (intro that [of w' c']) (simp_all add: slow_transition_def)
next
  case slow
  then have "Connection_set_slow_mode ll env w c = Inr (w, c)"
    by (auto simp: Connection_set_slow_mode_def elim: slow_connE)
  with w c slow that show thesis by (blast elim: slow_connE)
next
  case fresh
  then obtain w' where "Connection_set_slow_mode ll env w c =
      Inr (w', c\<lparr>fast_mode := False, in_transition := False, parser := Some (HttpParser_new ll),
        client := (client c)\<lparr>request_buf := Some new_file, request_tmp_buf := Some new_file,
          response_buf := Some new_response, request_history := None, c_read_evt := True\<rparr>\<rparr>)"
    "world_inv w'" "connection_count w' = connection_count w" "active_count w' = active_count w"
    using set_slow_mode_no_parser [OF env w] by blast
  note r = this
  show thesis
    by (rule that [OF r(1,2)]) (use fresh r in \<open>auto simp: fast_fresh_def conn_inv_def slow_receiving_def slow_buffers_ok_def\<close>)
next
  case reply
  then obtain w' where "Connection_set_slow_mode ll env w c =
      Inr (w', c\<lparr>fast_mode := False, in_transition := False, parser := Some (HttpParser_new ll),
        client := (client c)\<lparr>request_buf := Some new_file, request_tmp_buf := Some new_file,
          response_buf := Some new_response, request_history := None, c_read_evt := True\<rparr>\<rparr>)"
    "world_inv w'" "connection_count w' = connection_count w" "active_count w' = active_count w"
    using set_slow_mode_no_parser [OF env w] by blast
  note r = this
  show thesis
    by (rule that [OF r(1,2)]) (use reply r in \<open>auto simp: fast_reply_def conn_inv_def slow_receiving_def slow_buffers_ok_def\<close>)
qed

section \<open>Monitoring and accepting\<close>

lemma conn_inv_counts [simp]:
  "conn_inv (c\<lparr>client := (client c)\<lparr>read_count := r, write_count := n\<rparr>\<rparr>) = conn_inv c"
  unfolding conn_inv_def mode_defs slow_buffers_ok_def by simp

lemma monitor_connection_safe:
  assumes env: "env_ok env" and w: "world_inv w" and c: "conn_inv c"
  shows "safe_result (monitor_connection ll env w c)"
proof -
  from c have h: "history_ok (client c)" by (simp add: conn_inv_def)
  obtain w' c' where s: "Connection_set_slow_mode ll env w c = Inr (w', c')" "world_inv w'" "conn_inv c'"
    using set_slow_mode_safe [OF env w c] .
  have "safe_result (Connection_delete w c)" using w h by (rule delete_safe_result)
  with s w c show ?thesis by (simp add: monitor_connection_def Let_def safe_live)
qed

lemma new_history:
  obtains h where "Hybridbuf_new (Some healthy_disk) = Inr h" "clean_history h"
  using HIST_CACHE_SIZE_bounds
  by (simp add: Hybridbuf_new_def new_files clean_history_def new_file_def Hybridbuf_inv_def healthy_def
      Hybridbuf_stored_def Hybridbuf_appendable_def Hybridbuf_cursor_def hybridbuf.defs filebuf.defs)

definition new_client :: "sock \<Rightarrow> hybridbuf \<Rightarrow> client" where
  "new_client sk h = \<lparr>c_sock = sk, c_read_evt = False, c_write_evt = False, c_queued_output = None,
     request_buf = None, request_tmp_buf = None, response_buf = None,
     read_count = of_nat COUNTER_INIT, write_count = of_nat COUNTER_INIT, request_history = Some h\<rparr>"

lemma Client_new_safe:
  assumes env: "env_ok env" and w: "world_inv w"
  obtains w' h where "Client_new env w sk = Inr (w', new_client sk h)" "world_inv w'" "clean_history h"
    "connection_count w' = connection_count w" "active_count w' = active_count w"
proof (cases "hybridbuf_pool w")
  case Nil
  obtain h where "Hybridbuf_new (Some healthy_disk) = Inr h" "clean_history h" by (rule new_history)
  with Nil env w show thesis
    by (intro that [of w h]) (simp_all add: Client_new_def new_client_def env_ok_def)
next
  case (Cons h hs)
  with w have "Hybridbuf_inv h" by (simp add: world_inv_def clean_history_def)
  then obtain h' where "Filebuf_clear Hybridbuf_vt h = Inr h'" "clean_history h'" by (rule clean_history_clear)
  with Cons w show thesis
    by (intro that [of "w\<lparr>hybridbuf_pool := hs\<rparr>" h']) (auto simp: Client_new_def new_client_def world_inv_def)
qed

lemma accept_new_safe:
  assumes env: "env_ok env" and w: "world_inv w"
  obtains sk' where "Connection_accept_new env w (Some sk) = Inr (w, Inl sk')" "connection_count w \<ge> MAX_CONNECTION"
  | w' h where "Connection_accept_new env w (Some sk) = Inr (w', Inr \<lparr>client = (new_client sk h)\<lparr>c_read_evt := True\<rparr>,
        server = None, parser = None, fast_mode = True, in_transition = False, past_servers = []\<rparr>)"
      "world_inv w'" "clean_history h" "connection_count w < MAX_CONNECTION"
      "connection_count w' = connection_count w + 1" "active_count w' = active_count w"
proof (cases "connection_count w \<ge> MAX_CONNECTION")
  case True
  obtain n sk' where "reply_with_503_unavailable (e_503 env) sk = Inr (n, sk')"
    using env reply_503_safe unfolding env_ok_def by blast
  with True env that(1) show thesis by (auto simp: Connection_accept_new_def env_ok_def)
next
  case False
  from env w obtain w' h where "Client_new env w sk = Inr (w', new_client sk h)" "world_inv w'" "clean_history h"
    "connection_count w' = connection_count w" "active_count w' = active_count w" by (rule Client_new_safe)
  with False env show thesis
    by (intro that(2) [of "w'\<lparr>connection_count := connection_count w' + 1\<rparr>" h])
      (simp_all add: Connection_accept_new_def Connection_new_def env_ok_def)
qed

lemma accepted_inv:
  "clean_history h \<Longrightarrow> conn_inv \<lparr>client = (new_client sk h)\<lparr>c_read_evt := True\<rparr>, server = None, parser = None,
     fast_mode = True, in_transition = False, past_servers = []\<rparr>"
  by (simp add: conn_inv_def fast_fresh_def new_client_def history_ok_def clean_history_def)

end
