(* ===== verification/System.thy ===== *)
theory System
  imports Slowmode
begin

text \<open>
  The whole proxy: what \<open>main\<close> of \<open>src/ls_proxy.cpp\<close> sets up, the event loop as a step
  function on the state of the process, and the states it can reach.  libevent decides which
  pending event runs next; a run is therefore any sequence of enabled events.  The handlers
  share the contract \<open>conn_handler\<close>, and the invariant of the process is proved once for every
  handler that meets it.
\<close>

section \<open>The process\<close>

text \<open>
  The connections by number, the number the next one gets, and the event lists collected by
  the slow-mode signal whose timers have not run yet.
\<close>

record 'p proxy =
  pworld :: world
  pconns :: "'p conns"
  next_id :: nat
  scheduled :: "evt list list"

text \<open>The loop of \<open>main\<close> that allocates the pool of history buffers.\<close>

fun allocate_hybridbufs :: "nat \<Rightarrow> disk option \<Rightarrow> hybridbuf list res" where
  "allocate_hybridbufs 0 dk = Inr []"
| "allocate_hybridbufs (Suc n) dk =
     bindE (Hybridbuf_new dk) (\<lambda>h. bindE (allocate_hybridbufs n dk) (\<lambda>hs. Inr (h # hs)))"

text \<open>
  What the system answers while the program starts, and the number of descriptors it was
  started with (0 to 2 when started from a shell): descriptors are numbered from there, the
  listening socket first.
\<close>

record startup =
  su_net :: net_env
  su_limit :: "(nat \<times> nat) option"
  su_setlimit :: bool
  su_socket :: bool
  su_reuse :: bool
  su_bind :: bool
  su_listen :: bool
  su_disk :: "disk option"
  su_inherited :: nat
  su_sigpipe :: bool
  su_sigint :: bool

text \<open>\<open>main\<close> up to the event loop: an exit status, or the running proxy.\<close>

definition main_start :: "startup \<Rightarrow> (nat + 'p proxy) res" where
  "main_start s =
     bindE (Server_test_server_alive (su_net s) \<lparr>locals = local_init, open_socks = 0\<rparr>) (\<lambda>(alive, ns1).
     if \<not> alive then Inr (Inl 1)
     else
       bindE (raise_open_file_limit (su_limit s) (su_setlimit s) MAX_FILE_DSC) (\<lambda>_.
       bindE (passive_TCP True (su_socket s) (su_reuse s) (su_bind s) (su_listen s) ns1) (\<lambda>ns2.
       bindE (allocate_hybridbufs MAX_HYBRID_POOL (su_disk s)) (\<lambda>pool.
       bindE (assertE (su_inherited s + MAX_HYBRID_POOL = 3 + MAX_HYBRID_POOL)) (\<lambda>_.
       if \<not> su_sigpipe s then Inl Abort
       else if \<not> su_sigint s then Inl Abort
       else Inr (Inr \<lparr>pworld = \<lparr>hybridbuf_pool = pool, connection_count = 0, active_count = 0, netst = ns2\<rparr>,
                      pconns = [], next_id = 0, scheduled = []\<rparr>))))))"

text \<open>The end of \<open>main\<close>: when the loop is broken, every connection that has an event is deleted.\<close>

fun delete_connections :: "world \<Rightarrow> 'p conns \<Rightarrow> nat list \<Rightarrow> (world \<times> 'p conns) res" where
  "delete_connections w cs [] = Inr (w, cs)"
| "delete_connections w cs (i # is) =
     bindE (derefE (map_of cs i)) (\<lambda>c.
     bindE (Connection_delete w c) (\<lambda>(w1, r). delete_connections w1 (put_outcome i r cs) is))"

definition main_cleanup :: "'p proxy \<Rightarrow> 'p proxy res" where
  "main_cleanup st =
     bindE (delete_connections (pworld st) (pconns st) (get_all_connections (pconns st))) (\<lambda>(w, cs).
       Inr (st\<lparr>pworld := w, pconns := cs\<rparr>))"

text \<open>The events of the loop, with what the system answers while they are handled.\<close>

datatype event =
    Accept env "sock option"
  | ClientReadable env nat
  | ClientWritable nat
  | ServerReadable nat bool
  | ServerWritable nat
  | MonitorTick "nat \<Rightarrow> env"
  | SlowSignal
  | SlowTimer env

definition on_conn ::
    "(world \<Rightarrow> 'p connection \<Rightarrow> (world \<times> 'p outcome) res) \<Rightarrow> nat \<Rightarrow> 'p proxy \<Rightarrow> 'p proxy res" where
  "on_conn h i st =
     bindE (derefE (map_of (pconns st) i)) (\<lambda>c.
     bindE (h (pworld st) c) (\<lambda>(w, r).
       Inr (st\<lparr>pworld := w, pconns := put_outcome i r (pconns st)\<rparr>)))"

definition dispatch :: "'p llhttp \<Rightarrow> event \<Rightarrow> 'p proxy \<Rightarrow> 'p proxy res" where
  "dispatch ll ev st =
     (case ev of
        Accept env sk \<Rightarrow>
          bindE (Connection_accept_new env (pworld st) sk) (\<lambda>(w, r).
            case r of
              Inl refused \<Rightarrow> Inr (st\<lparr>pworld := w\<rparr>)
            | Inr c \<Rightarrow> Inr (st\<lparr>pworld := w, pconns := (next_id st, c) # pconns st,
                              next_id := next_id st + 1\<rparr>))
      | ClientReadable env i \<Rightarrow> on_conn (Client_on_readable ll env) i st
      | ClientWritable i \<Rightarrow> on_conn Client_on_writable i st
      | ServerReadable i timed_out \<Rightarrow> on_conn (Server_on_readable ll timed_out) i st
      | ServerWritable i \<Rightarrow> on_conn Server_on_writable i st
      | MonitorTick envs \<Rightarrow>
          bindE (monitor_data_rates ll envs (pworld st) (pconns st)) (\<lambda>(w, cs).
            Inr (st\<lparr>pworld := w, pconns := cs\<rparr>))
      | SlowSignal \<Rightarrow> Inr (st\<lparr>scheduled := scheduled st @ [put_all_connection_slow_mode (pconns st)]\<rparr>)
      | SlowTimer env \<Rightarrow>
          (case scheduled st of
             [] \<Rightarrow> Inr st
           | es # rest \<Rightarrow>
               bindE (put_events_slow_mode ll env (pworld st) (pconns st) es) (\<lambda>(w, cs).
                 Inr (st\<lparr>pworld := w, pconns := cs, scheduled := rest\<rparr>))))"

text \<open>Which events can come: those that are pending.\<close>

definition enabled :: "event \<Rightarrow> 'p proxy \<Rightarrow> bool" where
  "enabled ev st \<longleftrightarrow>
     (case ev of
        Accept env sk \<Rightarrow> True
      | ClientReadable env i \<Rightarrow> ClientRead i \<in> set (pending_events (pconns st))
      | ClientWritable i \<Rightarrow> ClientWrite i \<in> set (pending_events (pconns st))
      | ServerReadable i timed_out \<Rightarrow>
          (case map_of (pconns st) i of None \<Rightarrow> False
           | Some c \<Rightarrow> (case server c of None \<Rightarrow> False
               | Some sv \<Rightarrow> s_read_evt sv \<and> (timed_out \<longrightarrow> s_read_timeout sv)))
      | ServerWritable i \<Rightarrow>
          (case map_of (pconns st) i of None \<Rightarrow> False
           | Some c \<Rightarrow> (case server c of None \<Rightarrow> False | Some sv \<Rightarrow> s_write_evt sv))
      | MonitorTick envs \<Rightarrow> True
      | SlowSignal \<Rightarrow> True
      | SlowTimer env \<Rightarrow> scheduled st \<noteq> [])"

text \<open>A system on which no call fails that the program aborts on.\<close>

definition event_ok :: "event \<Rightarrow> bool" where
  "event_ok ev \<longleftrightarrow>
     (case ev of
        Accept env sk \<Rightarrow> env_ok env \<and> (case sk of None \<Rightarrow> False | Some s \<Rightarrow> fresh_sock s)
      | ClientReadable env i \<Rightarrow> env_ok env
      | MonitorTick envs \<Rightarrow> (\<forall>i. env_ok (envs i))
      | SlowTimer env \<Rightarrow> env_ok env
      | _ \<Rightarrow> True)"

inductive reachable :: "'p llhttp \<Rightarrow> 'p proxy \<Rightarrow> bool" for ll where
  start: "su_disk s = Some healthy_disk \<Longrightarrow> main_start s = Inr (Inr st) \<Longrightarrow> reachable ll st"
| step: "reachable ll st \<Longrightarrow> event_ok ev \<Longrightarrow> enabled ev st \<Longrightarrow> dispatch ll ev st = Inr st' \<Longrightarrow> reachable ll st'"

section \<open>Counting\<close>

text \<open>
  What an operation does to the two counters: a deleted connection leaves \<open>connection_count\<close>,
  and \<open>active_count\<close> changes with the presence of a server.
\<close>

definition has_server :: "'p connection \<Rightarrow> 32 word" where
  "has_server c = (if server c = None then 0 else 1)"

definition outcome_servers :: "'p outcome \<Rightarrow> 32 word" where
  "outcome_servers r = (case r of Live c \<Rightarrow> has_server c | Deleted c \<Rightarrow> 0)"

definition outcome_count :: "'p outcome \<Rightarrow> nat" where
  "outcome_count r = (case r of Live c \<Rightarrow> 1 | Deleted c \<Rightarrow> 0)"

definition accounted :: "world \<Rightarrow> 'p connection \<Rightarrow> world \<Rightarrow> 'p outcome \<Rightarrow> bool" where
  "accounted w c w' r \<longleftrightarrow>
     connection_count w' = connection_count w - (1 - outcome_count r)
     \<and> active_count w' + has_server c = active_count w + outcome_servers r"

lemma release_counts:
  "Client_release_request_history w cl = Inr (w', cl') \<Longrightarrow>
   connection_count w' = connection_count w \<and> active_count w' = active_count w"
  by (auto simp: Client_release_request_history_def bindE_eq_Inr_iff split: option.splits if_splits)

lemma accounted_delete: "Connection_delete w c = Inr (w', r) \<Longrightarrow> accounted w c w' r"
  by (auto simp: Connection_delete_def Connection_free_client_def case_prod_beta bindE_eq_Inr_iff Let_def accounted_def
      outcome_count_def outcome_servers_def has_server_def free_server_active dest!: release_counts split: if_splits)

lemma accounted_live:
  "connection_count w' = connection_count w \<Longrightarrow> active_count w' + has_server c = active_count w + has_server c' \<Longrightarrow>
   accounted w c w' (Live c')"
  by (simp add: accounted_def outcome_count_def outcome_servers_def)

lemma accounted_same_server:
  "has_server c = has_server c' \<Longrightarrow> accounted w c w (Live c')"
  by (simp add: accounted_live)

lemma accounted_trans:
  "accounted w1 c1 w' r \<Longrightarrow> connection_count w1 = connection_count w \<Longrightarrow>
   active_count w1 + has_server c = active_count w + has_server c1 \<Longrightarrow> accounted w c w' r"
proof -
  assume a: "accounted w1 c1 w' r" and n: "connection_count w1 = connection_count w"
    and s: "active_count w1 + has_server c = active_count w + has_server c1"
  from a have "active_count w' = active_count w1 + outcome_servers r - has_server c1"
    by (simp add: accounted_def eq_diff_eq)
  moreover from s have "active_count w1 = active_count w + has_server c1 - has_server c" by (simp add: eq_diff_eq)
  ultimately show ?thesis using a n by (simp add: accounted_def)
qed

lemma accounted_delete_via:
  "Connection_delete w1 c1 = Inr (w', r) \<Longrightarrow> connection_count w1 = connection_count w \<Longrightarrow>
   active_count w1 + has_server c = active_count w + has_server c1 \<Longrightarrow> accounted w c w' r"
  by (rule accounted_trans [OF accounted_delete])

lemma free_server_has_server: "active_count (fst (Connection_free_server w c)) + has_server c = active_count w"
  by (simp add: free_server_active has_server_def)

lemma free_server_has_none [simp]: "has_server (snd (Connection_free_server w c)) = 0"
  by (simp add: has_server_def)

lemmas account_simps = bindE_eq_Inr_iff Let_def case_prod_beta free_server_has_server has_server_def [symmetric]

lemma accounted_close_or_reply:
  assumes "Connection_close_or_reply w c = Inr (w', r)"
  shows "accounted w c w' r"
proof -
  let ?w = "fst (Connection_free_server w c)" let ?c = "Connection_free_parser (snd (Connection_free_server w c))"
  have s: "connection_count ?w = connection_count w" "active_count ?w + has_server c = active_count w" "has_server ?c = 0"
    by (simp_all add: Connection_free_parser_def has_server_def free_server_active)
  from assms consider "Connection_delete ?w ?c = Inr (w', r)"
    | "w' = ?w" "r = Live (?c\<lparr>client := Client_set_reply_only_mode (client ?c)\<rparr>)"
    by (auto simp: Connection_close_or_reply_def case_prod_beta bindE_eq_Inr_iff Let_def split: if_splits)
  then show ?thesis
  proof cases
    case 1
    with s show ?thesis by (intro accounted_delete_via [OF 1]) simp_all
  next
    case 2
    with s show ?thesis by (auto intro!: accounted_live simp: has_server_def Connection_free_parser_def)
  qed
qed

lemma has_server_updates [simp]:
  "has_server (c\<lparr>client := cl\<rparr>) = has_server c" "has_server (c\<lparr>parser := p\<rparr>) = has_server c"
  "has_server (c\<lparr>server := Some sv\<rparr>) = 1" "has_server (c\<lparr>fast_mode := b\<rparr>) = has_server c"
  "has_server (c\<lparr>in_transition := b\<rparr>) = has_server c"
  by (simp_all add: has_server_def)

lemma has_server_Some: "server c = Some sv \<Longrightarrow> has_server c = 1"
  by (simp add: has_server_def)

lemma keep_track_server:
  "Client_keep_track_request_history ll c g = Inr (c', b) \<Longrightarrow> has_server c' = has_server c"
  by (auto simp: Client_keep_track_request_history_def bindE_eq_Inr_iff Let_def case_prod_beta split: if_splits)

lemma accounted_fast_forward_cs:
  assumes "Connection_fast_forward_cs ll w c = Inr (w', r)"
  shows "accounted w c w' r"
  using assms
  by (auto simp: Connection_fast_forward_cs_def bindE_eq_Inr_iff Let_def case_prod_beta has_server_Some split: if_splits
      dest!: keep_track_server accounted_close_or_reply accounted_delete intro!: accounted_same_server
      elim!: accounted_trans)

lemma accounted_fast_forward_sc:
  assumes "Connection_fast_forward_sc w c = Inr (w', r)"
  shows "accounted w c w' r"
  using assms
  by (auto simp: Connection_fast_forward_sc_def bindE_eq_Inr_iff Let_def case_prod_beta has_server_Some split: if_splits
      dest!: accounted_close_or_reply accounted_delete intro!: accounted_same_server elim!: accounted_trans)

lemma Server_new_counts:
  "Server_new env w = Inr (w', sv) \<Longrightarrow>
   connection_count w' = connection_count w \<and> active_count w' = active_count w + (if sv = None then 0 else 1)"
  by (auto simp: Server_new_def bindE_eq_Inr_iff Let_def split: if_splits)

lemma accounted_recv_slowly:
  assumes "Client_recv_to_buffer_slowly ll env w c = Inr (w', r)" "server c = None"
  shows "accounted w c w' r"
  using assms unfolding Client_recv_to_buffer_slowly_def Let_def case_prod_beta
  by (auto elim!: bindE_InrE split: if_split_asm option.split_asm simp: Connection_free_parser_def
      dest!: Server_new_counts accounted_delete intro!: accounted_live elim!: accounted_trans simp: has_server_def)

lemma accounted_send_response:
  assumes "Client_send_response_slowly w c = Inr (w', r)"
  shows "accounted w c w' r"
  using assms unfolding Client_send_response_slowly_def Let_def case_prod_beta
  by (auto elim!: bindE_InrE split: if_split_asm dest!: accounted_delete intro!: accounted_same_server
      elim!: accounted_trans)

lemma accounted_server_recv:
  assumes "Server_recv_to_buffer_slowly ll w c = Inr (w', r)"
  shows "accounted w c w' r"
  using assms unfolding Server_recv_to_buffer_slowly_def Let_def case_prod_beta
  by (auto elim!: bindE_InrE split: if_split_asm dest!: accounted_delete intro!: accounted_live
      elim!: accounted_trans simp: Connection_free_parser_def has_server_Some free_server_active)

lemma accounted_send_request:
  assumes "Server_send_request_slowly w c = Inr (w', r)"
  shows "accounted w c w' r"
  using assms unfolding Server_send_request_slowly_def Let_def case_prod_beta
  by (auto elim!: bindE_InrE split: if_split_asm intro!: accounted_same_server simp: has_server_Some)

lemma accounted_client_readable:
  assumes "Client_on_readable ll env w c = Inr (w', r)" "\<not> fast_mode c \<or> parser c = None \<Longrightarrow> server c = None"
  shows "accounted w c w' r"
proof (cases "fast_mode c \<and> parser c = None")
  case True
  with assms show ?thesis unfolding Client_on_readable_def Let_def case_prod_beta
    by (auto elim!: bindE_InrE split: option.split_asm dest!: Server_new_counts accounted_delete
        accounted_fast_forward_cs elim!: accounted_trans simp: has_server_def)
next
  case False
  with assms show ?thesis
    by (auto simp: Client_on_readable_def split: if_splits option.splits
        dest: accounted_fast_forward_cs accounted_recv_slowly)
qed

lemma accounted_client_writable:
  assumes "Client_on_writable w c = Inr (w', r)"
  shows "accounted w c w' r"
  using assms unfolding Client_on_writable_def Let_def case_prod_beta
  by (auto elim!: bindE_InrE split: if_split_asm option.split_asm dest!: accounted_delete
      accounted_send_response intro!: accounted_same_server elim!: accounted_trans simp: has_server_def)

lemma accounted_server_readable:
  assumes "Server_on_readable ll t w c = Inr (w', r)"
  shows "accounted w c w' r"
  using assms unfolding Server_on_readable_def Let_def case_prod_beta
  by (auto elim!: bindE_InrE split: if_split_asm dest!: accounted_fast_forward_sc accounted_server_recv
      intro!: accounted_live
      simp: has_server_Some free_server_active Connection_set_transition_done_def) (auto simp: has_server_def)

lemma accounted_server_writable:
  assumes "Server_on_writable w c = Inr (w', r)"
  shows "accounted w c w' r"
  using assms unfolding Server_on_writable_def Let_def case_prod_beta
  by (auto elim!: bindE_InrE split: if_split_asm dest!: accounted_send_request
      intro!: accounted_same_server simp: has_server_Some)

section \<open>The table of connections\<close>

definition count_servers :: "'p conns \<Rightarrow> 32 word" where
  "count_servers cs = sum_list (map (\<lambda>(i, c). has_server c) cs)"

lemma count_servers_length: "count_servers cs = of_nat (length (filter (\<lambda>(i, c). server c \<noteq> None) cs))"
  by (induction cs) (auto simp: count_servers_def has_server_def)

lemma map_of_put_outcome:
  "map_of (put_outcome i r cs) = (map_of cs)(i := (case r of Live c \<Rightarrow> Some c | Deleted c \<Rightarrow> None))"
  by (cases r) (simp_all add: put_outcome_def AList.update_conv' AList.delete_conv')

lemma put_outcome_distinct: "distinct (map fst cs) \<Longrightarrow> distinct (map fst (put_outcome i r cs))"
  by (cases r) (simp_all add: put_outcome_def AList.distinct_update AList.distinct_delete)

lemma put_outcome_length:
  assumes "distinct (map fst cs)" "map_of cs i = Some c"
  shows "length (put_outcome i r cs) + 1 = length cs + outcome_count r"
  using assms
proof (induction cs)
  case (Cons x cs)
  then show ?case by (cases r) (auto simp: put_outcome_def outcome_count_def split: if_splits)
qed simp

lemma put_outcome_servers:
  assumes "distinct (map fst cs)" "map_of cs i = Some c"
  shows "count_servers (put_outcome i r cs) + has_server c = count_servers cs + outcome_servers r"
  using assms
proof (induction cs)
  case (Cons x cs)
  then show ?case
    by (cases r) (auto simp: put_outcome_def outcome_servers_def count_servers_def case_prod_beta algebra_simps split: if_splits)
qed simp

section \<open>The invariant of the process\<close>

definition proxy_inv :: "'p proxy \<Rightarrow> bool" where
  "proxy_inv st \<longleftrightarrow> world_inv (pworld st) \<and> distinct (map fst (pconns st))
     \<and> (\<forall>i c. map_of (pconns st) i = Some c \<longrightarrow> conn_inv c \<and> i < next_id st)
     \<and> connection_count (pworld st) = length (pconns st) \<and> length (pconns st) \<le> MAX_CONNECTION
     \<and> active_count (pworld st) = count_servers (pconns st)"

lemma proxy_invD:
  assumes "proxy_inv st"
  shows "world_inv (pworld st)" "distinct (map fst (pconns st))"
    "map_of (pconns st) i = Some c \<Longrightarrow> conn_inv c"
  using assms by (auto simp: proxy_inv_def)

lemma proxy_inv_outcome:
  assumes st: "proxy_inv st" and c: "map_of (pconns st) i = Some c"
    and w: "world_inv w" and r: "outcome_inv r" and acc: "accounted (pworld st) c w r"
  shows "proxy_inv (st\<lparr>pworld := w, pconns := put_outcome i r (pconns st)\<rparr>)"
proof -
  let ?cs = "pconns st" let ?cs' = "put_outcome i r ?cs"
  from st have d: "distinct (map fst ?cs)" and n: "connection_count (pworld st) = length ?cs"
    "length ?cs \<le> MAX_CONNECTION" "active_count (pworld st) = count_servers ?cs"
    by (simp_all add: proxy_inv_def)
  note len = put_outcome_length [OF d c, of r] and srv = put_outcome_servers [OF d c, of r]
  have oc: "outcome_count r \<le> 1" by (cases r) (simp_all add: outcome_count_def)
  have pos: "length ?cs > 0" using c by (cases ?cs) auto
  from acc n(1) len oc pos have "connection_count w = length ?cs'" unfolding accounted_def by linarith
  moreover have "length ?cs' \<le> MAX_CONNECTION" using len oc n(2) by linarith
  moreover have "active_count w = count_servers ?cs'"
    using acc srv n(3) unfolding accounted_def by (metis add_right_cancel)
  ultimately show ?thesis using st w r d c
    by (auto simp: proxy_inv_def put_outcome_distinct map_of_put_outcome outcome_inv_def split: if_splits outcome.splits)
qed

text \<open>
  The contract of a handler: under its precondition it ends without a fault, with the
  invariants, and with the counters in order.
\<close>

locale conn_handler =
  fixes run :: "world \<Rightarrow> 'p connection \<Rightarrow> (world \<times> 'p outcome) res"
    and ready :: "'p connection \<Rightarrow> bool"
  assumes safe: "world_inv w \<Longrightarrow> conn_inv c \<Longrightarrow> ready c \<Longrightarrow> safe_result (run w c)"
    and counts: "world_inv w \<Longrightarrow> conn_inv c \<Longrightarrow> ready c \<Longrightarrow> run w c = Inr (w', r) \<Longrightarrow> accounted w c w' r"
begin

lemma on_conn_inv:
  assumes "proxy_inv st" "map_of (pconns st) i = Some c" "ready c"
  obtains w r where "run (pworld st) c = Inr (w, r)"
    "on_conn run i st = Inr (st\<lparr>pworld := w, pconns := put_outcome i r (pconns st)\<rparr>)"
    "proxy_inv (st\<lparr>pworld := w, pconns := put_outcome i r (pconns st)\<rparr>)"
proof -
  from assms have c: "world_inv (pworld st)" "conn_inv c" by (auto dest: proxy_invD)
  from safe [OF this assms(3)] obtain w r where r: "run (pworld st) c = Inr (w, r)" "world_inv w" "outcome_inv r"
    by (auto simp: safe_result_def)
  with assms proxy_inv_outcome [OF assms(1,2) r(2,3) counts [OF c assms(3) r(1)]] that show thesis
    by (simp add: on_conn_def)
qed

end

lemma readable_server:
  assumes "conn_inv c" "c_read_evt (client c)" "\<not> fast_mode c \<or> parser c = None"
  shows "server c = None"
  using assms(1)
proof (cases rule: conn_inv_cases)
  case slow
  with assms(2) show ?thesis
    by (auto simp only: slow_conn_def slow_transition_def slow_receiving_def slow_serving_def slow_reply_def)
qed (use assms in \<open>auto simp: fast_fresh_def fast_active_def fast_reply_def\<close>)

interpretation client_readable: conn_handler "Client_on_readable ll env"
  "\<lambda>c. llhttp_ok ll \<and> env_ok env \<and> c_read_evt (client c)" for ll :: "'p llhttp" and env
proof (unfold_locales, goal_cases)
  case (1 w c)
  then show ?case by (blast intro: Client_on_readable_safe)
next
  case (2 c w w' r)
  with readable_server show ?case by (blast intro: accounted_client_readable)
qed

interpretation client_writable: conn_handler Client_on_writable "\<lambda>c. c_write_evt (client c)"
  by unfold_locales (blast intro: Client_on_writable_safe accounted_client_writable)+

interpretation server_readable: conn_handler "Server_on_readable ll timed_out" "\<lambda>c. server c \<noteq> None"
  for ll :: "'p llhttp" and timed_out
  by unfold_locales (auto intro: Server_on_readable_safe accounted_server_readable)

interpretation server_writable: conn_handler Server_on_writable
  "\<lambda>c. \<exists>sv. server c = Some sv \<and> (in_transition c \<longrightarrow> \<not> queue_runs_dry sv)"
  by unfold_locales (auto intro: Server_on_writable_safe accounted_server_writable)

lemma accounted_set_slow_mode:
  assumes "env_ok env" "world_inv w" "conn_inv c" "Connection_set_slow_mode ll env w c = Inr (w', c')"
  shows "accounted w c w' (Live c')"
proof -
  from assms(1-3) obtain w1 c1 where "Connection_set_slow_mode ll env w c = Inr (w1, c1)"
    "connection_count w1 = connection_count w" "active_count w1 = active_count w" "server c1 = None \<longleftrightarrow> server c = None"
    by (rule set_slow_mode_safe)
  with assms(4) show ?thesis by (auto intro!: accounted_live simp: has_server_def)
qed

lemma accounted_monitor:
  assumes "env_ok env" "world_inv w" "conn_inv c" "monitor_connection ll env w c = Inr (w', r)"
  shows "accounted w c w' r"
  using assms(4) accounted_set_slow_mode [OF assms(1-3), of ll] accounted_delete [of w c]
  unfolding monitor_connection_def Let_def case_prod_beta
  by (auto elim!: bindE_InrE split: if_split_asm intro: accounted_same_server
      simp: accounted_def outcome_count_def outcome_servers_def)

interpretation monitored: conn_handler "monitor_connection ll env" "\<lambda>c. env_ok env" for ll :: "'p llhttp" and env
  by unfold_locales (blast intro: monitor_connection_safe accounted_monitor)+

interpretation deleted: conn_handler Connection_delete "\<lambda>c. True"
  by unfold_locales (auto intro: delete_safe_result accounted_delete simp: conn_inv_def)

section \<open>Events of the whole process\<close>

lemma monitor_loop_inv:
  assumes "proxy_inv st" "\<And>i. env_ok (envs i)" "distinct is" "set is \<subseteq> dom (map_of (pconns st))"
  obtains w cs where "monitor_loop ll envs (pworld st) (pconns st) is = Inr (w, cs)"
    "proxy_inv (st\<lparr>pworld := w, pconns := cs\<rparr>)"
  using assms(1,3,4)
proof (induction "is" arbitrary: st thesis)
  case Nil
  from Nil.prems(1) [of "pworld st" "pconns st"] Nil.prems(2) show thesis by simp
next
  case (Cons i "is")
  then obtain c where c: "map_of (pconns st) i = Some c" by auto
  from Cons.prems(2) c assms(2) obtain w r where r: "monitor_connection ll (envs i) (pworld st) c = Inr (w, r)"
    "proxy_inv (st\<lparr>pworld := w, pconns := put_outcome i r (pconns st)\<rparr>)"
    by (rule monitored.on_conn_inv)
  let ?st = "st\<lparr>pworld := w, pconns := put_outcome i r (pconns st)\<rparr>"
  have "set is \<subseteq> dom (map_of (pconns ?st))" "distinct is"
    using Cons.prems(3,4) by (auto simp: map_of_put_outcome)
  from Cons.IH [OF _ r(2) this(2,1)] obtain w' cs where
    "monitor_loop ll envs (pworld ?st) (pconns ?st) is = Inr (w', cs)" "proxy_inv (?st\<lparr>pworld := w', pconns := cs\<rparr>)"
    by metis
  with c r show thesis by (intro Cons.prems(1) [of w' cs]) simp_all
qed

lemma delete_connections_inv:
  assumes "proxy_inv st" "distinct is" "set is \<subseteq> dom (map_of (pconns st))"
  obtains w cs where "delete_connections (pworld st) (pconns st) is = Inr (w, cs)"
    "proxy_inv (st\<lparr>pworld := w, pconns := cs\<rparr>)" "dom (map_of cs) = dom (map_of (pconns st)) - set is"
  using assms
proof (induction "is" arbitrary: st thesis)
  case Nil
  from Nil.prems(1) [of "pworld st" "pconns st"] Nil.prems(2) show thesis by simp
next
  case (Cons i "is")
  then obtain c where c: "map_of (pconns st) i = Some c" by auto
  from Cons.prems(2) c obtain w r where r: "Connection_delete (pworld st) c = Inr (w, r)"
    "proxy_inv (st\<lparr>pworld := w, pconns := put_outcome i r (pconns st)\<rparr>)"
    by (rule deleted.on_conn_inv) simp_all
  let ?st = "st\<lparr>pworld := w, pconns := put_outcome i r (pconns st)\<rparr>"
  obtain c' where "r = Deleted c'" using r(1) by (auto simp: Connection_delete_def case_prod_beta elim!: bindE_InrE)
  then have d: "dom (map_of (pconns ?st)) = dom (map_of (pconns st)) - {i}" by (auto simp: map_of_put_outcome split: if_splits)
  have "distinct is" "set is \<subseteq> dom (map_of (pconns ?st))" unfolding d using Cons.prems(3,4) by auto
  from Cons.IH [OF _ r(2) this] obtain w' cs where
    "delete_connections (pworld ?st) (pconns ?st) is = Inr (w', cs)" "proxy_inv (?st\<lparr>pworld := w', pconns := cs\<rparr>)"
    "dom (map_of cs) = dom (map_of (pconns ?st)) - set is" by metis
  with c r d show thesis by (intro Cons.prems(1) [of w' cs]) auto
qed

lemma put_events_inv:
  assumes "proxy_inv st" "env_ok env"
  shows "case put_events_slow_mode ll env (pworld st) (pconns st) es of
      Inl f \<Rightarrow> f = UseAfterFree | Inr (w, cs) \<Rightarrow> proxy_inv (st\<lparr>pworld := w, pconns := cs\<rparr>)"
  using assms(1)
proof (induction es arbitrary: st)
  case (Cons e es)
  let ?i = "get_associated_conn e"
  show ?case
  proof (cases "event_pending (pconns st) e")
    case (Inl f)
    then show ?thesis by (auto simp: event_pending_def split: option.splits evt.splits if_splits)
  next
    case (Inr pend)
    then obtain c where c: "map_of (pconns st) ?i = Some c" by (auto simp: event_pending_def split: option.splits)
    show ?thesis
    proof (cases pend)
      case False
      with Inr Cons show ?thesis by simp
    next
      case True
      from Cons.prems c have i: "world_inv (pworld st)" "conn_inv c" by (auto dest: proxy_invD)
      obtain w' c' where s: "Connection_set_slow_mode ll env (pworld st) c = Inr (w', c')" "world_inv w'" "conn_inv c'"
        using set_slow_mode_safe [OF assms(2) i] .
      let ?st = "st\<lparr>pworld := w', pconns := put_outcome ?i (Live c') (pconns st)\<rparr>"
      have "proxy_inv ?st"
        using proxy_inv_outcome [OF Cons.prems c s(2) _ accounted_set_slow_mode [OF assms(2) i s(1)]] s(3)
        by (simp add: outcome_inv_def)
      from Cons.IH [OF this] Inr True c s(1) show ?thesis by (auto simp: put_outcome_def split: sum.splits)
    qed
  qed
qed simp

lemma get_associated_pending: "e \<in> set (pending_events_of i c) \<Longrightarrow> get_associated_conn e = i"
  by (auto simp: pending_events_of_def get_associated_conn_def split: if_splits option.splits)

lemma pending_events_iff:
  assumes "distinct (map fst cs)"
  shows "e \<in> set (pending_events cs) \<longleftrightarrow>
    (\<exists>c. map_of cs (get_associated_conn e) = Some c \<and> e \<in> set (pending_events_of (get_associated_conn e) c))"
proof -
  have "e \<in> set (pending_events cs) \<longleftrightarrow> (\<exists>i c. (i, c) \<in> set cs \<and> e \<in> set (pending_events_of i c))"
    by (auto simp: pending_events_def)
  also have "\<dots> \<longleftrightarrow> (\<exists>i c. map_of cs i = Some c \<and> e \<in> set (pending_events_of i c))"
    using assms by (auto dest: map_of_SomeD intro: map_of_is_SomeI)
  finally show ?thesis using get_associated_pending by fast
qed

text \<open>In every mode an event is pending, so the scan of the events finds every connection.\<close>

lemma conn_inv_pending:
  assumes "conn_inv c"
  shows "pending_events_of i c \<noteq> []"
  using assms
proof (cases rule: conn_inv_cases)
  case fresh
  then show ?thesis by (simp add: pending_events_of_def fast_fresh_def)
next
  case active
  then show ?thesis by (auto simp: pending_events_of_def fast_active_def)
next
  case reply
  then show ?thesis by (simp add: pending_events_of_def fast_reply_def)
next
  case slow
  then consider "c_read_evt (client c)" | "c_write_evt (client c)" | sv where "server c = Some sv" "s_read_evt sv"
    by (auto simp only: slow_conn_def slow_transition_def slow_receiving_def slow_serving_def slow_reply_def)
  then show ?thesis by cases (simp_all add: pending_events_of_def)
qed

lemma get_all_connections_complete:
  assumes "proxy_inv st"
  shows "set (get_all_connections (pconns st)) = dom (map_of (pconns st))" "distinct (get_all_connections (pconns st))"
proof -
  note d = proxy_invD(2) [OF assms]
  show "set (get_all_connections (pconns st)) = dom (map_of (pconns st))"
  proof (intro equalityI subsetI)
    fix i assume "i \<in> set (get_all_connections (pconns st))"
    then show "i \<in> dom (map_of (pconns st))"
      by (auto simp: get_all_connections_def pending_events_iff [OF d])
  next
    fix i assume "i \<in> dom (map_of (pconns st))"
    then obtain c where c: "map_of (pconns st) i = Some c" by auto
    with conn_inv_pending [OF proxy_invD(3) [OF assms c], of i] obtain e where "e \<in> set (pending_events_of i c)"
      by (meson last_in_set)
    with c show "i \<in> set (get_all_connections (pconns st))"
      using get_associated_pending by (force simp: get_all_connections_def pending_events_iff [OF d])
  qed
qed (simp add: get_all_connections_def)

text \<open>The scan also drives the shutdown, which therefore deletes every connection.\<close>

lemma main_cleanup_all:
  assumes "proxy_inv st"
  obtains w where "main_cleanup st = Inr (st\<lparr>pworld := w, pconns := []\<rparr>)" "proxy_inv (st\<lparr>pworld := w, pconns := []\<rparr>)"
proof -
  obtain w cs where r: "delete_connections (pworld st) (pconns st) (get_all_connections (pconns st)) = Inr (w, cs)"
    "proxy_inv (st\<lparr>pworld := w, pconns := cs\<rparr>)"
    "dom (map_of cs) = dom (map_of (pconns st)) - set (get_all_connections (pconns st))"
    by (rule delete_connections_inv [OF assms get_all_connections_complete(2) [OF assms]])
      (simp add: get_all_connections_complete(1) [OF assms])
  then have "cs = []" unfolding get_all_connections_complete(1) [OF assms] by (auto simp: dom_map_of_conv_image_fst)
  with r that show thesis by (simp add: main_cleanup_def)
qed

lemma allocate_hybridbufs_clean:
  obtains hs where "allocate_hybridbufs n (Some healthy_disk) = Inr hs" "length hs = n" "\<forall>h \<in> set hs. clean_history h"
proof (induction n arbitrary: thesis)
  case (Suc n)
  obtain h where "Hybridbuf_new (Some healthy_disk) = Inr h" "clean_history h" by (rule new_history)
  moreover obtain hs where "allocate_hybridbufs n (Some healthy_disk) = Inr hs" "length hs = n"
    "\<forall>h \<in> set hs. clean_history h" using Suc.IH by blast
  ultimately show thesis by (intro Suc.prems [of "h # hs"]) simp_all
qed simp

lemma main_start_inv:
  assumes "su_disk s = Some healthy_disk" "main_start s = Inr (Inr st)"
  shows "proxy_inv st" "pconns st = []" "next_id st = 0" "scheduled st = []" "connection_count (pworld st) = 0"
proof -
  let ?ns = "\<lparr>locals = local_init, open_socks = 0\<rparr>"
  obtain hs where hs: "allocate_hybridbufs MAX_HYBRID_POOL (Some healthy_disk) = Inr hs" "length hs = MAX_HYBRID_POOL"
    "\<forall>h \<in> set hs. clean_history h" by (rule allocate_hybridbufs_clean)
  from assms hs(1) obtain ns1 ns2 where ns: "Server_test_server_alive (su_net s) ?ns = Inr (True, ns1)"
    "passive_TCP True (su_socket s) (su_reuse s) (su_bind s) (su_listen s) ns1 = Inr ns2"
    and st: "st = \<lparr>pworld = \<lparr>hybridbuf_pool = hs, connection_count = 0, active_count = 0, netst = ns2\<rparr>,
                   pconns = [], next_id = 0, scheduled = []\<rparr>"
    by (auto simp: main_start_def assertE_def elim!: bindE_InrE split: if_splits)
  from ns(1) obtain ns0 where c: "connect_TCP (su_net s) ?ns = Inr (True, ns0)" "locals ns1 = locals ns0"
    by (auto simp: Server_test_server_alive_def elim!: bindE_InrE split: if_splits)
  then have "socket_ok (su_net s)" by (auto simp: connect_TCP_def split: if_splits)
  moreover have "at_index 0 (locals ?ns)" using at_index_init by simp
  ultimately obtain j ns' where "connect_TCP (su_net s) ?ns = Inr ((\<exists>j < total_local_addr. bind_ok (su_net s) (cycle_addr j))
      \<and> connect_ok (su_net s), ns')" "at_index j (locals ns')"
    using connect_TCP_spec [of 0 ?ns "su_net s"] by blast
  with c have "at_index j (locals ns1)" by simp
  moreover have "locals ns2 = locals ns1" using ns(2) by (auto simp: passive_TCP_def Let_def split: if_splits)
  ultimately have "\<exists>j. at_index j (locals ns2)" by auto
  with hs(2,3) st show "proxy_inv st" "pconns st = []" "next_id st = 0" "scheduled st = []" "connection_count (pworld st) = 0"
    by (simp_all add: proxy_inv_def world_inv_def count_servers_def)
qed

section \<open>Steps\<close>

text \<open>
  How one event can end: with the invariant, or in one of the two faults of the program, each
  only in the situation named.
\<close>

definition log_after_free :: "event \<Rightarrow> 'p proxy \<Rightarrow> bool" where
  "log_after_free ev st \<longleftrightarrow>
     (\<exists>i c sv. ev = ServerWritable i \<and> map_of (pconns st) i = Some c \<and> in_transition c
        \<and> server c = Some sv \<and> queue_runs_dry sv)"

definition step_ok :: "event \<Rightarrow> 'p proxy \<Rightarrow> 'p proxy res \<Rightarrow> bool" where
  "step_ok ev st r \<longleftrightarrow>
     (case r of Inr st' \<Rightarrow> proxy_inv st'
      | Inl f \<Rightarrow> f = NullDeref \<and> log_after_free ev st \<or> f = UseAfterFree \<and> (\<exists>env. ev = SlowTimer env))"

context conn_handler
begin

lemma on_conn_step_ok:
  assumes "proxy_inv st" "map_of (pconns st) i = Some c" "ready c"
  shows "step_ok ev st (on_conn run i st)"
  by (rule on_conn_inv [OF assms]) (simp add: step_ok_def)

end

definition new_conn :: "sock \<Rightarrow> hybridbuf \<Rightarrow> 'p connection" where
  "new_conn sk h = \<lparr>client = (new_client sk h)\<lparr>c_read_evt := True\<rparr>, server = None, parser = None,
     fast_mode = True, in_transition = False, past_servers = []\<rparr>"

lemma dispatch_accept_cases:
  fixes st :: "'p proxy"
  assumes st: "proxy_inv st" and env: "env_ok env"
  obtains (refused) "dispatch ll (Accept env (Some sk)) st = Inr st" "connection_count (pworld st) \<ge> MAX_CONNECTION"
  | (accepted) w' h where "dispatch ll (Accept env (Some sk)) st =
        Inr (st\<lparr>pworld := w', pconns := (next_id st, new_conn sk h) # pconns st, next_id := next_id st + 1\<rparr>)"
      "world_inv w'" "clean_history h" "connection_count (pworld st) < MAX_CONNECTION"
      "connection_count w' = connection_count (pworld st) + 1" "active_count w' = active_count (pworld st)"
proof -
  let ?acc = "Connection_accept_new env (pworld st) (Some sk) :: (world \<times> (sock + 'p connection)) res"
  consider sk' where "?acc = Inr (pworld st, Inl sk')" "connection_count (pworld st) \<ge> MAX_CONNECTION"
    | w' h where "?acc = Inr (w', Inr (new_conn sk h))"
      "world_inv w'" "clean_history h" "connection_count (pworld st) < MAX_CONNECTION"
      "connection_count w' = connection_count (pworld st) + 1" "active_count w' = active_count (pworld st)"
    unfolding new_conn_def by (rule accept_new_safe [OF env proxy_invD(1) [OF st]]) blast+
  then show thesis
  proof cases
    case (1 sk')
    with refused show thesis by (simp add: dispatch_def)
  next
    case (2 w' h)
    with accepted [where w' = w' and h = h] show thesis by (simp add: dispatch_def)
  qed
qed

lemma dispatch_accept:
  assumes st: "proxy_inv st" and env: "env_ok env"
  shows "step_ok ev st (dispatch ll (Accept env (Some sk)) st)"
proof (cases rule: dispatch_accept_cases [OF st env, where ll = ll and sk = sk])
  case 1
  with st show ?thesis by (simp add: step_ok_def)
next
  case (2 w' h)
  from st have "map_of (pconns st) (next_id st) = None" by (metis less_irrefl not_None_eq proxy_inv_def)
  then have "next_id st \<notin> fst ` set (pconns st)" by (simp add: map_of_eq_None_iff)
  moreover have "conn_inv (new_conn sk h :: 'a connection)" "has_server (new_conn sk h :: 'a connection) = 0"
    using accepted_inv [OF 2(3)] by (simp_all add: new_conn_def has_server_def)
  ultimately show ?thesis using 2 st
    by (auto simp: step_ok_def proxy_inv_def count_servers_def less_Suc_eq)
qed

lemma dispatch_client:
  assumes ll: "llhttp_ok ll" and st: "proxy_inv st"
  shows "env_ok env \<Longrightarrow> enabled (ClientReadable env i) st \<Longrightarrow> step_ok ev st (dispatch ll (ClientReadable env i) st)"
    and "enabled (ClientWritable i) st \<Longrightarrow> step_ok ev st (dispatch ll (ClientWritable i) st)"
proof -
  note d = pending_events_iff [OF proxy_invD(2) [OF st]]
  assume "enabled (ClientReadable env i) st" "env_ok env"
  with ll obtain c where "map_of (pconns st) i = Some c" "llhttp_ok ll \<and> env_ok env \<and> c_read_evt (client c)"
    by (auto simp: enabled_def d get_associated_conn_def pending_events_of_def split: if_splits option.splits)
  then show "step_ok ev st (dispatch ll (ClientReadable env i) st)"
    by (simp add: dispatch_def client_readable.on_conn_step_ok [OF st])
next
  note d = pending_events_iff [OF proxy_invD(2) [OF st]]
  assume "enabled (ClientWritable i) st"
  then obtain c where "map_of (pconns st) i = Some c" "c_write_evt (client c)"
    by (auto simp: enabled_def d get_associated_conn_def pending_events_of_def split: if_splits option.splits)
  then show "step_ok ev st (dispatch ll (ClientWritable i) st)"
    by (simp add: dispatch_def client_writable.on_conn_step_ok [OF st])
qed

lemma dispatch_server:
  assumes st: "proxy_inv st"
  shows "enabled (ServerReadable i t) st \<Longrightarrow> step_ok ev st (dispatch ll (ServerReadable i t) st)"
    and "enabled (ServerWritable i) st \<Longrightarrow> step_ok (ServerWritable i) st (dispatch ll (ServerWritable i) st)"
proof -
  assume "enabled (ServerReadable i t) st"
  then obtain c where "map_of (pconns st) i = Some c" "server c \<noteq> None"
    by (auto simp: enabled_def split: option.splits)
  then show "step_ok ev st (dispatch ll (ServerReadable i t) st)"
    by (simp add: dispatch_def server_readable.on_conn_step_ok [OF st])
next
  assume "enabled (ServerWritable i) st"
  then obtain c sv where c: "map_of (pconns st) i = Some c" "server c = Some sv"
    by (auto simp: enabled_def split: option.splits)
  show "step_ok (ServerWritable i) st (dispatch ll (ServerWritable i) st)"
  proof (cases "in_transition c \<and> queue_runs_dry sv")
    case False
    with c(2) have "\<exists>sv. server c = Some sv \<and> (in_transition c \<longrightarrow> \<not> queue_runs_dry sv)" by blast
    with c(1) show ?thesis
      by (simp add: dispatch_def server_writable.on_conn_step_ok [OF st])
  next
    case True
    from st c have w: "world_inv (pworld st)" "conn_inv c" by (auto dest: proxy_invD)
    with True have "history_ok (client c)" "slow_transition c"
      by (auto simp only: conn_inv_def fast_fresh_def fast_active_def fast_reply_def slow_receiving_def
          slow_serving_def slow_reply_def)
    with Server_on_writable_transition [OF w(1) this c(2)] True have "Server_on_writable (pworld st) c = Inl NullDeref"
      by simp
    with c True show ?thesis by (auto simp: dispatch_def on_conn_def step_ok_def log_after_free_def)
  qed
qed

lemma dispatch_spec:
  assumes ll: "llhttp_ok ll" and st: "proxy_inv st" and ok: "event_ok ev" and en: "enabled ev st"
  shows "step_ok ev st (dispatch ll ev st)"
proof (cases ev)
  case (Accept env sk)
  with ok obtain s where "env_ok env" "sk = Some s" by (auto simp: event_ok_def split: option.splits)
  with Accept dispatch_accept [OF st] show ?thesis by simp
next
  case (MonitorTick envs)
  with ok have "\<And>i. env_ok (envs i)" by (simp add: event_ok_def)
  then obtain w cs where "monitor_loop ll envs (pworld st) (pconns st) (get_all_connections (pconns st)) = Inr (w, cs)"
    "proxy_inv (st\<lparr>pworld := w, pconns := cs\<rparr>)"
    using monitor_loop_inv [OF st] get_all_connections_complete [OF st] by (metis subset_refl)
  with MonitorTick show ?thesis by (simp add: dispatch_def step_ok_def monitor_data_rates_def)
next
  case (SlowTimer env)
  with ok en obtain es rest where e: "env_ok env" "scheduled st = es # rest"
    by (auto simp: event_ok_def enabled_def neq_Nil_conv)
  have rest: "proxy_inv (x\<lparr>scheduled := rest\<rparr>) = proxy_inv x" for x :: "'a proxy" by (simp add: proxy_inv_def)
  from put_events_inv [OF st e(1), of ll es] SlowTimer e show ?thesis
    by (auto simp: dispatch_def step_ok_def proxy_inv_def split: sum.splits)
next
  case (ClientReadable env i)
  with ok have "env_ok env" by (simp add: event_ok_def)
  with ClientReadable en dispatch_client(1) [OF ll st] show ?thesis by simp
next
  case (ClientWritable i)
  with en dispatch_client(2) [OF ll st] show ?thesis by simp
next
  case (ServerReadable i t)
  with en dispatch_server(1) [OF st] show ?thesis by simp
next
  case (ServerWritable i)
  with en dispatch_server(2) [OF st] show ?thesis by simp
next
  case SlowSignal
  with st show ?thesis by (simp add: dispatch_def step_ok_def proxy_inv_def)
qed

lemma reachable_proxy_inv:
  assumes "llhttp_ok ll" "reachable ll st"
  shows "proxy_inv st"
  using assms(2)
proof induction
  case (start s st)
  then show ?case by (rule main_start_inv)
next
  case (step st ev st')
  from dispatch_spec [OF assms(1) step.IH step.hyps(2,3)] step.hyps(4) show ?case by (simp add: step_ok_def)
qed

section \<open>A run\<close>

text \<open>A system on which everything works, and the proxy with its first connection.\<close>

definition good_env :: env where
  "good_env = \<lparr>e_net = \<lparr>socket_ok = True, bind_ok = (\<lambda>_. True), connect_ok = True\<rparr>,
     e_server_sock = idle_sock, e_nonblocking = True, e_503 = Some (0, idle_sock),
     e_disk = (\<lambda>_. Some healthy_disk), e_reopen = True\<rparr>"

lemma good_env_ok [simp]: "env_ok good_env" "fresh_sock idle_sock"
  by (simp_all add: good_env_def env_ok_def fresh_sock_def idle_sock_def)

definition good_startup :: startup where
  "good_startup = \<lparr>su_net = \<lparr>socket_ok = True, bind_ok = (\<lambda>_. True), connect_ok = True\<rparr>,
     su_limit = Some (1024, MAX_FILE_DSC), su_setlimit = True, su_socket = True, su_reuse = True, su_bind = True,
     su_listen = True, su_disk = Some healthy_disk, su_inherited = 3, su_sigpipe = True, su_sigint = True\<rparr>"

lemma good_startup_starts:
  obtains st :: "'p proxy" where "main_start good_startup = Inr (Inr st)"
proof -
  let ?ns = "\<lparr>locals = local_init, open_socks = 0\<rparr>" let ?env = "su_net good_startup"
  obtain hs where "allocate_hybridbufs MAX_HYBRID_POOL (Some healthy_disk) = Inr hs" by (rule allocate_hybridbufs_clean)
  moreover have "at_index 0 (locals ?ns)" "socket_ok ?env" using at_index_init by (simp_all add: good_startup_def)
  then obtain ns' where "connect_TCP ?env ?ns = Inr ((\<exists>j < total_local_addr. bind_ok ?env (cycle_addr j)) \<and> connect_ok ?env, ns')"
    by (rule connect_TCP_spec)
  moreover have "\<exists>j < total_local_addr. bind_ok ?env (cycle_addr j)"
    by (rule exI [of _ 0]) (simp add: good_startup_def total_local_addr_eq)
  ultimately show thesis
    by (intro that) (simp add: main_start_def Server_test_server_alive_def good_startup_def raise_open_file_limit_def passive_TCP_def)
qed

lemma first_accept:
  assumes "fresh_sock sk"
  obtains st0 st :: "'p proxy" and h where "su_disk good_startup = Some healthy_disk" "main_start good_startup = Inr (Inr st0)"
    "pconns st0 = []" "event_ok (Accept good_env (Some sk))" "enabled (Accept good_env (Some sk)) st0"
    "dispatch ll (Accept good_env (Some sk)) st0 = Inr st" "proxy_inv st" "pconns st = [(0, new_conn sk h)]"
    "clean_history h" "scheduled st = []"
proof -
  obtain st0 :: "'p proxy" where m: "main_start good_startup = Inr (Inr st0)" by (rule good_startup_starts)
  have dk: "su_disk good_startup = Some healthy_disk" by (simp add: good_startup_def)
  note i = main_start_inv [OF dk m]
  let ?ev = "Accept good_env (Some sk)"
  have ok: "event_ok ?ev" "enabled ?ev st0" using assms by (simp_all add: event_ok_def enabled_def)
  from dispatch_accept [OF i(1) good_env_ok(1), of ?ev ll sk] have inv: "\<And>st. dispatch ll ?ev st0 = Inr st \<Longrightarrow> proxy_inv st"
    by (simp add: step_ok_def)
  show thesis
  proof (cases rule: dispatch_accept_cases [OF i(1) good_env_ok(1), where ll = ll and sk = sk])
    case 1
    with i show thesis by (simp add: MAX_CONNECTION_def)
  next
    case (2 w' h)
    from that [OF dk m i(2) ok 2(1) inv [OF 2(1)] _ 2(3)] i show thesis by simp
  qed
qed

lemma first_connection:
  assumes "fresh_sock sk"
  obtains st :: "'p proxy" and h where "reachable ll st" "proxy_inv st" "pconns st = [(0, new_conn sk h)]"
    "clean_history h" "scheduled st = []"
proof (rule first_accept [OF assms, where ll = ll and 'p = 'p], goal_cases)
  case (1 st0 st h)
  from that [OF reachable.step [OF reachable.start [OF 1(2,3)] 1(5-7)] 1(8-11)] show thesis .
qed

text \<open>The first connection after its client has spoken: it relays.\<close>

definition speaking_sock :: sock where
  "speaking_sock = idle_sock\<lparr>rx := [RData ''GET'']\<rparr>"

lemma read_all_speaking:
  assumes "3 < n"
  shows "read_all speaking_sock n = (''GET'', \<lparr>nbytes = 3, has_error = True, has_eof = False\<rparr>,
    speaking_sock\<lparr>rx := [], received := ''GET'', sock_errno := EAGAIN\<rparr>)"
  using assms read_all_chunk [of speaking_sock "''GET''" n] by (simp add: speaking_sock_def idle_sock_def)

lemma good_env_server:
  assumes "world_inv w"
  obtains w' where "Server_new good_env w = Inr (w', Some \<lparr>s_sock = idle_sock, s_read_evt = False,
        s_read_timeout = False, s_write_evt = False, s_queued_output = None\<rparr>)" "world_inv w'"
proof -
  from assms obtain i where "at_index i (locals (netst w))" by (auto simp: world_inv_def)
  moreover have "socket_ok (e_net good_env)" by (simp add: good_env_def)
  ultimately obtain ns' where
    "connect_TCP (e_net good_env) (netst w) = Inr ((\<exists>j < total_local_addr. bind_ok (e_net good_env) (cycle_addr j))
       \<and> connect_ok (e_net good_env), ns')" by (rule connect_TCP_spec)
  moreover have "\<exists>j < total_local_addr. bind_ok (e_net good_env) (cycle_addr j)"
    by (rule exI [of _ 0]) (simp add: good_env_def total_local_addr_eq)
  ultimately have c: "connect_TCP (e_net good_env) (netst w) = Inr (True, ns')" by (simp add: good_env_def)
  from good_env_ok(1) assms show thesis
  proof (cases rule: Server_new_safe)
    case (1 w')
    with c show thesis by (simp add: Server_new_def good_env_def)
  next
    case (2 w')
    with that show thesis by (simp add: good_env_def)
  qed
qed

text \<open>What the first event of a client does: it connects to the server and forwards.\<close>

definition connected_conn :: "'p llhttp \<Rightarrow> sock \<Rightarrow> hybridbuf \<Rightarrow> 'p connection" where
  "connected_conn ll sk h = (new_conn sk h)\<lparr>parser := Some (HttpParser_new ll), server := Some \<lparr>s_sock = idle_sock,
     s_read_evt = True, s_read_timeout = False, s_write_evt = False, s_queued_output = Some Circularbuf_new\<rparr>,
     client := (client (new_conn sk h :: 'p connection))\<lparr>c_queued_output := Some Circularbuf_new\<rparr>\<rparr>"

lemma connected_conn_active:
  "clean_history h \<Longrightarrow> fast_active (connected_conn ll sk h) \<and> history_ok (client (connected_conn ll sk h))"
  by (simp add: fast_active_def connected_conn_def new_conn_def new_client_def history_ok_def clean_history_def)

lemma first_client_event:
  assumes "proxy_inv st" "pconns st = [(0, new_conn sk h)]" "clean_history h"
  obtains w where "world_inv w" "event_ok (ClientReadable good_env 0)" "enabled (ClientReadable good_env 0) st"
    "dispatch ll (ClientReadable good_env 0) st = bindE (Connection_fast_forward_cs ll w (connected_conn ll sk h))
       (\<lambda>(w', r). Inr (st\<lparr>pworld := w', pconns := put_outcome 0 r (pconns st)\<rparr>))"
proof -
  obtain w where sv: "Server_new good_env (pworld st) = Inr (w, Some \<lparr>s_sock = idle_sock, s_read_evt = False,
        s_read_timeout = False, s_write_evt = False, s_queued_output = None\<rparr>)" "world_inv w"
    using good_env_server [OF proxy_invD(1) [OF assms(1)]] .
  have "Client_on_readable ll good_env (pworld st) (new_conn sk h) = Connection_fast_forward_cs ll w (connected_conn ll sk h)"
    using sv(1) by (simp add: Client_on_readable_def new_conn_def connected_conn_def)
  with assms(2) sv(2) show thesis
    by (intro that [of w])
      (simp_all add: event_ok_def enabled_def pending_events_def pending_events_of_def dispatch_def on_conn_def new_conn_def new_client_def)
qed

lemma relaying_connection:
  obtains st and c :: "unit connection" and sv sq where "reachable line_llhttp st" "map_of (pconns st) 0 = Some c" "fast_active c"
    "server c = Some sv" "s_queued_output sv = Some sq" "received (c_sock (client c)) = ''GET''"
proof -
  have "fresh_sock speaking_sock" by (simp add: fresh_sock_def speaking_sock_def idle_sock_def)
  then obtain st0 :: "unit proxy" and h where s0: "reachable line_llhttp st0" "proxy_inv st0"
    "pconns st0 = [(0, new_conn speaking_sock h)]" "clean_history h" by (rule first_connection)
  let ?c1 = "connected_conn line_llhttp speaking_sock h"
  obtain w where ev: "event_ok (ClientReadable good_env 0)" "enabled (ClientReadable good_env 0) st0"
    "dispatch line_llhttp (ClientReadable good_env 0) st0 = bindE (Connection_fast_forward_cs line_llhttp w ?c1)
       (\<lambda>(w', r). Inr (st0\<lparr>pworld := w', pconns := put_outcome 0 r (pconns st0)\<rparr>))"
    using first_client_event [OF s0(2-4)] .
  from connected_conn_active [OF s0(4)] have act: "fast_active ?c1" "history_ok (client ?c1)" by blast+
  have space: "3 < Circularbuf_remaining_space Circularbuf_new"
    by (simp add: Circularbuf_remaining_space_def Circularbuf_new_def Circularbuf_data_size_def SOCK_IO_BUF_SIZE_def)
  have "\<exists>c sv sq. Connection_fast_forward_cs line_llhttp w ?c1 = Inr (w, Live c) \<and> fast_active c
      \<and> server c = Some sv \<and> s_queued_output sv = Some sq \<and> received (c_sock (client c)) = ''GET''"
  proof (rule fast_forward_cs_unfold [OF line_llhttp_ok act(2,1), where w = w], goal_cases)
    case (1 p sv sq cq h d stat sk p' ok h' sq2 stat_s ssk c2 sv2)
    have "sq = Circularbuf_new" "c_sock (client ?c1) = speaking_sock"
      using 1(2,3) by (auto simp: connected_conn_def new_conn_def new_client_def)
    with 1(8) read_all_speaking [OF space] have r: "d = ''GET''" "\<not> has_eof stat" "received sk = ''GET''"
      by (auto simp: speaking_sock_def idle_sock_def)
    have ok: "ok" using 1(9) r(1) by (auto simp: HttpParser_do_parse_def line_llhttp_def)
    with 1(19) r(2) have run: "Connection_fast_forward_cs line_llhttp w ?c1 =
        (if nbytes stat_s = 0 then Inr (w, Live (c2\<lparr>server := Some (sv2\<lparr>s_write_evt := True\<rparr>),
            client := (client c2)\<lparr>c_read_evt := False\<rparr>\<rparr>))
         else Inr (w, Live (c2\<lparr>server := Some sv2\<rparr>)))" by simp
    let ?c = "if nbytes stat_s = 0 then c2\<lparr>server := Some (sv2\<lparr>s_write_evt := True\<rparr>), client := (client c2)\<lparr>c_read_evt := False\<rparr>\<rparr>
      else c2\<lparr>server := Some sv2\<rparr>"
    have "fast_active ?c"
      using 1(2,3,5,6,10,14,17,18) by (auto simp: fast_active_def connected_conn_def new_conn_def new_client_def)
    moreover have "received (c_sock (client ?c)) = ''GET''" using 1(17) r(3) by simp
    ultimately show ?case using run 1(18)
      by (intro exI [of _ ?c] exI [of _ "if nbytes stat_s = 0 then sv2\<lparr>s_write_evt := True\<rparr> else sv2"] exI [of _ sq2]) auto
  qed
  then obtain c sv sq where c: "Connection_fast_forward_cs line_llhttp w ?c1 = Inr (w, Live c)" "fast_active c"
    "server c = Some sv" "s_queued_output sv = Some sq" "received (c_sock (client c)) = ''GET''" by blast
  let ?st = "st0\<lparr>pworld := w, pconns := [(0, c)]\<rparr>"
  have "dispatch line_llhttp (ClientReadable good_env 0) st0 = Inr ?st"
    using s0(3) c(1) by (simp add: ev(3) put_outcome_def)
  with s0(1) ev(1,2) have "reachable line_llhttp ?st" by (rule reachable.step)
  with c that show thesis by simp
qed

text \<open>A connection that was deleted while the slow-mode timer still holds its event.\<close>

lemma closed_before_timer:
  obtains st :: "unit proxy" where "reachable line_llhttp st" "scheduled st = [[ClientRead 0]]" "map_of (pconns st) 0 = None"
proof -
  let ?sk = "idle_sock\<lparr>rx := [REof]\<rparr>"
  have "fresh_sock ?sk" by (simp add: fresh_sock_def idle_sock_def)
  then obtain st0 :: "unit proxy" and h where s0: "reachable line_llhttp st0" "proxy_inv st0"
    "pconns st0 = [(0, new_conn ?sk h)]" "clean_history h" "scheduled st0 = []" by (rule first_connection)
  let ?st1 = "st0\<lparr>scheduled := [[ClientRead 0]]\<rparr>"
  have "pending_events (pconns st0) = [ClientRead 0]"
    using s0(3) by (simp add: pending_events_def pending_events_of_def new_conn_def new_client_def)
  then have "event_ok SlowSignal" "enabled SlowSignal st0" "dispatch line_llhttp SlowSignal st0 = Inr ?st1"
    using s0(5) by (simp_all add: event_ok_def enabled_def dispatch_def put_all_connection_slow_mode_def)
  with s0(1) have s1: "reachable line_llhttp ?st1" by (rule reachable.step)
  have "proxy_inv ?st1" "pconns ?st1 = [(0, new_conn ?sk h)]" using s0(2,3) by (simp_all add: proxy_inv_def)
  from first_client_event [OF this s0(4)] obtain w where w: "world_inv w" and ev: "event_ok (ClientReadable good_env 0)"
    "enabled (ClientReadable good_env 0) ?st1"
    "dispatch line_llhttp (ClientReadable good_env 0) ?st1 = bindE (Connection_fast_forward_cs line_llhttp w (connected_conn line_llhttp ?sk h))
       (\<lambda>(w', r). Inr (?st1\<lparr>pworld := w', pconns := put_outcome 0 r (pconns ?st1)\<rparr>))" by metis
  let ?c1 = "connected_conn line_llhttp ?sk h"
  from connected_conn_active [OF s0(4)] have act: "fast_active ?c1" "history_ok (client ?c1)" by blast+
  have "\<exists>w' c'. Connection_fast_forward_cs line_llhttp w ?c1 = Inr (w', Deleted c')"
  proof (rule fast_forward_cs_unfold [OF line_llhttp_ok act(2,1), where w = w], goal_cases)
    case (1 p sv sq cq h0 d stat sk p' ok h' sq2 stat_s ssk c2 sv2)
    have "c_sock (client ?c1) = ?sk" by (simp add: connected_conn_def new_conn_def new_client_def)
    moreover have "sq = Circularbuf_new" using 1(2,3) by (auto simp: connected_conn_def)
    moreover have "0 < Circularbuf_remaining_space Circularbuf_new"
      by (simp add: Circularbuf_remaining_space_def Circularbuf_new_def Circularbuf_data_size_def SOCK_IO_BUF_SIZE_def)
    ultimately have r: "d = []" "has_eof stat" using 1(8) read_all_eof [of ?sk] by auto
    have "ok" using 1(9) r(1) by (auto simp: HttpParser_do_parse_def line_llhttp_def)
    moreover have "history_ok (client (c2\<lparr>server := Some sv2\<rparr>))" using 1(11,12,17) by (simp add: history_ok_def)
    with w obtain w' c' where "Connection_delete w (c2\<lparr>server := Some sv2\<rparr>) = Inr (w', Deleted c')" by (rule delete_safe)
    ultimately show ?case using 1(19) r(2) by simp
  qed
  then obtain w' and c' :: "unit connection" where "Connection_fast_forward_cs line_llhttp w ?c1 = Inr (w', Deleted c')" by blast
  with ev(3) s0(3) have d: "dispatch line_llhttp (ClientReadable good_env 0) ?st1 = Inr (?st1\<lparr>pworld := w', pconns := []\<rparr>)"
    by (simp add: put_outcome_def)
  show thesis by (rule that [OF reachable.step [OF s1 ev(1,2) d]]) simp_all
qed

end
