(* ===== verification/Dataflow.thy ===== *)
theory Dataflow
  imports System "HOL-Library.Sublist"
begin

text \<open>
  What the bytes do.  In the direction of the client, whatever mode the connection is in, the
  bytes delivered so far followed by those still queued are the bytes taken from the servers of
  the connection, server after server (the last bytes of a server may be dropped when it is
  closed).  In the direction of the server, fast mode relays exactly what the client sent.  Both
  are invariants of every handler, with one exception: a connection that is put into slow mode
  while in reply-only mode loses its queued reply.
\<close>

section \<open>The two streams\<close>

definition pending_reply :: "'p connection \<Rightarrow> char list" where
  "pending_reply c =
     (if fast_mode c then (case c_queued_output (client c) of None \<Rightarrow> [] | Some q \<Rightarrow> Circularbuf_contents q)
      else (case response_buf (client c) of None \<Rightarrow> [] | Some pb \<Rightarrow> drop (reader_pos pb) (content pb)))"

definition reply_stream :: "'p connection \<Rightarrow> char list" where
  "reply_stream c = sent (c_sock (client c)) @ pending_reply c"

definition taken_from_server :: "'p connection \<Rightarrow> char list" where
  "taken_from_server c = (case server c of None \<Rightarrow> [] | Some sv \<Rightarrow> received (s_sock sv))"

definition reply_inv :: "'p connection \<Rightarrow> bool" where
  "reply_inv c \<longleftrightarrow>
     (\<exists>ks. list_all2 prefix ks (map received (rev (past_servers c)))
        \<and> reply_stream c = concat ks @ taken_from_server c)"

text \<open>A connection that went into slow mode with a queued reply still holds the queue.\<close>

definition reply_lost :: "'p connection \<Rightarrow> bool" where
  "reply_lost c \<longleftrightarrow> \<not> fast_mode c \<and> c_queued_output (client c) \<noteq> None"

definition request_inv :: "'p connection \<Rightarrow> bool" where
  "request_inv c \<longleftrightarrow>
     (\<forall>sv sq. server c = Some sv \<longrightarrow> s_queued_output sv = Some sq \<longrightarrow>
        sent (s_sock sv) @ Circularbuf_contents sq = received (c_sock (client c)))"

definition data_inv :: "'p connection \<Rightarrow> bool" where
  "data_inv c \<longleftrightarrow> (reply_lost c \<or> reply_inv c)
     \<and> (fast_mode c \<longrightarrow> request_inv c)
     \<and> (fast_mode c \<and> c_queued_output (client c) = None \<longrightarrow> received (c_sock (client c)) = [])"

section \<open>Preservation, abstractly\<close>

lemma reply_inv_extend:
  assumes "reply_inv c" "past_servers c' = past_servers c" "reply_stream c' = reply_stream c @ d"
    "taken_from_server c' = taken_from_server c @ d"
  shows "reply_inv c'"
  using assms by (auto simp: reply_inv_def)

text \<open>Closing a server from which more was read than was passed on keeps the invariant.\<close>

lemma reply_inv_free_server_drop:
  assumes "reply_inv c" "server c = Some sv" "server c1 = Some sv1" "prefix (received (s_sock sv)) (received (s_sock sv1))"
    "past_servers c1 = past_servers c" "reply_stream c1 = reply_stream c"
  shows "reply_inv (snd (Connection_free_server w c1))"
proof -
  let ?s = "close_socket_gracefully (s_sock sv1)"
  from assms(1,2) obtain ks where ks: "list_all2 prefix ks (map received (rev (past_servers c)))"
    "reply_stream c = concat ks @ received (s_sock sv)" by (auto simp: reply_inv_def taken_from_server_def)
  obtain x where "received ?s = received (s_sock sv1) @ x" using close_socket_gracefully_spec(1) by blast
  with ks(1) assms(4) have "list_all2 prefix (ks @ [received (s_sock sv)]) (map received (rev (?s # past_servers c)))"
    by (auto simp: list_all2_appendI intro: prefix_order.trans)
  moreover have "reply_stream (snd (Connection_free_server w c1)) = reply_stream c1"
    by (simp add: reply_stream_def pending_reply_def)
  then have "reply_stream (snd (Connection_free_server w c1)) = concat (ks @ [received (s_sock sv)])"
    using ks(2) assms(6) by simp
  ultimately show ?thesis using assms(3,5)
    by (auto simp: reply_inv_def taken_from_server_def Connection_free_server_def intro!: exI [of _ "ks @ [received (s_sock sv)]"])
qed

lemma reply_inv_free_server:
  assumes "reply_inv c"
  shows "reply_inv (snd (Connection_free_server w c))"
  using assms reply_inv_free_server_drop [OF assms, of _ c]
  by (cases "server c") (simp_all add: Connection_free_server_def)

text \<open>The parts of a connection the reply stream depends on.\<close>

definition same_reply :: "'p connection \<Rightarrow> 'p connection \<Rightarrow> bool" where
  "same_reply c c' \<longleftrightarrow> past_servers c' = past_servers c \<and> fast_mode c' = fast_mode c
     \<and> c_queued_output (client c') = c_queued_output (client c) \<and> response_buf (client c') = response_buf (client c)
     \<and> sent (c_sock (client c')) = sent (c_sock (client c)) \<and> taken_from_server c' = taken_from_server c"

lemma same_reply_inv: "same_reply c c' \<Longrightarrow> reply_inv c \<Longrightarrow> reply_inv c'"
  by (auto simp: same_reply_def reply_inv_def reply_stream_def pending_reply_def)

lemma same_reply_lost: "same_reply c c' \<Longrightarrow> reply_lost c \<Longrightarrow> reply_lost c'"
  by (simp add: same_reply_def reply_lost_def)

lemma data_inv_same_slow: "same_reply c c' \<Longrightarrow> \<not> fast_mode c \<Longrightarrow> data_inv c \<Longrightarrow> data_inv c'"
proof -
  assume s: "same_reply c c'" and "\<not> fast_mode c" "data_inv c"
  then have "reply_lost c' \<or> reply_inv c'" "\<not> fast_mode c'"
    using same_reply_inv [OF s] same_reply_lost [OF s] by (auto simp: data_inv_def same_reply_def)
  then show ?thesis by (simp add: data_inv_def)
qed

lemma data_inv_slowI: "\<not> fast_mode c \<Longrightarrow> reply_lost c \<or> reply_inv c \<Longrightarrow> data_inv c"
  by (simp add: data_inv_def)

lemma delete_not_live: "Connection_delete w c \<noteq> Inr (w', Live c')"
  by (auto simp: Connection_delete_def bindE_eq_Inr_iff case_prod_beta)

section \<open>Fast mode\<close>

lemma close_or_reply_data:
  assumes "Connection_close_or_reply w c = Inr (w', Live c')" "reply_inv c" "fast_mode c"
  shows "data_inv c'"
proof -
  from assms(1) obtain cq where cq: "c_queued_output (client c) = Some cq"
    "c' = (let c2 = Connection_free_parser (snd (Connection_free_server w c))
           in c2\<lparr>client := Client_set_reply_only_mode (client c2)\<rparr>)"
    by (auto simp: Connection_close_or_reply_def case_prod_beta bindE_eq_Inr_iff Let_def Connection_free_parser_def
        delete_not_live split: if_splits)
  let ?f = "snd (Connection_free_server w c)"
  have "same_reply ?f c'"
    using cq(2) by (simp add: same_reply_def Connection_free_parser_def client_ops taken_from_server_def Let_def)
  then have "reply_inv c'" using reply_inv_free_server [OF assms(2)] by (rule same_reply_inv)
  moreover have "server c' = None" "c_queued_output (client c') = Some cq"
    using cq by (simp_all add: Connection_free_parser_def client_ops Let_def)
  ultimately show ?thesis by (simp add: data_inv_def request_inv_def)
qed

lemma fast_forward_cs_data:
  assumes ll: "llhttp_ok ll" and hist: "history_ok (client c)" and act: "fast_active c" and d: "data_inv c"
    and run: "Connection_fast_forward_cs ll w c = Inr (w', Live c')"
  shows "data_inv c'"
proof (rule fast_forward_cs_unfold [OF ll hist act, where w = w], goal_cases)
  case (1 p sv sq cq h d stat sk p' ok h' sq2 stat_s ssk c2 sv2)
  have f: "fast_mode c" using act by (simp add: fast_active_def)
  note rs = read_all_spec [OF 1(8)]
  have ri: "reply_inv c" and qi: "request_inv c" using d f by (auto simp: data_inv_def reply_lost_def)
  from qi 1(2,3) have q: "sent (s_sock sv) @ Circularbuf_contents sq = received (c_sock (client c))"
    by (simp add: request_inv_def)
  have c2: "reply_inv c2" by (rule same_reply_inv [OF _ ri]) (simp add: 1(17) same_reply_def taken_from_server_def rs)
  have live: "data_inv x" if "server x = Some sv3" "s_sock sv3 = ssk" "s_queued_output sv3 = Some sq2"
    "past_servers x = past_servers c" "fast_mode x" "c_queued_output (client x) = Some cq" "c_sock (client x) = sk"
    for x :: "'a connection" and sv3
  proof -
    have "reply_inv x"
      by (rule reply_inv_extend [OF ri, where d = "[]"])
        (use that f 1(2,5,16) rs in \<open>simp_all add: reply_stream_def pending_reply_def taken_from_server_def\<close>)
    moreover have "request_inv x" using that 1(15) q rs(1) by (simp add: request_inv_def)
    ultimately show ?thesis using that by (simp add: data_inv_def)
  qed
  show ?case
  proof (cases ok)
    case False
    with run 1(19) have "Connection_close_or_reply w c2 = Inr (w', Live c')" by simp
    then show ?thesis by (rule close_or_reply_data [OF _ c2]) (simp add: f 1(17))
  next
    case True
    with run 1(19) have "c' = c2\<lparr>server := Some (sv2\<lparr>s_write_evt := True\<rparr>), client := (client c2)\<lparr>c_read_evt := False\<rparr>\<rparr>
       \<or> c' = c2\<lparr>server := Some sv2\<rparr>" by (auto simp: delete_not_live split: if_splits)
    then show ?thesis using f 1(5,17,18) live [of c'] by (elim disjE) simp_all
  qed
qed

lemma fast_forward_sc_data:
  assumes hist: "history_ok (client c)" and act: "fast_active c" and d: "data_inv c"
    and run: "Connection_fast_forward_sc w c = Inr (w', Live c')"
  shows "data_inv c'"
proof (rule fast_forward_sc_unfold [OF hist act, where w = w], goal_cases)
  case (1 sv cq d stat cq2 stat_c sk ssk cl2 sv2 c2)
  have f: "fast_mode c" using act by (simp add: fast_active_def)
  note rs = read_all_spec [OF 1(4)]
  have ri: "reply_inv c" and qi: "request_inv c" using d f by (auto simp: data_inv_def reply_lost_def)
  have live: "reply_inv x \<and> request_inv x \<and> data_inv x" if "server x = Some sv3" "s_sock sv3 = ssk" "s_queued_output sv3 = s_queued_output sv"
    "past_servers x = past_servers c" "fast_mode x" "c_queued_output (client x) = Some cq2" "c_sock (client x) = sk"
    for x :: "'a connection" and sv3
  proof -
    have "reply_inv x"
      by (rule reply_inv_extend [OF ri, where d = d])
        (use that f 1(1,2,5) rs in \<open>simp_all add: reply_stream_def pending_reply_def taken_from_server_def\<close>)
    moreover have "request_inv x" using that 1(1,6) qi rs(6) by (simp add: request_inv_def)
    ultimately show ?thesis using that by (simp add: data_inv_def)
  qed
  have c2: "reply_inv c2" using live [of c2 sv2] f 1(1,7-9) by simp
  show ?case
  proof (cases "has_eof stat")
    case True
    with run 1(10) have "Connection_close_or_reply w c2 = Inr (w', Live c')" by simp
    then show ?thesis by (rule close_or_reply_data [OF _ c2]) (simp add: f 1(9))
  next
    case False
    with run 1(10) have "c' = c2\<lparr>server := Some (sv2\<lparr>s_read_evt := False\<rparr>), client := cl2\<lparr>c_write_evt := True\<rparr>\<rparr> \<or> c' = c2"
      by (auto split: if_splits)
    then show ?thesis using f 1(7-9) live [of c'] by (elim disjE) simp_all
  qed
qed

text \<open>Draining a queue moves bytes along the stream.\<close>

lemma client_writable_fast_data:
  assumes fast: "fast_mode c" and d: "data_inv c" and q: "c_queued_output (client c) = Some cq" "queue_ok cq"
    and run: "Client_on_writable w c = Inr (w', Live c')"
  shows "data_inv c'"
proof -
  have ri: "reply_inv c" and qi: "request_inv c" using d fast by (auto simp: data_inv_def reply_lost_def)
  obtain stat cq1 sk where w: "Circularbuf_write_all_to cq (c_sock (client c)) = Inr (stat, cq1, sk)"
    "Circularbuf_drained cq (c_sock (client c)) stat cq1 sk"
    using queue_drain [OF q(2)] .
  note st = Circularbuf_drained_stream [OF w(2)]
  from run fast q(1) w(1) have c': "past_servers c' = past_servers c" "fast_mode c'" "c_queued_output (client c') = Some cq1"
    "c_sock (client c') = sk" "taken_from_server c' = taken_from_server c"
    "request_inv c' = request_inv (c\<lparr>client := (client c)\<lparr>c_sock := sk\<rparr>\<rparr>)"
    by (auto simp: Client_on_writable_def Let_def delete_not_live taken_from_server_def request_inv_def
        split: option.splits if_splits)
  have "reply_inv c'"
    by (rule reply_inv_extend [OF ri, where d = "[]"])
      (use c' q fast st in \<open>simp_all add: reply_stream_def pending_reply_def\<close>)
  moreover have "request_inv c'" using c'(6) qi st(2) by (simp add: request_inv_def)
  ultimately show ?thesis using c' by (simp add: data_inv_def)
qed

lemma server_writable_fast_data:
  assumes fast: "fast_mode c" and d: "data_inv c" and c: "server c = Some sv" "s_queued_output sv = Some sq" "queue_ok sq"
    and run: "Server_on_writable w c = Inr (w', Live c')"
  shows "data_inv c'"
proof -
  have ri: "reply_inv c" and qi: "request_inv c" using d fast by (auto simp: data_inv_def reply_lost_def)
  obtain stat sq1 ssk where w: "Circularbuf_write_all_to sq (s_sock sv) = Inr (stat, sq1, ssk)"
    "Circularbuf_drained sq (s_sock sv) stat sq1 ssk"
    using queue_drain [OF c(3)] .
  note st = Circularbuf_drained_stream [OF w(2)]
  let ?sv = "sv\<lparr>s_write_evt := False, s_sock := ssk, s_queued_output := Some sq1\<rparr>"
  from run fast c w(1) have c': "c' = c\<lparr>client := (client c)\<lparr>c_read_evt := True\<rparr>, server := Some ?sv\<rparr>"
    by (auto simp: Server_on_writable_def Let_def)
  have "same_reply c c'" using c' c(1) st(2) by (simp add: same_reply_def taken_from_server_def)
  with ri have "reply_inv c'" by (blast intro: same_reply_inv)
  moreover have "request_inv c'" using c' qi c st by (simp add: request_inv_def)
  ultimately show ?thesis using c' d fast by (simp add: data_inv_def)
qed

section \<open>Slow mode\<close>

lemma recv_slowly_same_reply:
  assumes "Client_recv_to_buffer_slowly ll env w c = Inr (w', Live c')" "env_ok env" "server c = None"
  shows "same_reply c c'"
proof -
  have sv: "received (s_sock sv) = []" if "Server_new env w = Inr (w1, Some sv)" for w1 sv
    using that assms(2) by (auto simp: Server_new_def bindE_eq_Inr_iff Let_def env_ok_def fresh_sock_def split: if_splits)
  from assms(1,3) show ?thesis unfolding Client_recv_to_buffer_slowly_def Let_def case_prod_beta
    by (auto elim!: bindE_InrE split: if_split_asm option.split_asm
        simp: Connection_free_parser_def delete_not_live same_reply_def client_ops taken_from_server_def dest!: sv)
qed

lemma send_response_data:
  assumes slow: "slow_conn c" and d: "data_inv c" and run: "Client_send_response_slowly w c = Inr (w', Live c')"
  shows "data_inv c'"
proof (rule send_response_unfold [OF slow, where w = w], goal_cases)
  case (1 pb d pb1 sk pb2 c1)
  have f: "\<not> fast_mode c" using slow by (blast elim: slow_connE)
  from run 1(10,11) consider "d = []" "c' = c1"
    | "c' = c\<lparr>client := (client c)\<lparr>c_sock := sk, response_buf := Some pb2\<rparr>\<rparr>"
    by (auto simp: delete_not_live split: if_splits)
  then have c': "past_servers c' = past_servers c" "\<not> fast_mode c'" "reply_stream c' = reply_stream c"
    "taken_from_server c' = taken_from_server c" "c_queued_output (client c') = c_queued_output (client c)"
    by (cases; use f 1 in \<open>simp add: reply_stream_def pending_reply_def taken_from_server_def\<close>)+
  with d f show ?case
    by (auto simp: data_inv_def reply_lost_def intro: reply_inv_extend [where d = "[]"])
qed

lemma server_recv_data:
  assumes serv: "slow_serving c" and d: "data_inv c" and run: "Server_recv_to_buffer_slowly ll w c = Inr (w', Live c')"
  shows "data_inv c'"
proof (rule server_recv_unfold [OF serv, where w = w and ll = ll], goal_cases)
  case (1 sv pb pb1 d stat ssk p p1 ok c1 w2 c2 c3)
  have f: "\<not> fast_mode c" using serv by (simp add: slow_serving_def)
  from 1(5) have "reader_pos pb \<le> length (content pb) \<Longrightarrow> drop (reader_pos pb1) (content pb1) = drop (reader_pos pb) (content pb) @ d"
    using 1(4) by simp
  moreover have "reader_pos pb \<le> length (content pb)"
    using serv 1(2) by (auto simp: slow_serving_def slow_buffers_ok_def response_ok_def FIFOfilebuf_inv_def)
  ultimately have "reply_lost c1 \<or> reply_inv c1"
    using d f 1(1,2,6,11)
    by (auto simp: data_inv_def reply_lost_def reply_stream_def pending_reply_def taken_from_server_def client_ops
        intro: reply_inv_extend [where d = d])
  moreover from this have "reply_lost c2 \<or> reply_inv c2"
    using reply_inv_free_server [of c1 w] 1(12) by (auto simp: reply_lost_def dest!: arg_cong [of _ _ snd])
  ultimately have r: "data_inv c1" "data_inv c2" "\<not> fast_mode c1" "\<not> fast_mode c2"
    using f 1(11,12) by (auto intro!: data_inv_slowI dest!: arg_cong [of _ _ snd])
  from run 1(14) consider "c' = c3\<lparr>client := Client_set_reply_only_mode (client c3)\<rparr>"
    | "c' = c2\<lparr>parser := Some (HttpParser_switch_to_request_mode ll p1), client := Client_resume_r (client c2)\<rparr>"
    | "c' = c1\<lparr>parser := Some p1\<rparr>"
    by (auto simp: delete_not_live split: if_splits)
  then have "same_reply c2 c' \<or> same_reply c1 c'"
    by cases (simp_all add: 1(13) same_reply_def Connection_free_parser_def client_ops taken_from_server_def)
  with r show ?case by (blast intro: data_inv_same_slow)
qed

lemma send_request_data:
  assumes serv: "slow_serving c" and d: "data_inv c" and run: "Server_send_request_slowly w c = Inr (w', Live c')"
  shows "data_inv c'"
proof (rule send_request_unfold [OF serv, where w = w], goal_cases)
  case (1 sv rb tb d rb2 ssk rb3)
  have f: "\<not> fast_mode c" using serv by (simp add: slow_serving_def)
  from run 1 have "same_reply c c'" by (auto simp: same_reply_def taken_from_server_def split: if_splits)
  with d f show ?case by (blast intro: data_inv_same_slow)
qed

text \<open>The transition: a response is stored, or the server is closed.\<close>

lemma transition_readable_data:
  assumes trans: "slow_transition c" and d: "data_inv c" and run: "Server_on_readable ll timed_out w c = Inr (w', Live c')"
  shows "data_inv c'"
proof -
  from trans obtain sv pb where c: "\<not> fast_mode c" "in_transition c" "server c = Some sv"
    "response_buf (client c) = Some pb" "response_ok pb"
    by (auto simp: slow_transition_def slow_buffers_ok_def)
  obtain x stat ssk where r: "read_all (s_sock sv) SOCK_IO_BUF_SIZE = (x, stat, ssk)"
    by (cases "read_all (s_sock sv) SOCK_IO_BUF_SIZE")
  note rs = read_all_spec [OF r]
  obtain pb1 where s: "vt_store FIFOfilebuf_vt pb x = Inr pb1" "content pb1 = content pb @ x" "reader_pos pb1 = reader_pos pb"
    by (rule response_store [OF c(5)]) blast
  have closed: "data_inv c'" if c1: "server c1 = Some sv1" "prefix (received (s_sock sv)) (received (s_sock sv1))"
    "past_servers c1 = past_servers c" "fast_mode c1 = fast_mode c" "client c1 = client c"
    and c': "c' = (snd (Connection_free_server w c1))\<lparr>client := Client_resume_r (client (snd (Connection_free_server w c1)))\<rparr>"
    for c1 sv1
  proof -
    have "reply_stream c1 = reply_stream c" using c1 by (simp add: reply_stream_def pending_reply_def)
    then have "reply_inv c \<Longrightarrow> reply_inv (snd (Connection_free_server w c1))"
      by (intro reply_inv_free_server_drop [OF _ c(3) c1(1-3)])
    moreover have "reply_lost c \<Longrightarrow> reply_lost (snd (Connection_free_server w c1))"
      using c1(4,5) by (simp add: reply_lost_def)
    ultimately have di: "data_inv (snd (Connection_free_server w c1))"
      using d c(1) c1(4) by (intro data_inv_slowI) (auto simp: data_inv_def)
    have "same_reply (snd (Connection_free_server w c1)) c'"
      by (simp add: c' same_reply_def client_ops taken_from_server_def)
    then show ?thesis by (rule data_inv_same_slow [OF _ _ di]) (use c(1) c1(4) in simp)
  qed
  let ?live = "c\<lparr>server := Some (sv\<lparr>s_sock := ssk\<rparr>), client := Client_start_writing ((client c)\<lparr>response_buf := Some pb1\<rparr>)\<rparr>"
  have len: "length x \<le> SOCK_IO_BUF_SIZE" using rs(2,3) by simp
  let ?c1 = "c\<lparr>server := Some (sv\<lparr>s_sock := ssk\<rparr>)\<rparr>"
  from run c r s(1) len have "c' = ?live
      \<or> c' = (snd (Connection_free_server w (Connection_set_transition_done c)))\<lparr>client :=
               Client_resume_r (client (snd (Connection_free_server w (Connection_set_transition_done c))))\<rparr>
      \<or> c' = (snd (Connection_free_server w (Connection_set_transition_done ?c1)))\<lparr>client :=
               Client_resume_r (client (snd (Connection_free_server w (Connection_set_transition_done ?c1))))\<rparr>"
    by (auto simp: Server_on_readable_def case_prod_beta Let_def split: if_splits)
  then show ?thesis
  proof (elim disjE)
    assume c': "c' = ?live"
    have "reader_pos pb \<le> length (content pb)" using c(5) by (simp add: response_ok_def FIFOfilebuf_inv_def)
    with s have "drop (reader_pos pb1) (content pb1) = drop (reader_pos pb) (content pb) @ x" by simp
    with d c rs(1) c' show ?thesis
      by (auto simp: data_inv_def reply_lost_def reply_stream_def pending_reply_def taken_from_server_def client_ops
          intro: reply_inv_extend [where d = x])
  next
    assume "c' = (snd (Connection_free_server w (Connection_set_transition_done c)))\<lparr>client :=
        Client_resume_r (client (snd (Connection_free_server w (Connection_set_transition_done c))))\<rparr>"
    then show ?thesis
      by (intro closed [of "Connection_set_transition_done c" sv]) (use c in \<open>simp_all add: Connection_set_transition_done_def\<close>)
  next
    assume "c' = (snd (Connection_free_server w (Connection_set_transition_done ?c1)))\<lparr>client :=
        Client_resume_r (client (snd (Connection_free_server w (Connection_set_transition_done ?c1))))\<rparr>"
    then show ?thesis
      by (intro closed [of "Connection_set_transition_done ?c1" "sv\<lparr>s_sock := ssk\<rparr>"])
        (use c rs(1) in \<open>simp_all add: Connection_set_transition_done_def\<close>)
  qed
qed

lemma transition_writable_data:
  assumes trans: "slow_transition c" and d: "data_inv c" and run: "Server_on_writable w c = Inr (w', Live c')"
  shows "data_inv c'"
proof -
  from trans obtain sv where c: "\<not> fast_mode c" "in_transition c" "server c = Some sv"
    "\<And>sq. s_queued_output sv = Some sq \<Longrightarrow> queue_ok sq"
    by (auto simp: slow_transition_def)
  from run c(1-3) obtain sq where sq: "s_queued_output sv = Some sq" by (auto simp: Server_on_writable_def bindE_eq_Inr_iff)
  obtain stat sq1 ssk where w: "Circularbuf_write_all_to sq (s_sock sv) = Inr (stat, sq1, ssk)"
    "Circularbuf_drained sq (s_sock sv) stat sq1 ssk"
    using queue_drain [OF c(4) [OF sq]] .
  from run c(1-3) sq w(1) Circularbuf_drained_stream(2) [OF w(2)] have "same_reply c c'"
    by (auto simp: Server_on_writable_def Let_def same_reply_def taken_from_server_def split: if_splits)
  with c(1) d show ?thesis by (blast intro: data_inv_same_slow)
qed

text \<open>The switch to slow mode; only the reply-only mode loses its queue.\<close>

lemma set_slow_mode_data:
  assumes env: "env_ok env" and w: "world_inv w" and c: "conn_inv c" and d: "data_inv c"
    and run: "Connection_set_slow_mode ll env w c = Inr (w', c')"
  shows "data_inv c'"
  using c
proof (cases rule: conn_inv_cases)
  case slow
  then have "Connection_set_slow_mode ll env w c = Inr (w, c)"
    by (auto simp: Connection_set_slow_mode_def elim: slow_connE)
  with run d show ?thesis by simp
next
  case active
  then have "reply_inv c" "fast_mode c" using d by (auto simp: data_inv_def reply_lost_def fast_active_def)
  then show ?thesis
    by (rule_tac set_slow_mode_active [OF env w active, of ll])
      (use run in \<open>auto intro!: data_inv_slowI disjI2 elim!: reply_inv_extend [where d = "[]"]
        simp: reply_stream_def pending_reply_def taken_from_server_def slow_transition_def\<close>)
next
  case fresh
  then obtain w1 where "Connection_set_slow_mode ll env w c =
      Inr (w1, c\<lparr>fast_mode := False, in_transition := False, parser := Some (HttpParser_new ll),
        client := (client c)\<lparr>request_buf := Some new_file, request_tmp_buf := Some new_file,
          response_buf := Some new_response, request_history := None, c_read_evt := True\<rparr>\<rparr>)"
    using set_slow_mode_no_parser [OF env w] by blast
  moreover have "reply_inv c" "c_queued_output (client c) = None" "fast_mode c"
    using fresh d by (auto simp: data_inv_def reply_lost_def fast_fresh_def)
  ultimately show ?thesis using run
    by (auto intro!: data_inv_slowI disjI2 elim!: reply_inv_extend [where d = "[]"]
        simp: reply_stream_def pending_reply_def taken_from_server_def)
next
  case reply
  then obtain w1 where "Connection_set_slow_mode ll env w c =
      Inr (w1, c\<lparr>fast_mode := False, in_transition := False, parser := Some (HttpParser_new ll),
        client := (client c)\<lparr>request_buf := Some new_file, request_tmp_buf := Some new_file,
          response_buf := Some new_response, request_history := None, c_read_evt := True\<rparr>\<rparr>)"
    using set_slow_mode_no_parser [OF env w] by blast
  moreover have "c_queued_output (client c) \<noteq> None" using reply by (auto simp: fast_reply_def)
  ultimately show ?thesis using run by (auto simp: data_inv_def reply_lost_def)
qed

section \<open>Every handler keeps the streams\<close>

definition all_data_inv :: "'p proxy \<Rightarrow> bool" where
  "all_data_inv st \<longleftrightarrow> (\<forall>i c. map_of (pconns st) i = Some c \<longrightarrow> data_inv c)"

lemma all_data_inv_outcome:
  assumes "all_data_inv st" "\<And>c. r = Live c \<Longrightarrow> data_inv c"
  shows "all_data_inv (st\<lparr>pworld := w, pconns := put_outcome i r (pconns st)\<rparr>)"
  using assms by (auto simp: all_data_inv_def map_of_put_outcome split: outcome.splits if_splits)

locale data_handler = conn_handler +
  assumes keeps: "world_inv w \<Longrightarrow> conn_inv c \<Longrightarrow> ready c \<Longrightarrow> data_inv c \<Longrightarrow> run w c = Inr (w', Live c') \<Longrightarrow> data_inv c'"
begin

lemma on_conn_data:
  assumes "proxy_inv st" "all_data_inv st" "map_of (pconns st) i = Some c" "ready c" "on_conn run i st = Inr st'"
  shows "all_data_inv st'"
proof -
  from assms(1,3,4) obtain w r where r: "run (pworld st) c = Inr (w, r)"
    "on_conn run i st = Inr (st\<lparr>pworld := w, pconns := put_outcome i r (pconns st)\<rparr>)"
    by (rule on_conn_inv)
  have "world_inv (pworld st)" "conn_inv c" "data_inv c"
    using assms(1-3) by (auto dest: proxy_invD simp: all_data_inv_def)
  with keeps assms(4) r(1) have "\<And>c'. r = Live c' \<Longrightarrow> data_inv c'" by blast
  with assms(2,5) r(2) show ?thesis by (auto intro: all_data_inv_outcome)
qed

end

interpretation client_readable: data_handler "Client_on_readable ll env"
  "\<lambda>c. llhttp_ok ll \<and> env_ok env \<and> c_read_evt (client c)" for ll :: "'p llhttp" and env
proof (unfold_locales, goal_cases)
  case (1 w c w' c')
  from 1(2) show ?case
  proof (cases rule: conn_inv_cases)
    case fresh
    then have f: "fast_mode c" "parser c = None" "server c = None" "c_queued_output (client c) = None"
      by (simp_all add: fast_fresh_def)
    with 1(5) obtain w1 sv where sv: "Server_new env w = Inr (w1, Some sv)"
      and run: "Connection_fast_forward_cs ll w1 (c\<lparr>parser := Some (HttpParser_new ll),
         server := Some (sv\<lparr>s_queued_output := Some Circularbuf_new, s_read_evt := True\<rparr>),
         client := (client c)\<lparr>c_queued_output := Some Circularbuf_new\<rparr>\<rparr>) = Inr (w', Live c')"
      by (auto simp: Client_on_readable_def Let_def delete_not_live elim!: bindE_InrE split: option.splits)
    let ?c = "c\<lparr>parser := Some (HttpParser_new ll),
         server := Some (sv\<lparr>s_queued_output := Some Circularbuf_new, s_read_evt := True\<rparr>),
         client := (client c)\<lparr>c_queued_output := Some Circularbuf_new\<rparr>\<rparr>"
    have "fresh_sock (s_sock sv)"
      using sv 1(3) by (auto simp: Server_new_def bindE_eq_Inr_iff Let_def env_ok_def split: if_splits)
    with 1(4) f have "data_inv ?c"
      by (auto simp: data_inv_def reply_lost_def request_inv_def fresh_sock_def reply_stream_def pending_reply_def
          taken_from_server_def elim!: reply_inv_extend [where d = "[]"])
    moreover have "fast_active ?c" "history_ok (client ?c)" using fresh by (auto simp: fast_active_def fast_fresh_def)
    ultimately show ?thesis using fast_forward_cs_data 1(3) run by blast
  next
    case active
    then have "Client_on_readable ll env w c = Connection_fast_forward_cs ll w c"
      by (auto simp: Client_on_readable_def fast_active_def)
    with active 1 show ?thesis by (metis fast_forward_cs_data)
  next
    case reply
    with 1(3) show ?thesis by (simp add: fast_reply_def)
  next
    case slow
    then have "\<not> fast_mode c" by (blast elim: slow_connE)
    moreover have "server c = None" using readable_server 1(2,3) calculation by blast
    ultimately have "same_reply c c'"
      using 1(3,5) by (auto simp: Client_on_readable_def intro: recv_slowly_same_reply)
    then show ?thesis using \<open>\<not> fast_mode c\<close> 1(4) by (rule data_inv_same_slow)
  qed
qed

interpretation client_writable: data_handler Client_on_writable "\<lambda>c. c_write_evt (client c)"
proof (unfold_locales, goal_cases)
  case (1 w c w' c')
  from 1(2) show ?case
  proof (cases rule: conn_inv_cases)
    case fresh
    with 1(3) show ?thesis by (simp add: fast_fresh_def)
  next
    case active
    then obtain cq where "fast_mode c" "c_queued_output (client c) = Some cq" "queue_ok cq" by (auto simp: fast_active_def)
    with 1(4,5) show ?thesis by (metis client_writable_fast_data)
  next
    case reply
    then obtain cq where "fast_mode c" "c_queued_output (client c) = Some cq" "queue_ok cq" by (auto simp: fast_reply_def)
    with 1(4,5) show ?thesis by (metis client_writable_fast_data)
  next
    case slow
    then have "\<not> fast_mode c" by (blast elim: slow_connE)
    with 1(5) send_response_data [OF slow(2) 1(4)] show ?thesis by (simp add: Client_on_writable_def)
  qed
qed

interpretation server_readable: data_handler "Server_on_readable ll timed_out" "\<lambda>c. server c \<noteq> None"
  for ll :: "'p llhttp" and timed_out
proof (unfold_locales, goal_cases)
  case (1 w c w' c')
  from 1(2) show ?case
  proof (cases rule: conn_inv_cases)
    case active
    then have "fast_mode c" by (simp add: fast_active_def)
    with 1(5) fast_forward_sc_data [OF active 1(4)] show ?thesis by (simp add: Server_on_readable_def)
  next
    case slow
    with 1(3) consider "slow_transition c" | "slow_serving c"
      by (auto simp only: slow_conn_def slow_receiving_def slow_reply_def)
    then show ?thesis
    proof cases
      case 1
      with \<open>data_inv c\<close> \<open>Server_on_readable ll timed_out w c = Inr (w', Live c')\<close> show ?thesis
        by (metis transition_readable_data)
    next
      case 2
      then have "\<not> fast_mode c" "\<not> in_transition c" by (simp_all add: slow_serving_def)
      with 1(5) server_recv_data [OF 2 1(4)] show ?thesis by (simp add: Server_on_readable_def)
    qed
  qed (use 1(3) in \<open>auto simp: fast_fresh_def fast_reply_def\<close>)
qed

interpretation server_writable: data_handler Server_on_writable
  "\<lambda>c. \<exists>sv. server c = Some sv \<and> (in_transition c \<longrightarrow> \<not> queue_runs_dry sv)"
proof (unfold_locales, goal_cases)
  case (1 w c w' c')
  then obtain sv where sv: "server c = Some sv" by blast
  from 1(2) show ?case
  proof (cases rule: conn_inv_cases)
    case active
    then obtain sq where "fast_mode c" "s_queued_output sv = Some sq" "queue_ok sq" using sv by (auto simp: fast_active_def)
    with 1(4,5) sv show ?thesis by (metis server_writable_fast_data)
  next
    case slow
    with sv consider "slow_transition c" | "slow_serving c"
      by (auto simp only: slow_conn_def slow_receiving_def slow_reply_def)
    then show ?thesis
    proof cases
      case 1
      with \<open>data_inv c\<close> \<open>Server_on_writable w c = Inr (w', Live c')\<close> show ?thesis
        by (metis transition_writable_data)
    next
      case 2
      then have "\<not> fast_mode c" "\<not> in_transition c" by (simp_all add: slow_serving_def)
      with 1(5) sv send_request_data [OF 2 1(4)] show ?thesis by (simp add: Server_on_writable_def)
    qed
  qed (use sv in \<open>auto simp: fast_fresh_def fast_reply_def\<close>)
qed

lemma data_inv_counts [simp]:
  "data_inv (c\<lparr>client := (client c)\<lparr>read_count := r, write_count := n\<rparr>\<rparr>) = data_inv c"
  by (simp add: data_inv_def reply_lost_def reply_inv_def reply_stream_def pending_reply_def taken_from_server_def
      request_inv_def)

interpretation monitored: data_handler "monitor_connection ll env" "\<lambda>c. env_ok env" for ll :: "'p llhttp" and env
proof (unfold_locales, goal_cases)
  case (1 w c w' c')
  then show ?case using set_slow_mode_data [OF 1(3,1,2,4), of ll]
    by (auto simp: monitor_connection_def Let_def delete_not_live elim!: bindE_InrE split: if_splits)
qed

section \<open>Reachable states\<close>

lemma monitor_loop_data:
  assumes "proxy_inv st" "all_data_inv st" "\<And>i. env_ok (envs i)"
    "monitor_loop ll envs (pworld st) (pconns st) is = Inr (w, cs)"
  shows "all_data_inv (st\<lparr>pworld := w, pconns := cs\<rparr>)"
  using assms(1,2,4)
proof (induction "is" arbitrary: st)
  case (Cons i "is")
  from Cons.prems(3) obtain c where c: "map_of (pconns st) i = Some c" by (auto elim!: bindE_InrE)
  from Cons.prems(1) c assms(3) obtain w1 r where r: "monitor_connection ll (envs i) (pworld st) c = Inr (w1, r)"
    "on_conn (monitor_connection ll (envs i)) i st = Inr (st\<lparr>pworld := w1, pconns := put_outcome i r (pconns st)\<rparr>)"
    "proxy_inv (st\<lparr>pworld := w1, pconns := put_outcome i r (pconns st)\<rparr>)"
    by (rule monitored.on_conn_inv)
  let ?st = "st\<lparr>pworld := w1, pconns := put_outcome i r (pconns st)\<rparr>"
  have "all_data_inv ?st" using monitored.on_conn_data [OF Cons.prems(1,2) c assms(3) r(2)] .
  moreover have "monitor_loop ll envs (pworld ?st) (pconns ?st) is = Inr (w, cs)" using Cons.prems(3) c r(1) by simp
  ultimately show ?case using Cons.IH [OF r(3)] by simp
qed (simp add: all_data_inv_def)

lemma put_events_data:
  assumes "proxy_inv st" "all_data_inv st" "env_ok env"
    "put_events_slow_mode ll env (pworld st) (pconns st) es = Inr (w, cs)"
  shows "all_data_inv (st\<lparr>pworld := w, pconns := cs\<rparr>)"
  using assms(1,2,4)
proof (induction es arbitrary: st)
  case (Cons e es)
  let ?i = "get_associated_conn e"
  from Cons.prems(3) obtain pend where p: "event_pending (pconns st) e = Inr pend" by (auto elim!: bindE_InrE)
  show ?case
  proof (cases pend)
    case False
    with Cons p show ?thesis by simp
  next
    case True
    with Cons.prems(3) p obtain c w1 c1 where c: "map_of (pconns st) ?i = Some c"
      and s: "Connection_set_slow_mode ll env (pworld st) c = Inr (w1, c1)"
      and rest: "put_events_slow_mode ll env w1 (AList.update ?i c1 (pconns st)) es = Inr (w, cs)"
      by (auto elim!: bindE_InrE)
    let ?st = "st\<lparr>pworld := w1, pconns := put_outcome ?i (Live c1) (pconns st)\<rparr>"
    from Cons.prems(1,2) c have i: "world_inv (pworld st)" "conn_inv c" "data_inv c"
      by (auto dest: proxy_invD simp: all_data_inv_def)
    from assms(3) i(1,2) obtain "world_inv w1" "conn_inv c1"
      by (rule set_slow_mode_safe [where ll = ll]) (use s in auto)
    then have "proxy_inv ?st"
      using proxy_inv_outcome [OF Cons.prems(1) c _ _ accounted_set_slow_mode [OF assms(3) i(1,2) s]]
      by (simp add: outcome_inv_def)
    moreover have "all_data_inv ?st"
      using set_slow_mode_data [OF assms(3) i s] Cons.prems(2) by (intro all_data_inv_outcome) auto
    ultimately show ?thesis using Cons.IH [of ?st] rest by (simp add: put_outcome_def)
  qed
qed (simp add: all_data_inv_def)

lemma new_conn_data_inv: "fresh_sock sk \<Longrightarrow> data_inv (new_conn sk h)"
  by (simp add: new_conn_def data_inv_def request_inv_def reply_inv_def reply_stream_def pending_reply_def taken_from_server_def
      new_client_def fresh_sock_def)

lemma dispatch_data_conn:
  assumes ll: "llhttp_ok ll" and st: "proxy_inv st" and d: "all_data_inv st" and ok: "event_ok ev" and en: "enabled ev st"
    and run: "dispatch ll ev st = Inr st'"
    and ev: "ev = ClientReadable env i \<or> ev = ClientWritable i \<or> ev = ServerReadable i t \<or> ev = ServerWritable i"
  shows "all_data_inv st'"
proof -
  note pe = pending_events_iff [OF proxy_invD(2) [OF st]] get_associated_conn_def pending_events_of_def
  from ev show ?thesis
  proof (elim disjE)
    assume e: "ev = ClientReadable env i"
    with en obtain c where c: "map_of (pconns st) i = Some c" "c_read_evt (client c)"
      by (auto simp: enabled_def pe split: if_splits option.splits)
    show ?thesis
      by (rule client_readable.on_conn_data [OF st d c(1), where ll = ll and env = env])
        (use c ll ok run e in \<open>auto simp: event_ok_def dispatch_def\<close>)
  next
    assume e: "ev = ClientWritable i"
    with en obtain c where c: "map_of (pconns st) i = Some c" "c_write_evt (client c)"
      by (auto simp: enabled_def pe split: if_splits option.splits)
    show ?thesis
      by (rule client_writable.on_conn_data [OF st d c]) (use run e in \<open>auto simp: dispatch_def\<close>)
  next
    assume e: "ev = ServerReadable i t"
    with en obtain c where c: "map_of (pconns st) i = Some c" "server c \<noteq> None"
      by (auto simp: enabled_def split: option.splits)
    show ?thesis
      by (rule server_readable.on_conn_data [OF st d c]) (use run e in \<open>auto simp: dispatch_def\<close>)
  next
    assume e: "ev = ServerWritable i"
    with en obtain c sv where c: "map_of (pconns st) i = Some c" "server c = Some sv"
      by (auto simp: enabled_def split: option.splits)
    have wet: "\<exists>sv. server c = Some sv \<and> (in_transition c \<longrightarrow> \<not> queue_runs_dry sv)"
    proof (rule ccontr)
      assume "\<not> ?thesis"
      with c(2) have dry: "in_transition c" "queue_runs_dry sv" by auto
      from st c have w: "world_inv (pworld st)" "conn_inv c" by (auto dest: proxy_invD)
      with dry(1) have "history_ok (client c)" "slow_transition c"
        by (auto simp only: conn_inv_def fast_fresh_def fast_active_def fast_reply_def slow_receiving_def
            slow_serving_def slow_reply_def)
      with Server_on_writable_transition [OF w(1) this c(2)] dry run e c(1) show False
        by (simp add: dispatch_def on_conn_def)
    qed
    show ?thesis
      by (rule server_writable.on_conn_data [OF st d c(1) wet]) (use run e in \<open>auto simp: dispatch_def\<close>)
  qed
qed

lemma dispatch_data:
  assumes ll: "llhttp_ok ll" and st: "proxy_inv st" and d: "all_data_inv st" and ok: "event_ok ev" and en: "enabled ev st"
    and run: "dispatch ll ev st = Inr st'"
  shows "all_data_inv st'"
proof (cases ev)
  case (Accept env sk)
  with ok obtain s where s: "env_ok env" "sk = Some s" "fresh_sock s" by (auto simp: event_ok_def split: option.splits)
  show ?thesis
    by (cases rule: dispatch_accept_cases [OF st s(1), where ll = ll and sk = s])
      (use run Accept s(2) d new_conn_data_inv [OF s(3)] in \<open>auto simp: all_data_inv_def split: if_splits\<close>)
next
  case (MonitorTick envs)
  with ok have "\<And>i. env_ok (envs i)" by (simp add: event_ok_def)
  from monitor_loop_data [OF st d this] MonitorTick run show ?thesis
    by (auto simp: dispatch_def monitor_data_rates_def elim!: bindE_InrE)
next
  case (SlowTimer env)
  with ok en run put_events_data [OF st d] show ?thesis
    by (auto simp: event_ok_def enabled_def dispatch_def all_data_inv_def elim!: bindE_InrE split: list.splits)
next
  case SlowSignal
  with run d show ?thesis by (auto simp: dispatch_def all_data_inv_def)
qed (use dispatch_data_conn [OF ll st d ok en run] in blast)+

lemma reachable_data_inv:
  assumes "llhttp_ok ll" "reachable ll st"
  shows "all_data_inv st"
  using assms(2)
proof induction
  case (start s st)
  then have "pconns st = []" by (rule main_start_inv)
  then show ?case by (simp add: all_data_inv_def)
next
  case (step st ev st')
  with dispatch_data [OF assms(1) reachable_proxy_inv [OF assms(1) step.hyps(1)] step.IH step.hyps(2-4)] show ?case by simp
qed

end
