(* ===== verification/Modes.thy ===== *)
theory Modes
  imports Dataflow
begin

text \<open>
  Slow mode over time.  A connection never returns to fast mode, and in slow mode its traffic
  is not counted; so once a tick of the monitor has reset the counters of a connection in slow
  mode, the next tick drops it, whatever it transferred in between.
\<close>

section \<open>One event\<close>

text \<open>The contract of a handler on a connection in slow mode.\<close>

definition same_counts :: "'p connection \<Rightarrow> 'p connection \<Rightarrow> bool" where
  "same_counts c c' \<longleftrightarrow> read_count (client c') = read_count (client c)
     \<and> write_count (client c') = write_count (client c)"

definition still_slow :: "'p connection \<Rightarrow> 'p connection \<Rightarrow> bool" where
  "still_slow c c' \<longleftrightarrow> \<not> fast_mode c' \<and> same_counts c c'"

lemma still_slow_refl [simp]: "still_slow c c \<longleftrightarrow> \<not> fast_mode c"
  by (simp add: still_slow_def same_counts_def)

lemma still_slow_trans: "still_slow c c' \<Longrightarrow> still_slow c' c'' \<Longrightarrow> still_slow c c''"
  by (simp add: still_slow_def same_counts_def)

locale slow_handler =
  fixes run :: "world \<Rightarrow> 'p connection \<Rightarrow> (world \<times> 'p outcome) res"
  assumes stays_slow: "run w c = Inr (w', Live c') \<Longrightarrow> \<not> fast_mode c \<Longrightarrow> still_slow c c'"
begin

lemma on_conn_slow:
  assumes "on_conn run j st = Inr st'" "map_of (pconns st) i = Some c" "\<not> fast_mode c" "map_of (pconns st') i = Some c'"
  shows "still_slow c c'"
  using assms by (auto simp: on_conn_def map_of_put_outcome elim!: bindE_InrE intro: stays_slow split: if_splits outcome.splits)

end

lemma free_server_still_slow [simp]:
  "still_slow c (snd (Connection_free_server w c')) \<longleftrightarrow> still_slow c c'"
  by (simp add: still_slow_def same_counts_def)

lemmas slow_handler_defs = client_ops Connection_free_parser_def Connection_set_transition_done_def
  Let_def case_prod_beta

interpretation slow_client_readable: slow_handler "Client_on_readable ll env" for ll :: "'p llhttp" and env
  by unfold_locales (auto simp: Client_on_readable_def Client_recv_to_buffer_slowly_def slow_handler_defs delete_not_live
      still_slow_def same_counts_def elim!: bindE_InrE split: if_split_asm option.split_asm)

interpretation slow_client_writable: slow_handler Client_on_writable
  by unfold_locales (auto simp: Client_on_writable_def Client_send_response_slowly_def slow_handler_defs delete_not_live
      still_slow_def same_counts_def elim!: bindE_InrE split: if_split_asm)

interpretation slow_server_readable: slow_handler "Server_on_readable ll timed_out" for ll :: "'p llhttp" and timed_out
  by unfold_locales (auto simp: Server_on_readable_def Server_recv_to_buffer_slowly_def slow_handler_defs delete_not_live
      still_slow_def same_counts_def elim!: bindE_InrE split: if_split_asm)

interpretation slow_server_writable: slow_handler Server_on_writable
  by unfold_locales (auto simp: Server_on_writable_def Server_send_request_slowly_def slow_handler_defs
      still_slow_def same_counts_def elim!: bindE_InrE split: if_split_asm)

text \<open>On a connection in slow mode the switch does nothing.\<close>

lemma put_events_slow:
  assumes "put_events_slow_mode ll env w cs es = Inr (w', cs')" "map_of cs i = Some c" "\<not> fast_mode c"
  shows "map_of cs' i = Some c"
  using assms
proof (induction es arbitrary: w cs)
  case (Cons e es)
  from Cons.prems(1) obtain pend where p: "event_pending cs e = Inr pend" by (auto elim!: bindE_InrE)
  show ?case
  proof (cases pend)
    case True
    with Cons.prems(1) p obtain c0 w1 c1 where c0: "map_of cs (get_associated_conn e) = Some c0"
      "Connection_set_slow_mode ll env w c0 = Inr (w1, c1)"
      "put_events_slow_mode ll env w1 (AList.update (get_associated_conn e) c1 cs) es = Inr (w', cs')"
      by (auto elim!: bindE_InrE)
    with Cons.prems(2,3) have "map_of (AList.update (get_associated_conn e) c1 cs) i = Some c"
      by (auto simp: AList.update_conv' Connection_set_slow_mode_def)
    with c0(3) Cons show ?thesis by blast
  qed (use Cons p in simp)
qed simp

text \<open>What a tick does to one connection: the loop reaches it exactly once.\<close>

lemma monitor_connection_live:
  "monitor_connection ll env w c = Inr (w', Live c') \<Longrightarrow>
   read_count (client c') = 0 \<and> write_count (client c') = 0 \<and> (\<not> fast_mode c \<longrightarrow> \<not> fast_mode c')"
  by (auto simp: monitor_connection_def Let_def case_prod_beta delete_not_live elim!: bindE_InrE split: if_splits)

lemma monitor_connection_zero:
  "read_count (client c) = 0 \<Longrightarrow> write_count (client c) = 0 \<Longrightarrow>
   monitor_connection ll env w c \<noteq> Inr (w', Live c')"
  by (auto simp: monitor_connection_def min_down_def MIN_DOWNLOAD_SPEED_def MONITOR_INTERVAL_def delete_not_live)

lemma monitor_loop_conn:
  assumes "monitor_loop ll envs w cs is = Inr (w', cs')" "distinct is"
  shows "map_of cs' i = map_of cs i \<and> i \<notin> set is
    \<or> i \<in> set is \<and> (\<exists>c w1 w2 r. map_of cs i = Some c \<and> monitor_connection ll (envs i) w1 c = Inr (w2, r)
        \<and> map_of cs' i = (case r of Live c \<Rightarrow> Some c | Deleted c \<Rightarrow> None))"
  using assms
proof (induction "is" arbitrary: w cs)
  case (Cons j js)
  from Cons.prems(1) obtain c w1 r where c: "map_of cs j = Some c" "monitor_connection ll (envs j) w c = Inr (w1, r)"
    "monitor_loop ll envs w1 (put_outcome j r cs) js = Inr (w', cs')" by (auto elim!: bindE_InrE)
  have "distinct js" "j \<notin> set js" using Cons.prems(2) by auto
  with Cons.IH [OF c(3)] c(1,2) show ?case by (cases "i = j") (auto simp: map_of_put_outcome)
qed simp

lemma dispatch_tick:
  assumes "proxy_inv st" "dispatch ll (MonitorTick envs) st = Inr st'" "map_of (pconns st) i = Some c"
  obtains w1 w2 r where "monitor_connection ll (envs i) w1 c = Inr (w2, r)"
    "map_of (pconns st') i = (case r of Live c \<Rightarrow> Some c | Deleted c \<Rightarrow> None)"
proof -
  from assms(2) obtain w cs where "monitor_loop ll envs (pworld st) (pconns st) (get_all_connections (pconns st)) = Inr (w, cs)"
    "st' = st\<lparr>pworld := w, pconns := cs\<rparr>" by (auto simp: dispatch_def monitor_data_rates_def elim!: bindE_InrE)
  with monitor_loop_conn [OF this(1) get_all_connections_complete(2) [OF assms(1)], of i] assms(3)
    get_all_connections_complete(1) [OF assms(1)] that show thesis by auto
qed

lemma dispatch_other_slow:
  assumes st: "proxy_inv st" and run: "dispatch ll ev st = Inr st'" and ev: "\<And>envs. ev \<noteq> MonitorTick envs"
    and c: "map_of (pconns st) i = Some c" "\<not> fast_mode c" "map_of (pconns st') i = Some c'"
  shows "still_slow c c'"
proof (cases ev)
  case (Accept env sk)
  from st c(1) have "i < next_id st" unfolding proxy_inv_def by blast
  with Accept run c show ?thesis by (auto simp: dispatch_def case_prod_beta elim!: bindE_InrE split: sum.splits)
next
  case (SlowTimer env)
  with run c put_events_slow [where c = c] show ?thesis
    by (fastforce simp: dispatch_def elim!: bindE_InrE split: list.splits)
qed (use run ev c slow_client_readable.on_conn_slow slow_client_writable.on_conn_slow
      slow_server_readable.on_conn_slow slow_server_writable.on_conn_slow in \<open>fastforce simp: dispatch_def\<close>)+

lemma dispatch_stays_slow:
  assumes "proxy_inv st" "dispatch ll ev st = Inr st'" "map_of (pconns st) i = Some c" "\<not> fast_mode c"
    "map_of (pconns st') i = Some c'"
  shows "\<not> fast_mode c'"
proof (cases "\<exists>envs. ev = MonitorTick envs")
  case True
  then obtain envs where e: "ev = MonitorTick envs" by blast
  from assms(2) have run: "dispatch ll (MonitorTick envs) st = Inr st'" by (simp add: e)
  obtain w1 w2 r where r: "monitor_connection ll (envs i) w1 c = Inr (w2, r)"
    "map_of (pconns st') i = (case r of Live c \<Rightarrow> Some c | Deleted c \<Rightarrow> None)"
    using dispatch_tick [OF assms(1) run assms(3)] .
  with assms(5) have "r = Live c'" by (auto split: outcome.splits)
  with r(1) assms(4) show ?thesis by (auto dest: monitor_connection_live)
next
  case False
  with dispatch_other_slow [OF assms(1,2) _ assms(3-5)] show ?thesis by (auto simp: still_slow_def)
qed

section \<open>Runs\<close>

inductive run_of :: "'p llhttp \<Rightarrow> 'p proxy \<Rightarrow> event list \<Rightarrow> 'p proxy \<Rightarrow> bool" for ll where
  stop: "run_of ll st [] st"
| event: "event_ok ev \<Longrightarrow> enabled ev st \<Longrightarrow> dispatch ll ev st = Inr st1 \<Longrightarrow> run_of ll st1 evs st' \<Longrightarrow>
     run_of ll st (ev # evs) st'"

inductive_simps run_of_simps [simp]: "run_of ll st [] st'" "run_of ll st (ev # evs) st'"

lemma run_of_append: "run_of ll st (evs1 @ evs2) st' \<longleftrightarrow> (\<exists>st1. run_of ll st evs1 st1 \<and> run_of ll st1 evs2 st')"
  by (induction evs1 arbitrary: st) auto

lemma run_of_reachable: "run_of ll st evs st' \<Longrightarrow> reachable ll st \<Longrightarrow> reachable ll st'"
  by (induction rule: run_of.induct) (auto intro: reachable.step)

text \<open>Numbers are given once, so a connection that is gone stays gone.\<close>

lemma monitor_loop_gone:
  "monitor_loop ll envs w cs is = Inr (w', cs') \<Longrightarrow> map_of cs i = None \<Longrightarrow> map_of cs' i = None"
  by (induction "is" arbitrary: w cs)
    (fastforce simp: map_of_put_outcome elim!: bindE_InrE split: outcome.splits if_splits)+

lemma put_events_gone:
  "put_events_slow_mode ll env w cs es = Inr (w', cs') \<Longrightarrow> map_of cs i = None \<Longrightarrow> map_of cs' i = None"
  by (induction es arbitrary: w cs)
    (fastforce simp: AList.update_conv' elim!: bindE_InrE split: if_splits)+

lemma on_conn_gone:
  "on_conn h j st = Inr st' \<Longrightarrow> map_of (pconns st) i = None \<Longrightarrow> map_of (pconns st') i = None \<and> next_id st' = next_id st"
  by (auto simp: on_conn_def map_of_put_outcome elim!: bindE_InrE split: outcome.splits if_splits)

lemma dispatch_gone:
  assumes "dispatch ll ev st = Inr st'" "map_of (pconns st) i = None" "i < next_id st"
  shows "map_of (pconns st') i = None" "i < next_id st'"
  using assms monitor_loop_gone [where i = i] put_events_gone [where i = i] on_conn_gone [where i = i]
  by (cases ev; fastforce simp: dispatch_def monitor_data_rates_def case_prod_beta elim!: bindE_InrE
      split: list.splits sum.splits)+

lemma run_of_gone:
  assumes "run_of ll st evs st'" "map_of (pconns st) i = None" "i < next_id st"
  shows "map_of (pconns st') i = None"
  using assms
proof (induction rule: run_of.induct)
  case (event ev st st1 evs st')
  from dispatch_gone [OF event.hyps(3) event.prems] event.IH show ?case by blast
qed

text \<open>
  A connection that a tick has met in slow mode: it is gone, or it has used up its credit for
  good.
\<close>

definition spent :: "nat \<Rightarrow> 'p proxy \<Rightarrow> bool" where
  "spent i st \<longleftrightarrow> i < next_id st
     \<and> (case map_of (pconns st) i of None \<Rightarrow> True
        | Some c \<Rightarrow> \<not> fast_mode c \<and> read_count (client c) = 0 \<and> write_count (client c) = 0)"

lemma dispatch_next_id: "dispatch ll ev st = Inr st' \<Longrightarrow> next_id st \<le> next_id st'"
  by (cases ev) (auto simp: dispatch_def on_conn_def case_prod_beta elim!: bindE_InrE split: list.splits sum.splits)

lemma tick_spent:
  assumes "proxy_inv st" "dispatch ll (MonitorTick envs) st = Inr st'" "map_of (pconns st) i = Some c" "\<not> fast_mode c"
  shows "spent i st'"
proof -
  from assms(1,3) have "i < next_id st" by (auto simp: proxy_inv_def)
  moreover obtain w1 w2 r where "monitor_connection ll (envs i) w1 c = Inr (w2, r)"
    "map_of (pconns st') i = (case r of Live c \<Rightarrow> Some c | Deleted c \<Rightarrow> None)"
    using dispatch_tick [OF assms(1-3)] .
  ultimately show ?thesis using assms(4) dispatch_next_id [OF assms(2)]
    by (cases r) (auto simp: spent_def dest: monitor_connection_live)
qed

lemma tick_drops_spent:
  assumes "proxy_inv st" "dispatch ll (MonitorTick envs) st = Inr st'" "spent i st"
  shows "map_of (pconns st') i = None"
proof (cases "map_of (pconns st) i")
  case None
  with dispatch_gone(1) [OF assms(2)] assms(3) show ?thesis by (simp add: spent_def)
next
  case (Some c)
  obtain w1 w2 r where r: "monitor_connection ll (envs i) w1 c = Inr (w2, r)"
    "map_of (pconns st') i = (case r of Live c \<Rightarrow> Some c | Deleted c \<Rightarrow> None)"
    using dispatch_tick [OF assms(1,2) Some] .
  from assms(3) Some have "read_count (client c) = 0" "write_count (client c) = 0" by (simp_all add: spent_def)
  with r monitor_connection_zero show ?thesis by (cases r) fastforce+
qed

lemma dispatch_spent:
  assumes "proxy_inv st" "dispatch ll ev st = Inr st'" "spent i st"
  shows "spent i st'"
proof (cases "map_of (pconns st') i")
  case None
  with assms(3) dispatch_next_id [OF assms(2)] show ?thesis by (simp add: spent_def)
next
  case (Some c')
  with dispatch_gone(1) [OF assms(2)] assms(3) obtain c where c: "map_of (pconns st) i = Some c" "\<not> fast_mode c"
    "read_count (client c) = 0" "write_count (client c) = 0"
    by (cases "map_of (pconns st) i") (auto simp: spent_def)
  have "ev \<noteq> MonitorTick envs" for envs using tick_drops_spent [OF assms(1) _ assms(3)] assms(2) Some by force
  with dispatch_other_slow [OF assms(1,2) _ c(1,2) Some] c Some assms(3) dispatch_next_id [OF assms(2)] show ?thesis
    by (simp add: spent_def still_slow_def same_counts_def)
qed

lemma run_of_spent:
  assumes "run_of ll st evs st'" "llhttp_ok ll" "reachable ll st" "spent i st"
  shows "spent i st'"
  using assms
proof (induction rule: run_of.induct)
  case (event ev st st1 evs st')
  from event.prems(2) event.hyps(1-3) have "reachable ll st1" by (rule reachable.step)
  with event dispatch_spent [OF reachable_proxy_inv [OF event.prems(1,2)]] show ?case by blast
qed simp

section \<open>A run into slow mode\<close>

lemma tick_succeeds:
  assumes "llhttp_ok ll" "proxy_inv st"
  obtains st' where "dispatch ll (MonitorTick (\<lambda>_. good_env)) st = Inr st'"
proof -
  from dispatch_spec [OF assms, of "MonitorTick (\<lambda>_. good_env)"] that show thesis
    by (cases "dispatch ll (MonitorTick (\<lambda>_. good_env)) st")
      (simp_all add: step_ok_def event_ok_def enabled_def log_after_free_def)
qed

text \<open>The signal and its timer put the first connection into slow mode before it has spoken.\<close>

definition slow_conn_of :: "'p llhttp \<Rightarrow> sock \<Rightarrow> hybridbuf \<Rightarrow> 'p connection" where
  "slow_conn_of ll sk h = (new_conn sk h)\<lparr>fast_mode := False, parser := Some (HttpParser_new ll),
     client := (client (new_conn sk h :: 'p connection))\<lparr>request_buf := Some new_file, request_tmp_buf := Some new_file,
       response_buf := Some new_response, request_history := None\<rparr>\<rparr>"

lemma slowed_connection:
  assumes "fresh_sock sk"
  obtains st0 st1 st2 st :: "'p proxy" and h where "su_disk good_startup = Some healthy_disk" "main_start good_startup = Inr (Inr st0)"
    "run_of ll st0 [Accept good_env (Some sk)] st1" "run_of ll st1 [SlowSignal] st2" "run_of ll st2 [SlowTimer good_env] st"
    "pconns st0 = []" "pconns st1 = [(0, new_conn sk h)]" "pconns st2 = [(0, new_conn sk h)]" "pconns st = [(0, slow_conn_of ll sk h)]"
proof (rule first_accept [OF assms, where ll = ll and 'p = 'p], goal_cases)
  case (1 st0 st1 h)
  let ?c = "new_conn sk h :: 'p connection" let ?st2 = "st1\<lparr>scheduled := [[ClientRead 0]]\<rparr>"
  have pend: "pending_events (pconns st1) = [ClientRead 0]"
    using 1(9) by (simp add: pending_events_def pending_events_of_def new_conn_def new_client_def)
  have r2: "run_of ll st1 [SlowSignal] ?st2"
    using 1(11) pend by (simp add: event_ok_def enabled_def dispatch_def put_all_connection_slow_mode_def)
  have i: "history_ok (client ?c)" "fast_fresh ?c"
    using accepted_inv [OF 1(10)] by (simp_all add: new_conn_def conn_inv_def fast_fresh_def new_client_def)
  obtain w' where "Connection_set_slow_mode ll good_env (pworld st1) ?c =
      Inr (w', ?c\<lparr>fast_mode := False, in_transition := False, parser := Some (HttpParser_new ll),
        client := (client ?c)\<lparr>request_buf := Some new_file, request_tmp_buf := Some new_file,
          response_buf := Some new_response, request_history := None, c_read_evt := True\<rparr>\<rparr>)"
    using set_slow_mode_no_parser [OF good_env_ok(1) proxy_invD(1) [OF 1(8)] i(1) disjI1 [OF i(2)]] .
  then have s: "Connection_set_slow_mode ll good_env (pworld st1) ?c = Inr (w', slow_conn_of ll sk h)"
    by (simp add: slow_conn_of_def new_conn_def)
  let ?st = "st1\<lparr>pworld := w', pconns := [(0, slow_conn_of ll sk h)], scheduled := []\<rparr>"
  have "run_of ll ?st2 [SlowTimer good_env] ?st"
    using 1(9) s
    by (simp add: event_ok_def enabled_def dispatch_def event_pending_def get_associated_conn_def)
      (simp add: new_conn_def new_client_def)
  with 1 r2 that [of st0 st1 ?st2 ?st h] show thesis by simp
qed

lemma slow_connection:
  obtains st :: "'p proxy" and c where "reachable ll st" "map_of (pconns st) 0 = Some c" "\<not> fast_mode c"
proof (rule slowed_connection [OF good_env_ok(2), where ll = ll and 'p = 'p], goal_cases)
  case (1 st0 st1 st2 st h)
  from run_of_reachable [OF 1(4) reachable.start [OF 1(2,3)]] run_of_reachable [OF 1(5)] run_of_reachable [OF 1(6)]
  have "reachable ll st" by blast
  with 1(10) that show thesis by (simp add: slow_conn_of_def)
qed

end
