(* ===== verification/Steps.thy ===== *)
theory Steps
  imports Modes
begin

text \<open>
  The life of one connection as a state machine.  \<open>conn_event\<close> collects the operations the event
  loop performs on a connection; every event of the process is a sequence of such operations,
  acceptances and changes of the timer list (\<open>micro\<close>), and for each single connection it is at
  most one of them.  Invariants are proved on these relations once, and the modes of a
  connection follow the graph \<open>mode_step\<close>.
\<close>

section \<open>Operations on one connection\<close>

inductive conn_event :: "'p llhttp \<Rightarrow> world \<Rightarrow> 'p connection \<Rightarrow> world \<Rightarrow> 'p outcome \<Rightarrow> bool" for ll where
  readable: "env_ok env \<Longrightarrow> c_read_evt (client c) \<Longrightarrow> Client_on_readable ll env w c = Inr (w', r) \<Longrightarrow>
     conn_event ll w c w' r"
| writable: "c_write_evt (client c) \<Longrightarrow> Client_on_writable w c = Inr (w', r) \<Longrightarrow> conn_event ll w c w' r"
| server_readable: "server c \<noteq> None \<Longrightarrow> Server_on_readable ll timed_out w c = Inr (w', r) \<Longrightarrow> conn_event ll w c w' r"
| server_writable: "server c = Some sv \<Longrightarrow> s_write_evt sv \<Longrightarrow> Server_on_writable w c = Inr (w', r) \<Longrightarrow>
     conn_event ll w c w' r"
| tick: "env_ok env \<Longrightarrow> monitor_connection ll env w c = Inr (w', r) \<Longrightarrow> conn_event ll w c w' r"
| switch: "env_ok env \<Longrightarrow> Connection_set_slow_mode ll env w c = Inr (w', c') \<Longrightarrow> conn_event ll w c w' (Live c')"

inductive micro :: "'p llhttp \<Rightarrow> 'p proxy \<Rightarrow> 'p proxy \<Rightarrow> bool" for ll where
  accept: "env_ok env \<Longrightarrow> fresh_sock sk \<Longrightarrow> Connection_accept_new env (pworld st) (Some sk) = Inr (w, Inr c) \<Longrightarrow>
     micro ll st (st\<lparr>pworld := w, pconns := (next_id st, c) # pconns st, next_id := next_id st + 1\<rparr>)"
| conn: "map_of (pconns st) i = Some c \<Longrightarrow> conn_event ll (pworld st) c w r \<Longrightarrow>
     micro ll st (st\<lparr>pworld := w, pconns := put_outcome i r (pconns st)\<rparr>)"
| timers: "micro ll st (st\<lparr>scheduled := es\<rparr>)"

lemma Server_on_writable_wet:
  assumes "world_inv w" "conn_inv c" "server c = Some sv" "Server_on_writable w c = Inr x"
  shows "in_transition c \<longrightarrow> \<not> queue_runs_dry sv"
proof
  assume "in_transition c"
  with assms(2) have t: "history_ok (client c)" "slow_transition c"
    by (auto simp only: conn_inv_def fast_fresh_def fast_active_def fast_reply_def slow_receiving_def
        slow_serving_def slow_reply_def)
  from Server_on_writable_transition [OF assms(1) t assms(3)] assms(4) show "\<not> queue_runs_dry sv" by auto
qed

text \<open>Every operation keeps the invariants and the counters.\<close>

lemma conn_event_safe:
  assumes "llhttp_ok ll" "world_inv w" "conn_inv c" "conn_event ll w c w' r"
  shows "world_inv w'" "outcome_inv r" "accounted w c w' r"
proof -
  have "safe_result (Inr (w', r)) \<and> accounted w c w' r"
    using assms(4)
  proof cases
    case (readable env)
    with assms client_readable.safe [OF assms(2,3), of ll env] client_readable.counts [OF assms(2,3), of ll env]
    show ?thesis by simp
  next
    case writable
    with client_writable.safe [OF assms(2,3)] client_writable.counts [OF assms(2,3)] show ?thesis by simp
  next
    case (server_readable t)
    with server_readable.safe [OF assms(2,3), of ll t] server_readable.counts [OF assms(2,3), of ll t] show ?thesis by simp
  next
    case (server_writable sv)
    with Server_on_writable_wet [OF assms(2,3)] server_writable.safe [OF assms(2,3)] server_writable.counts [OF assms(2,3)]
    show ?thesis by fastforce
  next
    case (tick env)
    with monitored.safe [OF assms(2,3), of env ll] monitored.counts [OF assms(2,3), of env ll] show ?thesis by simp
  next
    case (switch env c')
    with set_slow_mode_safe [OF switch(2) assms(2,3), of ll] accounted_set_slow_mode [OF switch(2) assms(2,3), of ll]
    show ?thesis by (auto simp: safe_live)
  qed
  then show "world_inv w'" "outcome_inv r" "accounted w c w' r" by (auto simp: safe_result_def)
qed

lemma micro_inv:
  assumes "llhttp_ok ll" "proxy_inv st" "micro ll st st'"
  shows "proxy_inv st'"
  using assms(3)
proof cases
  case (accept env sk w c)
  have "dispatch ll (Accept env (Some sk)) st = Inr st'" using accept by (simp add: dispatch_def)
  with dispatch_accept [OF assms(2) accept(2), of _ ll sk] show ?thesis by (simp add: step_ok_def)
next
  case (conn i c w r)
  from assms(2) conn(2) have "world_inv (pworld st)" "conn_inv c" by (auto dest: proxy_invD)
  from conn_event_safe [OF assms(1) this conn(3)] proxy_inv_outcome [OF assms(2) conn(2)] conn(1) show ?thesis by simp
next
  case (timers es)
  with assms(2) show ?thesis by (simp add: proxy_inv_def)
qed

section \<open>Every event is a sequence of operations\<close>

lemma monitor_loop_micro:
  assumes "\<And>i. env_ok (envs i)" "monitor_loop ll envs (pworld st) (pconns st) is = Inr (w, cs)"
  shows "(micro ll)\<^sup>*\<^sup>* st (st\<lparr>pworld := w, pconns := cs\<rparr>)"
  using assms(2)
proof (induction "is" arbitrary: st)
  case (Cons i "is")
  then obtain c w1 r where c: "map_of (pconns st) i = Some c" "monitor_connection ll (envs i) (pworld st) c = Inr (w1, r)"
    "monitor_loop ll envs w1 (put_outcome i r (pconns st)) is = Inr (w, cs)" by (auto elim!: bindE_InrE)
  let ?st = "st\<lparr>pworld := w1, pconns := put_outcome i r (pconns st)\<rparr>"
  have "micro ll st ?st" using c(1,2) assms(1) by (intro micro.conn conn_event.tick)
  moreover have "(micro ll)\<^sup>*\<^sup>* ?st (?st\<lparr>pworld := w, pconns := cs\<rparr>)" using Cons.IH [of ?st] c(3) by simp
  ultimately show ?case by simp
qed auto

lemma put_events_micro:
  assumes "env_ok env" "put_events_slow_mode ll env (pworld st) (pconns st) es = Inr (w, cs)"
  shows "(micro ll)\<^sup>*\<^sup>* st (st\<lparr>pworld := w, pconns := cs\<rparr>)"
  using assms(2)
proof (induction es arbitrary: st)
  case (Cons e es)
  let ?i = "get_associated_conn e"
  from Cons.prems obtain pend where p: "event_pending (pconns st) e = Inr pend" by (auto elim!: bindE_InrE)
  show ?case
  proof (cases pend)
    case True
    with Cons.prems p obtain c w1 c1 where c: "map_of (pconns st) ?i = Some c"
      "Connection_set_slow_mode ll env (pworld st) c = Inr (w1, c1)"
      "put_events_slow_mode ll env w1 (AList.update ?i c1 (pconns st)) es = Inr (w, cs)" by (auto elim!: bindE_InrE)
    let ?st = "st\<lparr>pworld := w1, pconns := put_outcome ?i (Live c1) (pconns st)\<rparr>"
    have "micro ll st ?st" using c(1,2) assms(1) by (intro micro.conn conn_event.switch)
    moreover have "(micro ll)\<^sup>*\<^sup>* ?st (?st\<lparr>pworld := w, pconns := cs\<rparr>)"
      using Cons.IH [of ?st] c(3) by (simp add: put_outcome_def)
    ultimately show ?thesis by simp
  qed (use Cons p in simp)
qed auto

text \<open>What an enabled event of a connection finds.\<close>

lemma enabled_conn:
  assumes "proxy_inv st" "map_of (pconns st) i = Some c"
  shows "enabled (ClientReadable env i) st \<Longrightarrow> c_read_evt (client c)"
    "enabled (ClientWritable i) st \<Longrightarrow> c_write_evt (client c)"
    "enabled (ServerReadable i t) st \<Longrightarrow> server c \<noteq> None"
    "enabled (ServerWritable i) st \<Longrightarrow> \<exists>sv. server c = Some sv \<and> s_write_evt sv"
  using assms(2) pending_events_iff [OF proxy_invD(2) [OF assms(1)]]
  by (auto simp: enabled_def get_associated_conn_def pending_events_of_def split: if_splits option.splits)

lemma dispatch_conn_event:
  assumes "proxy_inv st" "event_ok ev" "enabled ev st" "dispatch ll ev st = Inr st'"
    "ev = ClientReadable env i \<or> ev = ClientWritable i \<or> ev = ServerReadable i t \<or> ev = ServerWritable i"
  obtains c w r where "map_of (pconns st) i = Some c" "conn_event ll (pworld st) c w r"
    "st' = st\<lparr>pworld := w, pconns := put_outcome i r (pconns st)\<rparr>"
proof -
  from assms(4,5) obtain h c w r where c: "map_of (pconns st) i = Some c" "h (pworld st) c = Inr (w, r)"
    "st' = st\<lparr>pworld := w, pconns := put_outcome i r (pconns st)\<rparr>"
    "ev = ClientReadable env i \<and> h = Client_on_readable ll env \<or> ev = ClientWritable i \<and> h = Client_on_writable
     \<or> ev = ServerReadable i t \<and> h = Server_on_readable ll t \<or> ev = ServerWritable i \<and> h = Server_on_writable"
    by (auto simp: dispatch_def on_conn_def elim!: bindE_InrE)
  have "conn_event ll (pworld st) c w r"
    using c(2,4) assms(2,3) enabled_conn [OF assms(1) c(1)] by (auto simp: event_ok_def intro: conn_event.intros)
  with c that show thesis by blast
qed

lemma dispatch_micro:
  assumes "proxy_inv st" "event_ok ev" "enabled ev st" "dispatch ll ev st = Inr st'"
  shows "(micro ll)\<^sup>*\<^sup>* st st'"
proof (cases ev)
  case (Accept env sk)
  with assms(2) obtain s where s: "env_ok env" "sk = Some s" "fresh_sock s" by (auto simp: event_ok_def split: option.splits)
  with assms(4) Accept obtain w r where r: "Connection_accept_new env (pworld st) (Some s) = Inr (w, r)"
    "case r of Inl _ \<Rightarrow> st' = st\<lparr>pworld := w\<rparr>
     | Inr c \<Rightarrow> st' = st\<lparr>pworld := w, pconns := (next_id st, c) # pconns st, next_id := next_id st + 1\<rparr>"
    by (auto simp: dispatch_def elim!: bindE_InrE split: sum.splits)
  show ?thesis
  proof (cases r)
    case (Inl x)
    with r have "w = pworld st" by (auto simp: Connection_accept_new_def Connection_new_def elim!: bindE_InrE split: if_splits)
    with r Inl show ?thesis by simp
  next
    case (Inr c)
    with r micro.accept [OF s(1,3), of st w c ll] show ?thesis by simp
  qed
next
  case (MonitorTick envs)
  with assms(2,4) monitor_loop_micro [of envs ll st] show ?thesis
    by (auto simp: event_ok_def dispatch_def monitor_data_rates_def elim!: bindE_InrE)
next
  case SlowSignal
  with assms(4) show ?thesis by (auto simp: dispatch_def intro!: r_into_rtranclp micro.timers)
next
  case (SlowTimer env)
  with assms(2-4) obtain es rest w cs where s: "env_ok env"
    "put_events_slow_mode ll env (pworld st) (pconns st) es = Inr (w, cs)"
    "st' = (st\<lparr>pworld := w, pconns := cs\<rparr>)\<lparr>scheduled := rest\<rparr>"
    by (auto simp: event_ok_def enabled_def dispatch_def elim!: bindE_InrE split: list.splits)
  from put_events_micro [OF s(1,2)] micro.timers [of ll "st\<lparr>pworld := w, pconns := cs\<rparr>" rest] s(3)
  show ?thesis by (simp add: rtranclp.rtrancl_into_rtrancl)
qed (use dispatch_conn_event [OF assms] micro.conn in \<open>metis r_into_rtranclp\<close>)+

section \<open>For one connection an event is at most one operation\<close>

definition conn_moves :: "'p llhttp \<Rightarrow> 'p connection \<Rightarrow> 'p connection \<Rightarrow> bool" where
  "conn_moves ll c c' \<longleftrightarrow> c' = c \<or> (\<exists>w w'. world_inv w \<and> conn_event ll w c w' (Live c'))"

lemma monitor_loop_moves:
  assumes "llhttp_ok ll" "proxy_inv st" "\<And>i. env_ok (envs i)" "distinct is"
    "monitor_loop ll envs (pworld st) (pconns st) is = Inr (w, cs)"
    "map_of (pconns st) i = Some c" "map_of cs i = Some c'"
  shows "conn_moves ll c c'"
  using assms(2,4-6)
proof (induction "is" arbitrary: st)
  case Nil
  with assms(7) show ?case by (auto simp: conn_moves_def)
next
  case (Cons j js)
  from Cons.prems(3) obtain d w1 r where d: "map_of (pconns st) j = Some d"
    "monitor_connection ll (envs j) (pworld st) d = Inr (w1, r)"
    "monitor_loop ll envs w1 (put_outcome j r (pconns st)) js = Inr (w, cs)" by (auto elim!: bindE_InrE)
  let ?st = "st\<lparr>pworld := w1, pconns := put_outcome j r (pconns st)\<rparr>"
  have e: "conn_event ll (pworld st) d w1 r" using assms(3) d(2) by (rule conn_event.tick)
  have "proxy_inv ?st" using micro_inv [OF assms(1) Cons.prems(1)] micro.conn [OF d(1) e] by simp
  note IH = Cons.IH [of ?st, OF this]
  show ?case
  proof (cases "i = j")
    case True
    from monitor_loop_conn [OF d(3), of i] Cons.prems(2) True have "map_of cs i = map_of (put_outcome j r (pconns st)) i" by simp
    with assms(7) True have "r = Live c'" by (auto simp: map_of_put_outcome split: outcome.splits)
    with e d(1) True Cons.prems(1,4) show ?thesis by (auto simp: conn_moves_def dest: proxy_invD)
  next
    case False
    with IH Cons.prems(2,4) d(3) show ?thesis by (simp add: map_of_put_outcome)
  qed
qed

lemma put_events_moves:
  assumes "llhttp_ok ll" "proxy_inv st" "env_ok env"
    "put_events_slow_mode ll env (pworld st) (pconns st) es = Inr (w, cs)"
    "map_of (pconns st) i = Some c" "map_of cs i = Some c'"
  shows "conn_moves ll c c'"
  using assms(2,4,5)
proof (induction es arbitrary: st)
  case Nil
  with assms(6) show ?case by (auto simp: conn_moves_def)
next
  case (Cons e es)
  let ?j = "get_associated_conn e"
  from Cons.prems(2) obtain pend where p: "event_pending (pconns st) e = Inr pend" by (auto elim!: bindE_InrE)
  show ?case
  proof (cases pend)
    case True
    with Cons.prems(2) p obtain d w1 d1 where d: "map_of (pconns st) ?j = Some d"
      "Connection_set_slow_mode ll env (pworld st) d = Inr (w1, d1)"
      "put_events_slow_mode ll env w1 (AList.update ?j d1 (pconns st)) es = Inr (w, cs)" by (auto elim!: bindE_InrE)
    let ?st = "st\<lparr>pworld := w1, pconns := put_outcome ?j (Live d1) (pconns st)\<rparr>"
    have e: "conn_event ll (pworld st) d w1 (Live d1)" using assms(3) d(2) by (rule conn_event.switch)
    have inv: "proxy_inv ?st" using micro_inv [OF assms(1) Cons.prems(1)] micro.conn [OF d(1) e] by simp
    show ?thesis
    proof (cases "i = ?j")
      case True
      with d(1) Cons.prems(3) have c: "d = c" by simp
      from Cons.prems(1,3) have i: "world_inv (pworld st)" "conn_inv c" by (auto dest: proxy_invD)
      from set_slow_mode_safe [OF assms(3) i, of ll] d(2) c have "\<not> fast_mode d1" by auto
      with put_events_slow [OF d(3), of i d1] True have "map_of cs i = Some d1" by (simp add: AList.update_conv')
      with assms(6) e c i(1) show ?thesis by (auto simp: conn_moves_def)
    next
      case False
      with Cons.IH [of ?st, OF inv] d(3) Cons.prems(3) show ?thesis
        by (simp add: put_outcome_def AList.update_conv')
    qed
  qed (use Cons p in simp)
qed

lemma dispatch_moves:
  assumes "llhttp_ok ll" "proxy_inv st" "event_ok ev" "enabled ev st" "dispatch ll ev st = Inr st'"
    "map_of (pconns st) i = Some c" "map_of (pconns st') i = Some c'"
  shows "conn_moves ll c c'"
proof -
  have one: "conn_moves ll c c'" if ev: "ev = ClientReadable env j \<or> ev = ClientWritable j \<or> ev = ServerReadable j t \<or> ev = ServerWritable j"
    for env j t
  proof -
    obtain d w r where d: "map_of (pconns st) j = Some d" "conn_event ll (pworld st) d w r"
      "st' = st\<lparr>pworld := w, pconns := put_outcome j r (pconns st)\<rparr>" using dispatch_conn_event [OF assms(2-5) ev] .
    with assms(2,6,7) show ?thesis
      by (cases "i = j") (auto simp: conn_moves_def map_of_put_outcome dest: proxy_invD split: outcome.splits)
  qed
  show ?thesis
  proof (cases ev)
    case (Accept env sk)
    from assms(2,6) have "i < next_id st" unfolding proxy_inv_def by blast
    with Accept assms(5-7) show ?thesis
      by (auto simp: dispatch_def conn_moves_def case_prod_beta elim!: bindE_InrE split: sum.splits)
  next
    case (MonitorTick envs)
    with assms(3,5) obtain w cs where "\<And>i. env_ok (envs i)"
      "monitor_loop ll envs (pworld st) (pconns st) (get_all_connections (pconns st)) = Inr (w, cs)" "pconns st' = cs"
      by (auto simp: event_ok_def dispatch_def monitor_data_rates_def elim!: bindE_InrE)
    with monitor_loop_moves [OF assms(1,2) _ get_all_connections_complete(2) [OF assms(2)]] assms(6,7) show ?thesis by blast
  next
    case SlowSignal
    with assms(5-7) show ?thesis by (auto simp: dispatch_def conn_moves_def)
  next
    case (SlowTimer env)
    with assms(3-5) obtain es w cs where "env_ok env"
      "put_events_slow_mode ll env (pworld st) (pconns st) es = Inr (w, cs)" "pconns st' = cs"
      by (auto simp: event_ok_def enabled_def dispatch_def elim!: bindE_InrE split: list.splits)
    with put_events_moves [OF assms(1,2)] assms(6,7) show ?thesis by blast
  qed (use one in blast)+
qed

text \<open>Where connections come from.\<close>

lemma dispatch_birth:
  assumes "proxy_inv st" "event_ok ev" "dispatch ll ev st = Inr st'"
    "map_of (pconns st) i = None" "map_of (pconns st') i = Some c"
  obtains sk h where "fresh_sock sk" "clean_history h" "c = new_conn sk h"
proof (cases "i < next_id st")
  case True
  with dispatch_gone(1) [OF assms(3,4)] assms(5) show thesis by simp
next
  case False
  have "\<exists>env sk. ev = Accept env sk"
    using assms(3-5) monitor_loop_gone [where i = i] put_events_gone [where i = i] on_conn_gone [where i = i]
    by (cases ev; fastforce simp: dispatch_def monitor_data_rates_def elim!: bindE_InrE split: list.splits)
  with assms(2) obtain env sk where a: "ev = Accept env (Some sk)" "env_ok env" "fresh_sock sk"
    by (auto simp: event_ok_def split: option.splits)
  show thesis
    by (cases rule: dispatch_accept_cases [OF assms(1) a(2), where ll = ll and sk = sk])
      (use a assms(3-5) that [OF a(3)] in \<open>auto split: if_splits\<close>)
qed

section \<open>The graph of modes\<close>

datatype mode = Fresh | Relaying | Last_reply | Switching | Receiving | Serving | Slow_reply

definition mode_of :: "'p connection \<Rightarrow> mode" where
  "mode_of c =
     (if fast_mode c then
        if parser c \<noteq> None then Relaying else if c_queued_output (client c) = None then Fresh else Last_reply
      else if in_transition c then Switching
      else if parser c = None then Slow_reply
      else if server c = None then Receiving else Serving)"

definition mode_succs :: "mode \<Rightarrow> mode list" where
  "mode_succs m =
     (case m of
        Fresh \<Rightarrow> [Fresh, Relaying, Receiving]
      | Relaying \<Rightarrow> [Relaying, Last_reply, Switching]
      | Last_reply \<Rightarrow> [Last_reply, Receiving]
      | Switching \<Rightarrow> [Switching, Receiving]
      | Receiving \<Rightarrow> [Receiving, Serving, Slow_reply]
      | Serving \<Rightarrow> [Serving, Receiving, Slow_reply]
      | Slow_reply \<Rightarrow> [Slow_reply])"

definition mode_step :: "mode \<Rightarrow> mode \<Rightarrow> bool" where
  "mode_step m m' \<longleftrightarrow> m' \<in> set (mode_succs m)"

lemma mode_step_refl [simp]: "mode_step m m"
  by (cases m) (simp_all add: mode_step_def mode_succs_def)

lemma mode_of_fast: "fast_mode c \<longleftrightarrow> mode_of c = Fresh \<or> mode_of c = Relaying \<or> mode_of c = Last_reply"
  by (simp add: mode_of_def)

lemma conn_inv_mode:
  assumes "conn_inv c"
  shows "mode_of c = Fresh \<longleftrightarrow> fast_fresh c" "mode_of c = Relaying \<longleftrightarrow> fast_active c"
    "mode_of c = Last_reply \<longleftrightarrow> fast_reply c" "mode_of c = Switching \<longleftrightarrow> slow_transition c"
    "mode_of c = Receiving \<longleftrightarrow> slow_receiving c" "mode_of c = Serving \<longleftrightarrow> slow_serving c"
    "mode_of c = Slow_reply \<longleftrightarrow> slow_reply c"
  using assms by (auto simp: conn_inv_def mode_of_def mode_defs)

lemma close_or_reply_mode:
  assumes "Connection_close_or_reply w c = Inr (w', Live c')" "fast_mode c"
  shows "mode_of c' = Last_reply \<and> (\<exists>cq. c_queued_output (client c) = Some cq \<and> Circularbuf_data_size cq > 0)"
  using assms
  by (auto simp: Connection_close_or_reply_def case_prod_beta Let_def Connection_free_parser_def delete_not_live
      mode_of_def client_ops elim!: bindE_InrE split: if_splits)

lemma fast_forward_cs_mode:
  assumes "llhttp_ok ll" "history_ok (client c)" "fast_active c" "Connection_fast_forward_cs ll w c = Inr (w', Live c')"
  shows "mode_of c' = Relaying
    \<or> mode_of c' = Last_reply \<and> (\<exists>cq. c_queued_output (client c) = Some cq \<and> Circularbuf_data_size cq > 0)"
proof (rule fast_forward_cs_unfold [OF assms(1-3), where w = w], goal_cases)
  case (1 p sv sq cq h d stat sk p' ok h' sq2 stat_s ssk c2 sv2)
  have f: "fast_mode c2" using assms(3) 1(17) by (simp add: fast_active_def)
  show ?case
  proof (cases ok)
    case False
    with assms(4) 1(19) have "Connection_close_or_reply w c2 = Inr (w', Live c')" by simp
    with f have "mode_of c' = Last_reply \<and> (\<exists>cq. c_queued_output (client c2) = Some cq \<and> Circularbuf_data_size cq > 0)"
      by (rule close_or_reply_mode [rotated])
    with 1(17) show ?thesis by simp
  next
    case True
    with assms(4) 1(19) have "fast_mode c' = fast_mode c2" "parser c' = parser c2" by (auto simp: delete_not_live split: if_splits)
    with f 1(17) show ?thesis by (simp add: mode_of_def)
  qed
qed

lemma fast_forward_sc_mode:
  assumes "history_ok (client c)" "fast_active c" "Connection_fast_forward_sc w c = Inr (w', Live c')"
  shows "mode_of c' = Relaying \<or> mode_of c' = Last_reply"
proof (rule fast_forward_sc_unfold [OF assms(1,2), where w = w], goal_cases)
  case (1 sv cq d stat cq2 stat_c sk ssk cl2 sv2 c2)
  have f: "fast_mode c2" "parser c2 \<noteq> None" using assms(2) 1(9) by (auto simp: fast_active_def)
  show ?case
  proof (cases "has_eof stat")
    case True
    with assms(3) 1(10) have "Connection_close_or_reply w c2 = Inr (w', Live c')" by simp
    from close_or_reply_mode [OF this f(1)] show ?thesis by simp
  next
    case False
    with assms(3) 1(10) have "fast_mode c' = fast_mode c2" "parser c' = parser c2" by (auto split: if_splits)
    with f show ?thesis by (simp add: mode_of_def)
  qed
qed

lemma recv_slowly_mode:
  assumes "Client_recv_to_buffer_slowly ll env w c = Inr (w', Live c')" "slow_receiving c"
  shows "mode_step Receiving (mode_of c')"
  using assms unfolding Client_recv_to_buffer_slowly_def Let_def case_prod_beta
  by (auto elim!: bindE_InrE split: if_split_asm option.split_asm simp: delete_not_live slow_receiving_def mode_of_def
      mode_step_def mode_succs_def Connection_free_parser_def client_ops)

lemma client_readable_fast_mode:
  assumes "llhttp_ok ll" "conn_inv c" "fast_mode c" "c_read_evt (client c)" "Client_on_readable ll env w c = Inr (w', Live c')"
  shows "mode_of c' = Relaying \<or> mode_of c' = Last_reply \<and> mode_of c = Relaying"
  using assms(2)
proof (cases rule: conn_inv_cases)
  case fresh
  then have f: "fast_mode c" "parser c = None" by (simp_all add: fast_fresh_def)
  with assms(5) obtain w1 sv where
    "Connection_fast_forward_cs ll w1 (c\<lparr>parser := Some (HttpParser_new ll),
         server := Some (sv\<lparr>s_queued_output := Some Circularbuf_new, s_read_evt := True\<rparr>),
         client := (client c)\<lparr>c_queued_output := Some Circularbuf_new\<rparr>\<rparr>) = Inr (w', Live c')"
    by (auto simp: Client_on_readable_def Let_def delete_not_live elim!: bindE_InrE split: option.splits)
  note run = this
  let ?c = "c\<lparr>parser := Some (HttpParser_new ll), server := Some (sv\<lparr>s_queued_output := Some Circularbuf_new, s_read_evt := True\<rparr>),
     client := (client c)\<lparr>c_queued_output := Some Circularbuf_new\<rparr>\<rparr>"
  have "fast_active ?c" "history_ok (client ?c)" using fresh by (auto simp: fast_active_def fast_fresh_def)
  with fast_forward_cs_mode [OF assms(1) this(2,1) run] show ?thesis
    by (auto simp: Circularbuf_data_size_def Circularbuf_new_def)
next
  case active
  then have "Client_on_readable ll env w c = Connection_fast_forward_cs ll w c" "mode_of c = Relaying"
    using conn_inv_mode(2) [OF assms(2)] by (auto simp: Client_on_readable_def fast_active_def)
  with fast_forward_cs_mode [OF assms(1) active] assms(5) show ?thesis by auto
next
  case reply
  with assms(4) show ?thesis by (simp add: fast_reply_def)
next
  case slow
  with assms(3) show ?thesis by (blast elim: slow_connE)
qed

lemma client_readable_mode:
  assumes "llhttp_ok ll" "env_ok env" "conn_inv c" "c_read_evt (client c)" "Client_on_readable ll env w c = Inr (w', Live c')"
  shows "mode_step (mode_of c) (mode_of c')"
proof (cases "fast_mode c")
  case True
  have "\<not> fast_reply c" using assms(4) by (simp add: fast_reply_def)
  with True have "mode_of c = Fresh \<or> mode_of c = Relaying"
    using mode_of_fast [of c] conn_inv_mode(3) [OF assms(3)] by blast
  with client_readable_fast_mode [OF assms(1,3) True assms(4,5)] show ?thesis by (auto simp: mode_step_def mode_succs_def)
next
  case False
  with assms(3,4) have r: "slow_receiving c" using slow_conn_inv [of c]
    by (auto simp only: slow_conn_def slow_transition_def slow_serving_def slow_reply_def)
  then have "mode_of c = Receiving" using conn_inv_mode(5) [OF assms(3)] by simp
  with False recv_slowly_mode [OF _ r] assms(5) show ?thesis by (simp add: Client_on_readable_def)
qed

text \<open>Writing to the client and sending requests do not change the mode.\<close>

definition same_mode :: "'p connection \<Rightarrow> 'p connection \<Rightarrow> bool" where
  "same_mode c c' \<longleftrightarrow> fast_mode c' = fast_mode c \<and> in_transition c' = in_transition c
     \<and> (parser c' = None \<longleftrightarrow> parser c = None) \<and> (server c' = None \<longleftrightarrow> server c = None)
     \<and> (c_queued_output (client c') = None \<longleftrightarrow> c_queued_output (client c) = None)"

lemma same_mode_eq: "same_mode c c' \<Longrightarrow> mode_of c' = mode_of c"
  by (simp add: same_mode_def mode_of_def)

lemma send_response_mode: "Client_send_response_slowly w c = Inr (w', Live c') \<Longrightarrow> same_mode c c'"
  by (auto simp: Client_send_response_slowly_def case_prod_beta Let_def delete_not_live same_mode_def
      elim!: bindE_InrE split: if_splits)

lemma client_writable_mode: "Client_on_writable w c = Inr (w', Live c') \<Longrightarrow> same_mode c c'"
  by (auto simp: Client_on_writable_def case_prod_beta Let_def delete_not_live same_mode_def
      elim!: bindE_InrE dest!: send_response_mode split: if_splits option.splits)

lemma send_request_mode: "Server_send_request_slowly w c = Inr (w', Live c') \<Longrightarrow> same_mode c c'"
  by (auto simp: Server_send_request_slowly_def case_prod_beta Let_def same_mode_def elim!: bindE_InrE split: if_splits)

lemma server_writable_mode: "Server_on_writable w c = Inr (w', Live c') \<Longrightarrow> same_mode c c'"
  by (auto simp: Server_on_writable_def case_prod_beta Let_def same_mode_def
      elim!: bindE_InrE dest!: send_request_mode split: if_splits)

lemma server_readable_slow_mode:
  assumes "\<not> fast_mode c" "server c \<noteq> None" "parser c \<noteq> None" "Server_on_readable ll t w c = Inr (w', Live c')"
  shows "mode_step (mode_of c) (mode_of c')"
  using assms unfolding Server_on_readable_def Server_recv_to_buffer_slowly_def Let_def case_prod_beta
  by (auto elim!: bindE_InrE split: if_split_asm simp: delete_not_live mode_of_def mode_step_def mode_succs_def
      Connection_free_parser_def Connection_set_transition_done_def client_ops)

lemma server_readable_mode:
  assumes "conn_inv c" "server c \<noteq> None" "Server_on_readable ll t w c = Inr (w', Live c')"
  shows "mode_step (mode_of c) (mode_of c')"
  using assms(1)
proof (cases rule: conn_inv_cases)
  case active
  then have "mode_of c = Relaying" "fast_mode c" using conn_inv_mode(2) [OF assms(1)] by (simp_all add: fast_active_def)
  with fast_forward_sc_mode [OF active] assms(3) show ?thesis
    by (auto simp: Server_on_readable_def mode_step_def mode_succs_def)
next
  case slow
  with assms(2) have "\<not> fast_mode c" "parser c \<noteq> None"
    by (auto simp only: slow_conn_def slow_transition_def slow_receiving_def slow_serving_def slow_reply_def)
  with assms(2,3) server_readable_slow_mode show ?thesis by blast
qed (use assms(2) in \<open>simp_all add: fast_fresh_def fast_reply_def\<close>)

lemma set_slow_mode_mode:
  assumes "env_ok env" "world_inv w" "conn_inv c" "Connection_set_slow_mode ll env w c = Inr (w', c')"
  shows "mode_step (mode_of c) (mode_of c')"
  using assms(3)
proof (cases rule: conn_inv_cases)
  case active
  then have m: "mode_of c = Relaying" using conn_inv_mode(2) [OF assms(3)] by simp
  show ?thesis
    by (rule set_slow_mode_active [OF assms(1,2) active, of ll])
      (use m assms(4) in \<open>auto simp: mode_step_def mode_succs_def slow_transition_def mode_of_def\<close>)
next
  case slow
  then have "\<not> fast_mode c" by (blast elim: slow_connE)
  with assms(4) show ?thesis by (simp add: Connection_set_slow_mode_def)
next
  case fresh
  then have m: "mode_of c = Fresh" "server c = None" using conn_inv_mode(1) [OF assms(3)] by (simp_all add: fast_fresh_def)
  show ?thesis
    by (rule set_slow_mode_no_parser [OF assms(1,2) fresh(1) disjI1 [OF fresh(2)], of ll])
      (use m assms(4) in \<open>auto simp: mode_step_def mode_succs_def mode_of_def\<close>)
next
  case reply
  then have m: "mode_of c = Last_reply" "server c = None" using conn_inv_mode(3) [OF assms(3)] by (simp_all add: fast_reply_def)
  show ?thesis
    by (rule set_slow_mode_no_parser [OF assms(1,2) reply(1) disjI2 [OF reply(2)], of ll])
      (use m assms(4) in \<open>auto simp: mode_step_def mode_succs_def mode_of_def\<close>)
qed

lemma mode_of_counts [simp]: "mode_of (c\<lparr>client := (client c)\<lparr>read_count := r, write_count := n\<rparr>\<rparr>) = mode_of c"
  by (simp add: mode_of_def)

lemma conn_event_mode:
  assumes "llhttp_ok ll" "world_inv w" "conn_inv c" "conn_event ll w c w' (Live c')"
  shows "mode_step (mode_of c) (mode_of c')"
  using assms(4)
proof cases
  case (readable env)
  with client_readable_mode [OF assms(1) _ assms(3)] show ?thesis by blast
next
  case writable
  with client_writable_mode [THEN same_mode_eq] show ?thesis by force
next
  case (server_readable t)
  with server_readable_mode [OF assms(3)] show ?thesis by blast
next
  case (server_writable sv)
  with server_writable_mode [THEN same_mode_eq] show ?thesis by force
next
  case (tick env)
  then show ?thesis using set_slow_mode_mode [OF _ assms(2,3), of env ll]
    by (auto simp: monitor_connection_def Let_def delete_not_live elim!: bindE_InrE split: if_splits)
next
  case (switch env)
  with set_slow_mode_mode [OF _ assms(2,3)] show ?thesis by blast
qed

lemma dispatch_mode:
  assumes "llhttp_ok ll" "proxy_inv st" "event_ok ev" "enabled ev st" "dispatch ll ev st = Inr st'"
    "map_of (pconns st) i = Some c" "map_of (pconns st') i = Some c'"
  shows "mode_step (mode_of c) (mode_of c')"
proof -
  from assms(2,6) have "conn_inv c" by (auto dest: proxy_invD)
  with dispatch_moves [OF assms] conn_event_mode [OF assms(1)] show ?thesis by (auto simp: conn_moves_def)
qed

lemma new_conn_mode [simp]: "mode_of (new_conn sk h) = Fresh"
  by (simp add: mode_of_def new_conn_def new_client_def)

text \<open>
  C6: a connection moves through its modes only along the edges of \<open>mode_succs\<close>.  With every event of
  a reachable proxy it starts afresh, stays in its mode or takes one edge of the graph: from relaying
  to the last reply or through the transition to receiving, from receiving to waiting for the
  server, and in slow mode from there to the delivery of the response, which nothing follows.  No edge leads back to fast
  mode, and a connection delivering a response in slow mode accepts no further request.
\<close>

theorem modes_follow_graph:
  assumes "llhttp_ok ll" "reachable ll st" "event_ok ev" "enabled ev st" "dispatch ll ev st = Inr st'"
    "map_of (pconns st') i = Some c'"
  shows "case map_of (pconns st) i of None \<Rightarrow> mode_of c' = Fresh | Some c \<Rightarrow> mode_step (mode_of c) (mode_of c')"
proof (cases "map_of (pconns st) i")
  case None
  from dispatch_birth [OF reachable_proxy_inv [OF assms(1,2)] assms(3,5) None assms(6)]
  obtain sk h where "c' = new_conn sk h" .
  with None show ?thesis by simp
next
  case (Some c)
  with dispatch_mode [OF assms(1) reachable_proxy_inv [OF assms(1,2)] assms(3-5) _ assms(6)] show ?thesis by simp
qed

theorem modes_follow_graph_witness:
  "\<exists>st st' c c'. reachable line_llhttp st \<and> dispatch line_llhttp (SlowTimer good_env) st = Inr st'
     \<and> map_of (pconns st) 0 = Some c \<and> map_of (pconns st') 0 = Some c'
     \<and> mode_of c = Fresh \<and> mode_of c' = Receiving \<and> mode_step (mode_of c) (mode_of c')"
proof (rule slowed_connection [OF good_env_ok(2), where ll = line_llhttp], goal_cases)
  case (1 st0 st1 st2 st h)
  have r: "reachable line_llhttp st2"
    using run_of_reachable [OF 1(3) reachable.start [OF 1(1,2)]] run_of_reachable [OF 1(4)] by blast
  have d: "event_ok (SlowTimer good_env)" "enabled (SlowTimer good_env) st2" "dispatch line_llhttp (SlowTimer good_env) st2 = Inr st"
    using 1(5) by simp_all
  have "map_of (pconns st) 0 = Some (slow_conn_of line_llhttp idle_sock h)" using 1(9) by simp
  moreover have "map_of (pconns st2) 0 = Some (new_conn idle_sock h)" using 1(8) by simp
  moreover have "mode_of (slow_conn_of line_llhttp idle_sock h) = Receiving"
    by (simp add: mode_of_def slow_conn_of_def new_conn_def)
  ultimately show ?case using modes_follow_graph [OF line_llhttp_ok r d, of 0] r d(3)
    by (metis new_conn_mode option.case(2))
qed

end
