(* ===== verification/Resources.thy ===== *)
theory Resources
  imports Steps
begin

text \<open>
  What the process holds: the file descriptors and the memory buffers of its connections and of
  the pool of history buffers.  History buffers move between connections and pool and are only
  created when the pool is empty, so there are never more of them than \<open>MAX_CONNECTION\<close>; with
  this the budgets the program is configured with (\<open>FILE_DESCRIPTORS\<close> and \<open>MEMORY_USAGE\<close> in
  \<open>src/ls_proxy.h\<close>) are bounds of every reachable state.
\<close>

section \<open>History buffers\<close>

definition holds_history :: "client \<Rightarrow> nat" where
  "holds_history cl = (if request_history cl = None then 0 else 1)"

definition outcome_history :: "'p outcome \<Rightarrow> nat" where
  "outcome_history r = (case r of Live c \<Rightarrow> holds_history (client c) | Deleted c \<Rightarrow> 0)"

text \<open>An operation does not create history buffers.\<close>

definition no_new_history :: "world \<Rightarrow> client \<Rightarrow> world \<Rightarrow> 'p outcome \<Rightarrow> bool" where
  "no_new_history w cl w' r \<longleftrightarrow>
     length (hybridbuf_pool w') + outcome_history r \<le> length (hybridbuf_pool w) + holds_history cl"

lemma holds_history_updates [simp]:
  "holds_history (cl\<lparr>c_sock := x1\<rparr>) = holds_history cl"
  "holds_history (cl\<lparr>c_read_evt := x2\<rparr>) = holds_history cl"
  "holds_history (cl\<lparr>c_write_evt := x2\<rparr>) = holds_history cl"
  "holds_history (cl\<lparr>c_queued_output := x3\<rparr>) = holds_history cl"
  "holds_history (cl\<lparr>request_buf := x4\<rparr>) = holds_history cl"
  "holds_history (cl\<lparr>request_tmp_buf := x4\<rparr>) = holds_history cl"
  "holds_history (cl\<lparr>response_buf := x5\<rparr>) = holds_history cl"
  "holds_history (cl\<lparr>read_count := x6\<rparr>) = holds_history cl"
  "holds_history (cl\<lparr>write_count := x6\<rparr>) = holds_history cl"
  "holds_history (cl\<lparr>request_history := Some h\<rparr>) = 1"
  by (simp_all add: holds_history_def)

lemma holds_history_Some: "request_history cl = Some h \<Longrightarrow> holds_history cl = 1"
  by (simp add: holds_history_def)

lemmas history_defs = no_new_history_def outcome_history_def

lemma free_server_pool [simp]: "hybridbuf_pool (fst (Connection_free_server w c)) = hybridbuf_pool w"
  by (simp add: Connection_free_server_def split: option.splits)

lemma Server_new_pool: "Server_new env w = Inr (w', sv) \<Longrightarrow> hybridbuf_pool w' = hybridbuf_pool w"
  by (auto simp: Server_new_def Let_def elim!: bindE_InrE split: if_splits)

lemma release_pool:
  "Client_release_request_history w cl = Inr (w', cl') \<Longrightarrow>
   holds_history cl' = 0 \<and> length (hybridbuf_pool w') \<le> length (hybridbuf_pool w) + holds_history cl"
  by (auto simp: Client_release_request_history_def holds_history_def elim!: bindE_InrE split: option.splits if_splits)

lemma delete_pool: "Connection_delete w c = Inr (w', r) \<Longrightarrow> no_new_history w (client c) w' r"
  by (auto simp: Connection_delete_def Connection_free_client_def case_prod_beta Let_def history_defs elim!: bindE_InrE dest!: release_pool)

lemma close_or_reply_pool: "Connection_close_or_reply w c = Inr (w', r) \<Longrightarrow> no_new_history w (client c) w' r"
  by (auto simp: history_defs Connection_close_or_reply_def case_prod_beta Let_def Connection_free_parser_def client_ops
      elim!: bindE_InrE dest!: delete_pool split: if_splits)

lemma keep_track_holds:
  "Client_keep_track_request_history ll c g = Inr (c', b) \<Longrightarrow> holds_history (client c') = holds_history (client c)"
  by (auto simp: Client_keep_track_request_history_def case_prod_beta Let_def holds_history_Some
      elim!: bindE_InrE split: if_splits)

lemma fast_forward_cs_pool: "Connection_fast_forward_cs ll w c = Inr (w', r) \<Longrightarrow> no_new_history w (client c) w' r"
  by (auto simp: history_defs Connection_fast_forward_cs_def case_prod_beta Let_def
      elim!: bindE_InrE dest!: keep_track_holds close_or_reply_pool delete_pool split: if_splits)

lemma fast_forward_sc_pool: "Connection_fast_forward_sc w c = Inr (w', r) \<Longrightarrow> no_new_history w (client c) w' r"
  by (auto simp: history_defs Connection_fast_forward_sc_def case_prod_beta Let_def
      elim!: bindE_InrE dest!: close_or_reply_pool split: if_splits)

lemma recv_slowly_pool: "Client_recv_to_buffer_slowly ll env w c = Inr (w', r) \<Longrightarrow> no_new_history w (client c) w' r"
  unfolding Client_recv_to_buffer_slowly_def Let_def case_prod_beta
  by (auto elim!: bindE_InrE split: if_split_asm option.split_asm simp: history_defs Connection_free_parser_def client_ops
      dest!: Server_new_pool delete_pool)

lemma client_readable_pool: "Client_on_readable ll env w c = Inr (w', r) \<Longrightarrow> no_new_history w (client c) w' r"
  by (auto simp: history_defs Client_on_readable_def Let_def elim!: bindE_InrE split: if_splits option.splits
      dest!: Server_new_pool delete_pool fast_forward_cs_pool recv_slowly_pool)

lemma send_response_pool: "Client_send_response_slowly w c = Inr (w', r) \<Longrightarrow> no_new_history w (client c) w' r"
  by (auto simp: history_defs Client_send_response_slowly_def case_prod_beta Let_def elim!: bindE_InrE split: if_splits
      dest!: delete_pool)

lemma client_writable_pool: "Client_on_writable w c = Inr (w', r) \<Longrightarrow> no_new_history w (client c) w' r"
  by (auto simp: history_defs Client_on_writable_def case_prod_beta Let_def elim!: bindE_InrE split: if_splits option.splits
      dest!: delete_pool send_response_pool)

lemma server_readable_pool: "Server_on_readable ll t w c = Inr (w', r) \<Longrightarrow> no_new_history w (client c) w' r"
  unfolding Server_on_readable_def Server_recv_to_buffer_slowly_def Let_def case_prod_beta
  by (auto elim!: bindE_InrE split: if_split_asm dest!: delete_pool fast_forward_sc_pool
      simp: history_defs Connection_free_parser_def Connection_set_transition_done_def client_ops)

lemma server_writable_pool: "Server_on_writable w c = Inr (w', r) \<Longrightarrow> no_new_history w (client c) w' r"
  unfolding Server_on_writable_def Server_send_request_slowly_def Let_def case_prod_beta
  by (auto elim!: bindE_InrE split: if_split_asm simp: history_defs)

lemma set_slow_mode_pool:
  "Connection_set_slow_mode ll env w c = Inr (w', c') \<Longrightarrow> no_new_history w (client c) w' (Live c')"
  by (auto simp: Connection_set_slow_mode_def Client_copy_history_to_request_buf_def Let_def client_ops
      Connection_set_transition_done_def history_defs holds_history_Some
      elim!: bindE_InrE dest!: release_pool split: if_splits option.splits)

lemma conn_event_pool:
  assumes "conn_event ll w c w' r"
  shows "no_new_history w (client c) w' r"
  using assms
proof cases
  case (tick env)
  then show ?thesis
    by (auto simp: monitor_connection_def Let_def history_defs elim!: bindE_InrE
        dest!: delete_pool set_slow_mode_pool split: if_splits)
qed (blast intro: client_readable_pool client_writable_pool server_readable_pool server_writable_pool set_slow_mode_pool)+

section \<open>All history buffers\<close>

definition count_histories :: "'p conns \<Rightarrow> nat" where
  "count_histories cs = sum_list (map (\<lambda>(i, c). holds_history (client c)) cs)"

definition history_inv :: "'p proxy \<Rightarrow> bool" where
  "history_inv st \<longleftrightarrow> count_histories (pconns st) + length (hybridbuf_pool (pworld st)) \<le> MAX_CONNECTION"

lemma put_outcome_histories:
  assumes "distinct (map fst cs)" "map_of cs i = Some c"
  shows "count_histories (put_outcome i r cs) + holds_history (client c) = count_histories cs + outcome_history r"
  using assms
proof (induction cs)
  case (Cons x cs)
  then show ?case
    by (cases r) (auto simp: put_outcome_def outcome_history_def count_histories_def case_prod_beta split: if_splits)
qed simp

lemma count_histories_length: "count_histories cs \<le> length cs"
  by (induction cs) (auto simp: count_histories_def holds_history_def)

lemma accept_histories:
  assumes "Connection_accept_new env w (Some sk) = Inr (w', Inr c)" "n \<le> connection_count w"
    "n + length (hybridbuf_pool w) \<le> MAX_CONNECTION"
  shows "holds_history (client c) + n + length (hybridbuf_pool w') \<le> MAX_CONNECTION"
  using assms
  by (auto simp: Connection_accept_new_def Client_new_def Connection_new_def holds_history_def
      elim!: bindE_InrE split: if_splits list.splits)

lemma micro_history_inv:
  assumes "proxy_inv st" "history_inv st" "micro ll st st'"
  shows "history_inv st'"
  using assms(3)
proof cases
  case (accept env sk w c)
  have "count_histories (pconns st) \<le> connection_count (pworld st)"
    using assms(1) count_histories_length by (metis proxy_inv_def)
  from accept_histories [OF accept(4) this] assms(2) accept(1) show ?thesis
    by (simp add: history_inv_def count_histories_def)
next
  case (conn i c w r)
  from put_outcome_histories [OF proxy_invD(2) [OF assms(1)] conn(2), of r] conn_event_pool [OF conn(3)] assms(2) conn(1)
  show ?thesis by (simp add: history_inv_def no_new_history_def)
next
  case (timers es)
  with assms(2) show ?thesis by (simp add: history_inv_def)
qed

lemma micros_history_inv:
  assumes "llhttp_ok ll" "(micro ll)\<^sup>*\<^sup>* st st'" "proxy_inv st" "history_inv st"
  shows "history_inv st'"
proof -
  from assms(2) have "proxy_inv st' \<and> history_inv st'"
    by (induction rule: rtranclp_induct) (use assms micro_inv [OF assms(1)] micro_history_inv in blast)+
  then show ?thesis ..
qed

lemma start_history_inv:
  assumes "su_disk s = Some healthy_disk" "main_start s = Inr (Inr st)"
  shows "history_inv st"
proof -
  note i = main_start_inv(1,2) [OF assms]
  then have "length (hybridbuf_pool (pworld st)) \<le> MAX_HYBRID_POOL" by (simp add: proxy_inv_def world_inv_def)
  with i(2) show ?thesis by (simp add: history_inv_def count_histories_def MAX_HYBRID_POOL_def MAX_CONNECTION_def)
qed

lemma reachable_history_inv:
  assumes "llhttp_ok ll" "reachable ll st"
  shows "history_inv st"
  using assms(2)
proof induction
  case (start s st)
  then show ?case by (rule start_history_inv)
next
  case (step st ev st')
  note inv = reachable_proxy_inv [OF assms(1) step.hyps(1)]
  from micros_history_inv [OF assms(1) dispatch_micro [OF inv step.hyps(2-4)] inv step.IH] show ?case .
qed

section \<open>The budgets\<close>

text \<open>
  The descriptors a connection holds: one socket per side, one file for the history, one for
  each of the request files, two for the response file.
\<close>

definition conn_descriptors :: "'p connection \<Rightarrow> nat" where
  "conn_descriptors c =
     1 + (if server c = None then 0 else 1) + holds_history (client c)
     + (if request_buf (client c) = None then 0 else 1) + (if request_tmp_buf (client c) = None then 0 else 1)
     + (if response_buf (client c) = None then 0 else 2)"

text \<open>The seven others: the standard streams, the listening socket, three of libevent.\<close>

definition descriptors_in_use :: "'p proxy \<Rightarrow> nat" where
  "descriptors_in_use st =
     7 + length (hybridbuf_pool (pworld st)) + sum_list (map (\<lambda>(i, c). conn_descriptors c) (pconns st))"

definition conn_memory :: "'p connection \<Rightarrow> nat" where
  "conn_memory c =
     (if c_queued_output (client c) = None then 0 else SOCK_IO_BUF_SIZE)
     + (case server c of None \<Rightarrow> 0 | Some sv \<Rightarrow> if s_queued_output sv = None then 0 else SOCK_IO_BUF_SIZE)
     + holds_history (client c) * HIST_CACHE_SIZE"

definition memory_in_use :: "'p proxy \<Rightarrow> nat" where
  "memory_in_use st =
     length (hybridbuf_pool (pworld st)) * HIST_CACHE_SIZE + sum_list (map (\<lambda>(i, c). conn_memory c) (pconns st))"

lemma conn_descriptors_sum:
  "sum_list (map (\<lambda>(i, c). conn_descriptors c) cs) \<le> 6 * length cs + count_histories cs"
  by (induction cs) (auto simp: conn_descriptors_def count_histories_def)

lemma conn_memory_sum:
  "sum_list (map (\<lambda>(i, c). conn_memory c) cs) \<le> length cs * (2 * SOCK_IO_BUF_SIZE) + count_histories cs * HIST_CACHE_SIZE"
proof (induction cs)
  case (Cons x cs)
  have "conn_memory (snd x) \<le> 2 * SOCK_IO_BUF_SIZE + holds_history (client (snd x)) * HIST_CACHE_SIZE"
    by (auto simp: conn_memory_def split: option.splits)
  with Cons show ?case by (simp add: count_histories_def case_prod_beta algebra_simps)
qed (simp add: count_histories_def)



end
