(* ===== verification/Events.thy ===== *)
theory Events
  imports Steps
begin

text \<open>
  The wrappers around libevent of \<open>src/ls_proxy.h\<close>, the timers with their \<open>timer_arg\<close>, and the
  events \<open>Client\<close> and \<open>Server\<close> own, on a heap of events.  libevent is a parameter: the functions
  the program calls, with \<open>ev_view\<close>, what an event in memory is, as an observer, and the documented
  behaviour as the hypothesis \<open>libevent_ok\<close>.
\<close>

section \<open>libevent\<close>

datatype ev_flag = EV_READ | EV_WRITE | EV_PERSIST

datatype callback = On_client_readable | On_client_writable | On_server_readable | On_server_writable
  | On_accept | On_monitor | On_close_timeout | On_slow_timer

text \<open>
  The argument of a callback: null, the \<open>Client\<close> of a connection, one of its \<open>Server\<close> objects, or a
  \<open>timer_arg\<close>.
\<close>

datatype cb_arg = NullArg | ClientPtr nat | ServerPtr nat nat | TimerPtr nat

record ev_desc =
  ev_fd :: int
  ev_flags :: "ev_flag set"
  ev_callback :: callback
  ev_arg :: cb_arg
  ev_pending :: bool
  ev_timeout :: "nat option"

record 'h libevent =
  event_new :: "'h \<Rightarrow> int \<Rightarrow> ev_flag set \<Rightarrow> callback \<Rightarrow> cb_arg \<Rightarrow> 'h \<times> nat"
  event_add :: "'h \<Rightarrow> nat \<Rightarrow> nat option \<Rightarrow> 'h \<times> int"
  event_del :: "'h \<Rightarrow> nat \<Rightarrow> 'h \<times> int"
  event_free :: "'h \<Rightarrow> nat \<Rightarrow> 'h"
  event_base_foreach_event :: "'h \<Rightarrow> nat list"
  ev_view :: "'h \<Rightarrow> nat \<Rightarrow> ev_desc option"

definition added :: "nat option \<Rightarrow> ev_desc \<Rightarrow> ev_desc" where
  "added t d = d\<lparr>ev_pending := True, ev_timeout := (case t of None \<Rightarrow> ev_timeout d | Some s \<Rightarrow> Some s)\<rparr>"

definition deleted :: "ev_desc \<Rightarrow> ev_desc" where
  "deleted d = d\<lparr>ev_pending := False, ev_timeout := None\<rparr>"

text \<open>
  \<open>event_new\<close> returns a new event that is not pending; \<open>event_add\<close> makes it pending, a timeout given
  replaces the one it has; \<open>event_del\<close> makes it not pending; a call that fails returns -1 and changes
  nothing; \<open>event_free\<close> deallocates; \<open>event_base_foreach_event\<close> visits each pending event once.
\<close>

definition libevent_ok :: "'h libevent \<Rightarrow> bool" where
  "libevent_ok L \<longleftrightarrow>
     (\<forall>h fd fl cb a. case event_new L h fd fl cb a of (h', e) \<Rightarrow> ev_view L h e = None
        \<and> ev_view L h' = (ev_view L h)(e \<mapsto>
            \<lparr>ev_fd = fd, ev_flags = fl, ev_callback = cb, ev_arg = a, ev_pending = False, ev_timeout = None\<rparr>))
     \<and> (\<forall>h e d t. ev_view L h e = Some d \<longrightarrow> (case event_add L h e t of (h', r) \<Rightarrow>
          r = 0 \<and> ev_view L h' = (ev_view L h)(e \<mapsto> added t d) \<or> r = -1 \<and> ev_view L h' = ev_view L h))
     \<and> (\<forall>h e d. ev_view L h e = Some d \<longrightarrow> (case event_del L h e of (h', r) \<Rightarrow>
          r = 0 \<and> ev_view L h' = (ev_view L h)(e \<mapsto> deleted d) \<or> r = -1 \<and> ev_view L h' = ev_view L h))
     \<and> (\<forall>h e. ev_view L h e \<noteq> None \<longrightarrow> ev_view L (event_free L h e) = (ev_view L h)(e := None))
     \<and> (\<forall>h. distinct (event_base_foreach_event L h) \<and> set (event_base_foreach_event L h)
          = {e. \<exists>d. ev_view L h e = Some d \<and> ev_pending d})"

text \<open>Whether adding and deleting succeed; when they do not the program prints a warning and goes on.\<close>

definition calls_succeed :: "'h libevent \<Rightarrow> bool" where
  "calls_succeed L \<longleftrightarrow>
     (\<forall>h e t. ev_view L h e \<noteq> None \<longrightarrow> snd (event_add L h e t) = 0 \<and> snd (event_del L h e) = 0)"

section \<open>The wrappers\<close>

text \<open>Every use of an event that was freed is a fault.\<close>

definition live_event :: "'h libevent \<Rightarrow> 'h \<Rightarrow> nat \<Rightarrow> ev_desc res" where
  "live_event L h e = (case ev_view L h e of None \<Rightarrow> Inl UseAfterFree | Some d \<Rightarrow> Inr d)"

definition new_read_event :: "'h libevent \<Rightarrow> 'h \<Rightarrow> int \<Rightarrow> callback \<Rightarrow> cb_arg \<Rightarrow> 'h \<times> nat" where
  "new_read_event L h fd cb a = event_new L h fd {EV_READ, EV_PERSIST} cb a"

definition new_write_event :: "'h libevent \<Rightarrow> 'h \<Rightarrow> int \<Rightarrow> callback \<Rightarrow> cb_arg \<Rightarrow> 'h \<times> nat" where
  "new_write_event L h fd cb a = event_new L h fd {EV_WRITE, EV_PERSIST} cb a"

definition new_persist_timer :: "'h libevent \<Rightarrow> 'h \<Rightarrow> callback \<Rightarrow> cb_arg \<Rightarrow> 'h \<times> nat" where
  "new_persist_timer L h cb a = event_new L h (-1) {EV_PERSIST} cb a"

definition add_event :: "'h libevent \<Rightarrow> nat \<Rightarrow> nat option \<Rightarrow> 'h \<Rightarrow> 'h res" where
  "add_event L e t h = bindE (live_event L h e) (\<lambda>_. Inr (fst (event_add L h e t)))"

definition add_event_with_timeout :: "'h libevent \<Rightarrow> nat \<Rightarrow> nat \<Rightarrow> 'h \<Rightarrow> 'h res" where
  "add_event_with_timeout L e seconds h = add_event L e (Some seconds) h"

definition del_event :: "'h libevent \<Rightarrow> nat \<Rightarrow> 'h \<Rightarrow> 'h res" where
  "del_event L e h = bindE (live_event L h e) (\<lambda>_. Inr (fst (event_del L h e)))"

definition free_event :: "'h libevent \<Rightarrow> nat \<Rightarrow> 'h \<Rightarrow> 'h res" where
  "free_event L e h = bindE (live_event L h e) (\<lambda>_. Inr (event_free L h e))"

definition get_fd :: "'h libevent \<Rightarrow> nat \<Rightarrow> 'h \<Rightarrow> int res" where
  "get_fd L e h = bindE (live_event L h e) (\<lambda>d. Inr (ev_fd d))"

section \<open>Timers\<close>

text \<open>\<open>struct timer_arg\<close>: the union holds a descriptor or a list of events; \<open>evt_self\<close> is set later.\<close>

datatype timer_data = Timer_fd int | Timer_list "nat list"

record timer_arg =
  evt_self :: "nat option"
  timer_payload :: timer_data

text \<open>The events and the \<open>timer_arg\<close> objects in memory; \<open>new\<close> takes the next address.\<close>

record 'h evt_base =
  events :: 'h
  timer_args :: "nat \<Rightarrow> timer_arg option"
  next_arg :: nat

definition timer_arg_new :: "timer_data \<Rightarrow> 'h evt_base \<Rightarrow> 'h evt_base \<times> nat" where
  "timer_arg_new x b =
     (b\<lparr>timer_args := (timer_args b)(next_arg b \<mapsto> \<lparr>evt_self = None, timer_payload = x\<rparr>), next_arg := next_arg b + 1\<rparr>,
      next_arg b)"

text \<open>\<open>__new_timer\<close>; \<open>evtimer_new\<close> is \<open>event_new\<close> without descriptor and flags.\<close>

definition new_timer_of :: "'h libevent \<Rightarrow> callback \<Rightarrow> nat \<Rightarrow> 'h evt_base \<Rightarrow> ('h evt_base \<times> nat) res" where
  "new_timer_of L cb a b =
     (case timer_args b a of
        None \<Rightarrow> Inl UseAfterFree
      | Some ta \<Rightarrow>
          (case event_new L (events b) (-1) {} cb (TimerPtr a) of (h, e) \<Rightarrow>
             Inr (b\<lparr>events := h, timer_args := (timer_args b)(a \<mapsto> ta\<lparr>evt_self := Some e\<rparr>)\<rparr>, e)))"

definition new_timer :: "'h libevent \<Rightarrow> callback \<Rightarrow> timer_data \<Rightarrow> 'h evt_base \<Rightarrow> ('h evt_base \<times> nat) res" where
  "new_timer L cb x b = (case timer_arg_new x b of (b1, a) \<Rightarrow> new_timer_of L cb a b1)"

text \<open>\<open>delete\<close> of a \<open>timer_arg\<close>: its destructor deletes and frees the event.\<close>

definition timer_arg_delete :: "'h libevent \<Rightarrow> nat \<Rightarrow> 'h evt_base \<Rightarrow> 'h evt_base res" where
  "timer_arg_delete L a b =
     (case timer_args b a of
        None \<Rightarrow> Inl UseAfterFree
      | Some ta \<Rightarrow>
          bindE (derefE (evt_self ta)) (\<lambda>e.
          bindE (del_event L e (events b)) (\<lambda>h1.
          bindE (free_event L e h1) (\<lambda>h2.
            Inr (b\<lparr>events := h2, timer_args := (timer_args b)(a := None)\<rparr>)))))"

text \<open>The end of a socket: \<open>close_socket_gracefully\<close> with its timer, and the timer's callback.\<close>

definition close_gracefully_evt :: "'h libevent \<Rightarrow> int \<Rightarrow> 'h evt_base \<Rightarrow> sock \<Rightarrow> ('h evt_base \<times> sock) res" where
  "close_gracefully_evt L fd b s =
     (let s1 = consume (s\<lparr>shut_wr := True\<rparr>) in
      case sys_read s1 1 of (count, d, s2) \<Rightarrow>
        if count = 0 then Inr (b, s2\<lparr>closed := True\<rparr>)
        else
          bindE (new_timer L On_close_timeout (Timer_fd fd) b) (\<lambda>(b1, e).
          bindE (add_event_with_timeout L e SOCK_CLOSE_WAITTIME (events b1)) (\<lambda>h.
            Inr (b1\<lparr>events := h\<rparr>, s2\<lparr>lingering := True\<rparr>))))"

definition close_timeout_evt ::
    "'h libevent \<Rightarrow> nat \<Rightarrow> 'h evt_base \<Rightarrow> (int \<Rightarrow> sock) \<Rightarrow> ('h evt_base \<times> (int \<Rightarrow> sock)) res" where
  "close_timeout_evt L a b socks =
     (case timer_args b a of
        None \<Rightarrow> Inl UseAfterFree
      | Some ta \<Rightarrow>
          (case timer_payload ta of
             Timer_fd fd \<Rightarrow>
               bindE (timer_arg_delete L a b) (\<lambda>b'. Inr (b', socks(fd := close_after_timeout (socks fd))))
           | Timer_list es \<Rightarrow> Inl UseAfterFree))"

section \<open>The events of clients and servers\<close>

record evt_pair =
  read_evt :: nat
  write_evt :: nat

text \<open>What the constructors of \<open>Client\<close> and \<open>Server\<close> do with events.\<close>

definition Client_events_new :: "'h libevent \<Rightarrow> int \<Rightarrow> nat \<Rightarrow> 'h \<Rightarrow> 'h \<times> evt_pair" where
  "Client_events_new L fd i h =
     (case new_read_event L h fd On_client_readable (ClientPtr i) of (h1, r) \<Rightarrow>
      case new_write_event L h1 fd On_client_writable (ClientPtr i) of (h2, w) \<Rightarrow>
        (h2, \<lparr>read_evt = r, write_evt = w\<rparr>))"

definition Server_events_new :: "'h libevent \<Rightarrow> int \<Rightarrow> nat \<Rightarrow> nat \<Rightarrow> 'h \<Rightarrow> 'h \<times> evt_pair" where
  "Server_events_new L fd i g h =
     (case new_read_event L h fd On_server_readable (ServerPtr i g) of (h1, r) \<Rightarrow>
      case new_write_event L h1 fd On_server_writable (ServerPtr i g) of (h2, w) \<Rightarrow>
        (h2, \<lparr>read_evt = r, write_evt = w\<rparr>))"

text \<open>The four calls with which both destructors release the events, and what follows them.\<close>

definition release_events :: "'h libevent \<Rightarrow> evt_pair \<Rightarrow> 'h \<Rightarrow> 'h res" where
  "release_events L p h =
     bindE (del_event L (read_evt p) h) (\<lambda>h1.
     bindE (del_event L (write_evt p) h1) (\<lambda>h2.
     bindE (free_event L (read_evt p) h2) (\<lambda>h3. free_event L (write_evt p) h3)))"

definition Client_destroy :: "'h libevent \<Rightarrow> evt_pair \<Rightarrow> 'h evt_base \<Rightarrow> sock \<Rightarrow> ('h evt_base \<times> sock) res" where
  "Client_destroy L p b s =
     bindE (release_events L p (events b)) (\<lambda>h.
     bindE (get_fd L (read_evt p) h) (\<lambda>fd. close_gracefully_evt L fd (b\<lparr>events := h\<rparr>) s))"

definition Server_destroy :: "'h libevent \<Rightarrow> evt_pair \<Rightarrow> 'h evt_base \<Rightarrow> sock \<Rightarrow> ('h evt_base \<times> sock) res" where
  "Server_destroy L p b s =
     bindE (get_fd L (read_evt p) (events b)) (\<lambda>_.
     bindE (release_events L p (events b)) (\<lambda>h.
     bindE (get_fd L (read_evt p) h) (\<lambda>fd. close_gracefully_evt L fd (b\<lparr>events := h\<rparr>) s)))"

text \<open>
  \<open>get_associated_conn\<close> on an event in memory.  A callback of a client whose argument were not a
  \<open>Client\<close> would be read through the wrong type; that is a fault as well.
\<close>

definition associated_conn :: "'h libevent \<Rightarrow> 'h \<Rightarrow> nat \<Rightarrow> nat option res" where
  "associated_conn L h e =
     bindE (live_event L h e) (\<lambda>d.
       if ev_callback d = On_client_readable \<or> ev_callback d = On_client_writable then
         (case ev_arg d of ClientPtr i \<Rightarrow> Inr (Some i) | _ \<Rightarrow> Inl UseAfterFree)
       else if ev_callback d = On_server_readable \<or> ev_callback d = On_server_writable then
         (case ev_arg d of ServerPtr i g \<Rightarrow> Inr (Some i) | _ \<Rightarrow> Inl UseAfterFree)
       else Inr None)"

text \<open>\<open>get_all_connections\<close>: \<open>add_to_list\<close> collects the pending events, the loop inserts their connections.\<close>

fun insert_conns :: "'h libevent \<Rightarrow> 'h \<Rightarrow> nat list \<Rightarrow> nat list \<Rightarrow> nat list res" where
  "insert_conns L h [] acc = Inr acc"
| "insert_conns L h (e # es) acc =
     bindE (associated_conn L h e) (\<lambda>r.
       insert_conns L h es (case r of None \<Rightarrow> acc | Some i \<Rightarrow> List.insert i acc))"

definition all_connections_evt :: "'h libevent \<Rightarrow> 'h \<Rightarrow> nat list res" where
  "all_connections_evt L h = insert_conns L h (event_base_foreach_event L h) []"

section \<open>The wrappers meet their specification\<close>

lemma event_newD:
  assumes "libevent_ok L" "event_new L h fd fl cb a = (h', e)"
  shows "ev_view L h e = None" "ev_view L h' = (ev_view L h)(e \<mapsto>
    \<lparr>ev_fd = fd, ev_flags = fl, ev_callback = cb, ev_arg = a, ev_pending = False, ev_timeout = None\<rparr>)"
  using assms(1) [unfolded libevent_ok_def, THEN conjunct1, rule_format, of h fd fl cb a] assms(2) by simp_all

lemma live_event_simps [simp]:
  "ev_view L h e = Some d \<Longrightarrow> live_event L h e = Inr d" "ev_view L h e = None \<Longrightarrow> live_event L h e = Inl UseAfterFree"
  by (simp_all add: live_event_def)

lemma add_event_ok:
  assumes "libevent_ok L" "calls_succeed L" "ev_view L h e = Some d"
  obtains h' where "add_event L e t h = Inr h'" "ev_view L h' = (ev_view L h)(e \<mapsto> added t d)"
proof -
  note assms(1) [unfolded libevent_ok_def, THEN conjunct2, THEN conjunct1, rule_format, OF assms(3), of t]
  moreover from assms(2,3) have "snd (event_add L h e t) = 0" unfolding calls_succeed_def by blast
  ultimately show thesis using that assms(3) by (auto simp: add_event_def case_prod_beta)
qed

lemma del_event_cases:
  assumes "libevent_ok L" "ev_view L h e = Some d"
  obtains h' where "del_event L e h = Inr h'"
    "ev_view L h' = (ev_view L h)(e \<mapsto> deleted d) \<or> ev_view L h' = ev_view L h \<and> \<not> calls_succeed L"
proof -
  note assms(1) [unfolded libevent_ok_def, THEN conjunct2, THEN conjunct2, THEN conjunct1, rule_format, OF assms(2)]
  moreover from assms(2) have "calls_succeed L \<Longrightarrow> snd (event_del L h e) = 0" unfolding calls_succeed_def by blast
  ultimately show thesis using that assms(2) by (cases "calls_succeed L") (auto simp: del_event_def case_prod_beta)
qed

lemma del_event_view:
  assumes "libevent_ok L" "ev_view L h e = Some d"
  obtains h' d' where "del_event L e h = Inr h'" "ev_view L h' = (ev_view L h)(e \<mapsto> d')"
proof (rule del_event_cases [OF assms], goal_cases)
  case (1 h')
  with assms(2) have "ev_view L h' = (ev_view L h)(e \<mapsto> deleted d) \<or> ev_view L h' = (ev_view L h)(e \<mapsto> d)"
    by (metis fun_upd_triv)
  with 1 show ?case by blast
qed

lemma free_event_ok:
  assumes "libevent_ok L" "ev_view L h e = Some d"
  obtains h' where "free_event L e h = Inr h'" "ev_view L h' = (ev_view L h)(e := None)"
  using assms that unfolding libevent_ok_def by (auto simp: free_event_def)

lemma foreach_event:
  assumes "libevent_ok L"
  shows "set (event_base_foreach_event L h) = {e. \<exists>d. ev_view L h e = Some d \<and> ev_pending d}"
  using assms by (simp add: libevent_ok_def)

text \<open>The destructors release exactly the two events of their object.\<close>

lemma release_events_ok:
  assumes "libevent_ok L" "ev_view L h (read_evt p) \<noteq> None" "ev_view L h (write_evt p) \<noteq> None" "read_evt p \<noteq> write_evt p"
  obtains h' where "release_events L p h = Inr h'" "ev_view L h' = (ev_view L h)(read_evt p := None, write_evt p := None)"
proof -
  from assms obtain dr dw where d: "ev_view L h (read_evt p) = Some dr" "ev_view L h (write_evt p) = Some dw" by blast
  obtain h1 d1 where 1: "del_event L (read_evt p) h = Inr h1" "ev_view L h1 = (ev_view L h)(read_evt p \<mapsto> d1)"
    using del_event_view [OF assms(1) d(1)] .
  then have "ev_view L h1 (write_evt p) = Some dw" using d(2) assms(4) by simp
  then obtain h2 d2 where 2: "del_event L (write_evt p) h1 = Inr h2" "ev_view L h2 = (ev_view L h1)(write_evt p \<mapsto> d2)"
    using del_event_view [OF assms(1)] by blast
  then have "ev_view L h2 (read_evt p) = Some d1" using 1 assms(4) by simp
  then obtain h3 where 3: "free_event L (read_evt p) h2 = Inr h3" "ev_view L h3 = (ev_view L h2)(read_evt p := None)"
    using free_event_ok [OF assms(1)] by blast
  then have "ev_view L h3 (write_evt p) = Some d2" using 2 assms(4) by simp
  then obtain h4 where 4: "free_event L (write_evt p) h3 = Inr h4" "ev_view L h4 = (ev_view L h3)(write_evt p := None)"
    using free_event_ok [OF assms(1)] by blast
  from 1 2 3 4 that [of h4] show thesis by (simp add: release_events_def fun_upd_twist [OF assms(4)])
qed

section \<open>A life of a timer\<close>

lemma consume_flags: "lingering (consume s) = lingering s"
proof (induction s rule: consume.induct)
  case (1 s)
  obtain count d s' where r: "sys_read s SOCK_IO_BUF_SIZE = (count, d, s')" by (cases "sys_read s SOCK_IO_BUF_SIZE")
  then have "lingering s' = lingering s" by (auto simp: sys_read_def Let_def split: list.splits rres.splits)
  with 1 [OF r [symmetric] refl] r show ?case by (simp add: consume.simps [of s])
qed

lemma new_timer_ok:
  assumes "libevent_ok L"
  obtains h e where "new_timer L cb x b = Inr (b\<lparr>events := h,
      timer_args := (timer_args b)(next_arg b \<mapsto> \<lparr>evt_self = Some e, timer_payload = x\<rparr>), next_arg := next_arg b + 1\<rparr>, e)"
    "ev_view L (events b) e = None" "ev_view L h = (ev_view L (events b))(e \<mapsto> \<lparr>ev_fd = -1, ev_flags = {},
      ev_callback = cb, ev_arg = TimerPtr (next_arg b), ev_pending = False, ev_timeout = None\<rparr>)"
proof -
  obtain h e where n: "event_new L (events b) (-1) {} cb (TimerPtr (next_arg b)) = (h, e)" by (meson surj_pair)
  from that [of e h] event_newD [OF assms n] n show thesis
    by (simp add: new_timer_def timer_arg_new_def new_timer_of_def)
qed

lemma timer_arg_delete_ok:
  assumes "libevent_ok L" "timer_args b a = Some ta" "evt_self ta = Some e" "ev_view L (events b) e = Some d"
  obtains h where "timer_arg_delete L a b = Inr (b\<lparr>events := h, timer_args := (timer_args b)(a := None)\<rparr>)"
    "ev_view L h = (ev_view L (events b))(e := None)"
proof -
  obtain h1 d1 where 1: "del_event L e (events b) = Inr h1" "ev_view L h1 = (ev_view L (events b))(e \<mapsto> d1)"
    using del_event_view [OF assms(1,4)] .
  then have "ev_view L h1 e = Some d1" by simp
  then obtain h2 where 2: "free_event L e h1 = Inr h2" "ev_view L h2 = (ev_view L h1)(e := None)"
    using free_event_ok [OF assms(1)] by blast
  from 1 2 assms that [of h2] show thesis by (simp add: timer_arg_delete_def derefE_def)
qed

text \<open>
  A socket whose peer has closed is closed at once.  Otherwise it lingers under exactly one new
  pending timer of \<open>SOCK_CLOSE_WAITTIME\<close> seconds, and when that fires its callback closes the
  descriptor it was made for and frees the timer and its argument, so that no event and no
  \<open>timer_arg\<close> is left that was not there before.
\<close>

theorem graceful_close_timer:
  assumes "libevent_ok L" "calls_succeed L" "timer_args b (next_arg b) = None" "\<not> lingering s"
  shows "\<exists>b' s'. close_gracefully_evt L fd b s = Inr (b', s') \<and> s' = close_socket_gracefully s
    \<and> (if \<not> lingering s' then b' = b \<and> closed s'
       else \<exists>e d b''. ev_view L (events b) e = None \<and> ev_view L (events b') = (ev_view L (events b))(e \<mapsto> d)
         \<and> ev_pending d \<and> ev_timeout d = Some SOCK_CLOSE_WAITTIME \<and> ev_callback d = On_close_timeout
         \<and> ev_arg d = TimerPtr (next_arg b)
         \<and> close_timeout_evt L (next_arg b) b' socks = Inr (b'', socks(fd := close_after_timeout (socks fd)))
         \<and> ev_view L (events b'') = ev_view L (events b) \<and> timer_args b'' = timer_args b)"
proof -
  let ?s = "consume (s\<lparr>shut_wr := True\<rparr>)"
  obtain count d s2 where r: "sys_read ?s 1 = (count, d, s2)" by (cases "sys_read ?s 1")
  show ?thesis
  proof (cases "count = 0")
    case True
    have "lingering s2 = lingering ?s" using r by (auto simp: sys_read_def Let_def split: list.splits rres.splits)
    with True r assms(4) show ?thesis
      by (simp add: close_gracefully_evt_def close_socket_gracefully_def consume_flags)
  next
    case False
    let ?x = "Timer_fd fd"
    obtain h e where n: "new_timer L On_close_timeout ?x b = Inr (b\<lparr>events := h,
        timer_args := (timer_args b)(next_arg b \<mapsto> \<lparr>evt_self = Some e, timer_payload = ?x\<rparr>), next_arg := next_arg b + 1\<rparr>, e)"
      "ev_view L (events b) e = None" "ev_view L h = (ev_view L (events b))(e \<mapsto> \<lparr>ev_fd = -1, ev_flags = {},
        ev_callback = On_close_timeout, ev_arg = TimerPtr (next_arg b), ev_pending = False, ev_timeout = None\<rparr>)"
      by (rule new_timer_ok [OF assms(1)])
    let ?d = "\<lparr>ev_fd = -1, ev_flags = {}, ev_callback = On_close_timeout, ev_arg = TimerPtr (next_arg b),
      ev_pending = False, ev_timeout = None\<rparr>"
    have "ev_view L h e = Some ?d" using n(3) by simp
    then obtain h2 where a: "add_event L e (Some SOCK_CLOSE_WAITTIME) h = Inr h2"
      "ev_view L h2 = (ev_view L h)(e \<mapsto> added (Some SOCK_CLOSE_WAITTIME) ?d)"
      by (rule add_event_ok [OF assms(1,2)])
    then have v: "ev_view L h2 = (ev_view L (events b))(e \<mapsto> added (Some SOCK_CLOSE_WAITTIME) ?d)" using n(3) by simp
    let ?b = "b\<lparr>events := h2, timer_args := (timer_args b)(next_arg b \<mapsto> \<lparr>evt_self = Some e, timer_payload = ?x\<rparr>),
      next_arg := next_arg b + 1\<rparr>"
    obtain h3 where f: "timer_arg_delete L (next_arg b) ?b =
        Inr (?b\<lparr>events := h3, timer_args := (timer_args ?b)(next_arg b := None)\<rparr>)"
      "ev_view L h3 = (ev_view L h2)(e := None)"
      using timer_arg_delete_ok [OF assms(1), of ?b "next_arg b" "\<lparr>evt_self = Some e, timer_payload = ?x\<rparr>" e] v by auto
    have "close_gracefully_evt L fd b s = Inr (?b, close_socket_gracefully s)" "lingering (close_socket_gracefully s)"
      using False r n(1) a(1) by (simp_all add: close_gracefully_evt_def close_socket_gracefully_def add_event_with_timeout_def)
    moreover have "close_timeout_evt L (next_arg b) ?b socks =
        Inr (?b\<lparr>events := h3, timer_args := (timer_args ?b)(next_arg b := None)\<rparr>, socks(fd := close_after_timeout (socks fd)))"
      using f(1) by (simp add: close_timeout_evt_def)
    moreover have "ev_view L h3 = ev_view L (events b)" using f(2) v n(2) by (simp add: fun_upd_idem)
    moreover have "(timer_args ?b)(next_arg b := None) = timer_args b" using assms(3) by (simp add: fun_upd_idem)
    ultimately show ?thesis
      by (intro exI [of _ ?b] exI [of _ "close_socket_gracefully s"])
        (simp, intro exI [of _ e], simp add: n(2) v, intro exI [of _ "added (Some SOCK_CLOSE_WAITTIME) ?d"], simp add: added_def)
  qed
qed

text \<open>An event heap that behaves as documented, for the examples.\<close>

definition heap_view :: "nat \<times> (nat \<Rightarrow> ev_desc option) \<Rightarrow> nat \<Rightarrow> ev_desc option" where
  "heap_view h e = (if e < fst h then snd h e else None)"

definition heap_libevent :: "(nat \<times> (nat \<Rightarrow> ev_desc option)) libevent" where
  "heap_libevent =
     \<lparr>event_new = (\<lambda>(n, f) fd fl cb a. ((Suc n, f(n \<mapsto> \<lparr>ev_fd = fd, ev_flags = fl, ev_callback = cb, ev_arg = a,
        ev_pending = False, ev_timeout = None\<rparr>)), n)),
      event_add = (\<lambda>(n, f) e t. ((n, f(e := map_option (added t) (f e))), 0)),
      event_del = (\<lambda>(n, f) e. ((n, f(e := map_option deleted (f e))), 0)),
      event_free = (\<lambda>(n, f) e. (n, f(e := None))),
      event_base_foreach_event = (\<lambda>h. filter (\<lambda>e. \<exists>d. heap_view h e = Some d \<and> ev_pending d) [0..<fst h]),
      ev_view = heap_view\<rparr>"

lemma heap_libevent_ok: "libevent_ok heap_libevent" "calls_succeed heap_libevent"
  unfolding libevent_ok_def calls_succeed_def
  by (auto simp: heap_libevent_def heap_view_def fun_eq_iff less_Suc_eq split: if_splits)

definition empty_base :: "(nat \<times> (nat \<Rightarrow> ev_desc option)) evt_base" where
  "empty_base = \<lparr>events = (0, \<lambda>_. None), timer_args = (\<lambda>_. None), next_arg = 0\<rparr>"

theorem graceful_close_timer_witness:
  "\<exists>b'. close_gracefully_evt heap_libevent 7 empty_base (idle_sock\<lparr>rx := [RData ''late'']\<rparr>) =
      Inr (b', close_socket_gracefully (idle_sock\<lparr>rx := [RData ''late'']\<rparr>))
    \<and> (\<exists>e d. ev_view heap_libevent (events b') e = Some d \<and> ev_pending d \<and> ev_timeout d = Some 10)"
proof -
  let ?s = "idle_sock\<lparr>rx := [RData ''late'']\<rparr>"
  have "lingering (close_socket_gracefully ?s)"
    by (simp add: close_socket_gracefully_def consume.simps sys_read_def idle_sock_def SOCK_IO_BUF_SIZE_def Let_def)
  with graceful_close_timer [OF heap_libevent_ok, of empty_base ?s 7 "\<lambda>_. ?s"] show ?thesis
    by (auto simp: empty_base_def idle_sock_def SOCK_CLOSE_WAITTIME_def)
qed

section \<open>The destructors\<close>

text \<open>
  C26: the destructors of \<open>Client\<close> and \<open>Server\<close> release exactly the two events of their object, but
  then ask the read event they have just freed for its descriptor: with live events every
  destruction uses memory after it was freed, before the socket is closed.
\<close>

theorem destructors_use_freed_event:
  assumes "libevent_ok L" "ev_view L (events b) (read_evt p) \<noteq> None" "ev_view L (events b) (write_evt p) \<noteq> None"
    "read_evt p \<noteq> write_evt p"
  shows "(\<exists>h. release_events L p (events b) = Inr h
      \<and> ev_view L h = (ev_view L (events b))(read_evt p := None, write_evt p := None))
    \<and> Client_destroy L p b s = Inl UseAfterFree \<and> Server_destroy L p b s = Inl UseAfterFree"
proof -
  obtain h where "release_events L p (events b) = Inr h"
    "ev_view L h = (ev_view L (events b))(read_evt p := None, write_evt p := None)"
    using release_events_ok [OF assms] .
  with assms(2,4) show ?thesis by (auto simp: Client_destroy_def Server_destroy_def get_fd_def)
qed

theorem destructors_use_freed_event_witness:
  "Client_destroy heap_libevent (snd (Client_events_new heap_libevent 4 0 (0, \<lambda>_. None)))
     (empty_base\<lparr>events := fst (Client_events_new heap_libevent 4 0 (0, \<lambda>_. None))\<rparr>) idle_sock = Inl UseAfterFree"
  using destructors_use_freed_event [OF heap_libevent_ok(1),
      of "empty_base\<lparr>events := fst (Client_events_new heap_libevent 4 0 (0, \<lambda>_. None))\<rparr>"
        "snd (Client_events_new heap_libevent 4 0 (0, \<lambda>_. None))" idle_sock]
  by (simp add: Client_events_new_def new_read_event_def new_write_event_def heap_libevent_def heap_view_def)

end
