(* ===== verification/EventRep.thy ===== *)
theory EventRep
  imports Events
begin

text \<open>
  The events in memory and the model of connections.  The other theories know an event only as the
  boolean whether it is pending; here a heap of events represents the table of connections
  (\<open>events_rep\<close>), every step of the program on events keeps the representation (\<open>evt_step\<close>), and the
  scan of libevent's events finds what the model's scan finds.
\<close>

section \<open>Events in memory and the booleans of the model\<close>

text \<open>
  \<open>heap_rep\<close>: \<open>ptr\<close> gives the address of every event of the set \<open>S\<close>; the events at these addresses
  have the callback and argument of their name and those of \<open>P\<close> are pending; no other event in
  memory has a callback of a client or a server.
\<close>

definition callback_of :: "evt \<Rightarrow> callback" where
  "callback_of e = (case e of ClientRead i \<Rightarrow> On_client_readable | ClientWrite i \<Rightarrow> On_client_writable
     | ServerRead i g \<Rightarrow> On_server_readable | ServerWrite i g \<Rightarrow> On_server_writable)"

definition arg_of :: "evt \<Rightarrow> cb_arg" where
  "arg_of e = (case e of ClientRead i \<Rightarrow> ClientPtr i | ClientWrite i \<Rightarrow> ClientPtr i
     | ServerRead i g \<Rightarrow> ServerPtr i g | ServerWrite i g \<Rightarrow> ServerPtr i g)"

definition of_conn :: "ev_desc \<Rightarrow> bool" where
  "of_conn d \<longleftrightarrow> ev_callback d \<in> {On_client_readable, On_client_writable, On_server_readable, On_server_writable}"

definition named :: "evt \<Rightarrow> ev_desc \<Rightarrow> bool" where
  "named e d \<longleftrightarrow> ev_callback d = callback_of e \<and> ev_arg d = arg_of e"

definition heap_rep :: "'h libevent \<Rightarrow> 'h \<Rightarrow> (evt \<Rightarrow> nat) \<Rightarrow> evt set \<Rightarrow> evt set \<Rightarrow> bool" where
  "heap_rep L h ptr S P \<longleftrightarrow> inj_on ptr S
     \<and> (\<forall>e \<in> S. \<exists>d. ev_view L h (ptr e) = Some d \<and> named e d \<and> (ev_pending d \<longleftrightarrow> e \<in> P))
     \<and> (\<forall>p d. ev_view L h p = Some d \<and> of_conn d \<longrightarrow> p \<in> ptr ` S)"

lemma named_simps [simp]:
  "named e (added t d) = named e d" "named e (deleted d) = named e d" "of_conn (added t d) = of_conn d"
  "of_conn (deleted d) = of_conn d" "ev_pending (added t d)" "\<not> ev_pending (deleted d)"
  by (simp_all add: named_def of_conn_def added_def deleted_def)

lemma named_of_conn: "named e d \<Longrightarrow> of_conn d"
  by (cases e) (simp_all add: named_def of_conn_def callback_of_def)

lemma heap_repD:
  assumes "heap_rep L h ptr S P" "e \<in> S"
  obtains d where "ev_view L h (ptr e) = Some d" "named e d" "ev_pending d \<longleftrightarrow> e \<in> P"
  using assms unfolding heap_rep_def by blast

text \<open>Adding, deleting, creating and releasing events changes the sets accordingly.\<close>

lemma heap_rep_update:
  assumes "heap_rep L h ptr S P" "e \<in> S" "named e d" "ev_view L h' = (ev_view L h)(ptr e \<mapsto> d)"
  shows "heap_rep L h' ptr S (if ev_pending d then insert e P else P - {e})"
proof -
  have inj: "inj_on ptr S" using assms(1) by (simp add: heap_rep_def)
  have "\<exists>d'. ev_view L h' (ptr x) = Some d' \<and> named x d' \<and> (ev_pending d' \<longleftrightarrow> x \<in> (if ev_pending d then insert e P else P - {e}))"
    if x: "x \<in> S" for x
  proof (cases "x = e")
    case False
    with inj assms(2) x have "ptr x \<noteq> ptr e" by (simp add: inj_on_eq_iff)
    with heap_repD [OF assms(1) x] False assms(4) show ?thesis by auto
  qed (use assms(3,4) in simp)
  moreover have "p \<in> ptr ` S" if "ev_view L h' p = Some d'" "of_conn d'" for p d'
    using that assms(1,2,4) unfolding heap_rep_def by (cases "p = ptr e") auto
  ultimately show ?thesis using inj unfolding heap_rep_def by blast
qed

lemma heap_rep_add:
  assumes "libevent_ok L" "calls_succeed L" "heap_rep L h ptr S P" "e \<in> S"
  obtains h' where "add_event L (ptr e) t h = Inr h'" "heap_rep L h' ptr S (insert e P)"
proof -
  from heap_repD [OF assms(3,4)] obtain d where d: "ev_view L h (ptr e) = Some d" "named e d" .
  from add_event_ok [OF assms(1,2) d(1)] obtain h' where
    "add_event L (ptr e) t h = Inr h'" "ev_view L h' = (ev_view L h)(ptr e \<mapsto> added t d)" .
  with heap_rep_update [OF assms(3,4) _ this(2)] d(2) that show thesis by simp
qed

lemma heap_rep_del:
  assumes "libevent_ok L" "calls_succeed L" "heap_rep L h ptr S P" "e \<in> S"
  obtains h' where "del_event L (ptr e) h = Inr h'" "heap_rep L h' ptr S (P - {e})"
proof -
  from heap_repD [OF assms(3,4)] obtain d where d: "ev_view L h (ptr e) = Some d" "named e d" .
  from del_event_cases [OF assms(1) d(1)] assms(2) obtain h' where
    "del_event L (ptr e) h = Inr h'" "ev_view L h' = (ev_view L h)(ptr e \<mapsto> deleted d)" by blast
  with heap_rep_update [OF assms(3,4) _ this(2)] d(2) that show thesis by simp
qed

lemma heap_rep_new:
  assumes "libevent_ok L" "heap_rep L h ptr S P" "e \<notin> S" "event_new L h fd fl (callback_of e) (arg_of e) = (h', p)"
  shows "heap_rep L h' (ptr(e := p)) (insert e S) (P - {e})"
proof -
  note n = event_newD [OF assms(1,4)]
  have fresh: "ptr x \<noteq> p" if "x \<in> S" for x using heap_repD [OF assms(2) that] n(1) by force
  then have "inj_on (ptr(e := p)) (insert e S)" using assms(2,3) by (auto simp: heap_rep_def inj_on_def)
  moreover have "\<exists>d. ev_view L h' ((ptr(e := p)) x) = Some d \<and> named x d \<and> (ev_pending d \<longleftrightarrow> x \<in> P - {e})"
    if "x \<in> insert e S" for x
    using that n(2) fresh heap_repD [OF assms(2), of x] assms(3) by (cases "x = e") (auto simp: named_def)
  moreover have "q \<in> ptr(e := p) ` insert e S" if q: "ev_view L h' q = Some d" "of_conn d" for q d
  proof (cases "q = p")
    case False
    with q n(2) assms(2) have "q \<in> ptr ` S" unfolding heap_rep_def by auto
    with assms(3) show ?thesis by (auto simp: image_iff)
  qed simp
  ultimately show ?thesis unfolding heap_rep_def by blast
qed

lemma heap_rep_release:
  assumes "libevent_ok L" "heap_rep L h ptr S P" "e1 \<in> S" "e2 \<in> S" "e1 \<noteq> e2"
  obtains h' where "release_events L \<lparr>read_evt = ptr e1, write_evt = ptr e2\<rparr> h = Inr h'"
    "heap_rep L h' ptr (S - {e1, e2}) (P - {e1, e2})"
proof -
  have inj: "inj_on ptr S" using assms(2) by (simp add: heap_rep_def)
  with assms have "ptr e1 \<noteq> ptr e2" by (simp add: inj_on_eq_iff)
  with release_events_ok [OF assms(1), of h "\<lparr>read_evt = ptr e1, write_evt = ptr e2\<rparr>"]
    heap_repD [OF assms(2,3)] heap_repD [OF assms(2,4)]
  obtain h' where h: "release_events L \<lparr>read_evt = ptr e1, write_evt = ptr e2\<rparr> h = Inr h'"
    "ev_view L h' = (ev_view L h)(ptr e1 := None, ptr e2 := None)" by (metis evt_pair.select_convs option.discI)
  have "\<exists>d. ev_view L h' (ptr x) = Some d \<and> named x d \<and> (ev_pending d \<longleftrightarrow> x \<in> P - {e1, e2})"
    if "x \<in> S - {e1, e2}" for x
  proof -
    from that inj assms(3,4) have "ptr x \<noteq> ptr e1" "ptr x \<noteq> ptr e2" by (auto simp: inj_on_eq_iff)
    with heap_repD [OF assms(2), of x] h(2) that show ?thesis by (metis Diff_iff fun_upd_other)
  qed
  moreover have "p \<in> ptr ` (S - {e1, e2})" if "ev_view L h' p = Some d" "of_conn d" for p d
  proof -
    from that h(2) have "ev_view L h p = Some d" "p \<noteq> ptr e1" "p \<noteq> ptr e2" by (auto split: if_splits)
    with that(2) assms(2) show ?thesis unfolding heap_rep_def by blast
  qed
  ultimately have "heap_rep L h' ptr (S - {e1, e2}) (P - {e1, e2})"
    using inj unfolding heap_rep_def by (blast intro: inj_on_diff)
  with h(1) that show thesis by blast
qed

text \<open>The events of the objects of all connections, pending or not.\<close>

definition conn_events :: "nat \<Rightarrow> 'p connection \<Rightarrow> evt list" where
  "conn_events i c = [ClientRead i, ClientWrite i]
     @ (case server c of None \<Rightarrow> []
        | Some sv \<Rightarrow> [ServerRead i (length (past_servers c)), ServerWrite i (length (past_servers c))])"

definition events_of :: "'p conns \<Rightarrow> evt set" where
  "events_of cs = set (concat (map (\<lambda>(i, c). conn_events i c) cs))"

definition events_rep :: "'h libevent \<Rightarrow> 'h \<Rightarrow> (evt \<Rightarrow> nat) \<Rightarrow> 'p conns \<Rightarrow> bool" where
  "events_rep L h ptr cs \<longleftrightarrow> distinct (map fst cs) \<and> heap_rep L h ptr (events_of cs) (set (pending_events cs))"

lemma conn_events_conn: "e \<in> set (conn_events i c) \<Longrightarrow> get_associated_conn e = i"
  by (auto simp: conn_events_def get_associated_conn_def split: option.splits)

lemma pending_conn_events: "set (pending_events_of i c) \<subseteq> set (conn_events i c)"
  by (auto simp: conn_events_def pending_events_of_def split: option.splits)

lemma events_of_iff:
  assumes "distinct (map fst cs)"
  shows "e \<in> events_of cs \<longleftrightarrow>
    (\<exists>c. map_of cs (get_associated_conn e) = Some c \<and> e \<in> set (conn_events (get_associated_conn e) c))"
proof -
  have "e \<in> events_of cs \<longleftrightarrow> (\<exists>i c. (i, c) \<in> set cs \<and> e \<in> set (conn_events i c))" by (auto simp: events_of_def)
  also have "\<dots> \<longleftrightarrow> (\<exists>i c. map_of cs i = Some c \<and> e \<in> set (conn_events i c))"
    using assms by (auto dest: map_of_SomeD intro: map_of_is_SomeI)
  finally show ?thesis using conn_events_conn by fast
qed

text \<open>How the sets of events follow the table of connections.\<close>

lemma events_of_put:
  assumes "distinct (map fst cs)"
  shows "events_of (put_outcome i r cs) = {e \<in> events_of cs. get_associated_conn e \<noteq> i}
      \<union> (case r of Live c \<Rightarrow> set (conn_events i c) | Deleted c \<Rightarrow> {})"
    "set (pending_events (put_outcome i r cs)) = {e \<in> set (pending_events cs). get_associated_conn e \<noteq> i}
      \<union> (case r of Live c \<Rightarrow> set (pending_events_of i c) | Deleted c \<Rightarrow> {})"
proof -
  note d = put_outcome_distinct [OF assms, of i r]
  have "e \<in> events_of (put_outcome i r cs) \<longleftrightarrow> e \<in> events_of cs \<and> get_associated_conn e \<noteq> i
      \<or> e \<in> (case r of Live c \<Rightarrow> set (conn_events i c) | Deleted c \<Rightarrow> {})" for e
    unfolding events_of_iff [OF d] events_of_iff [OF assms] map_of_put_outcome
    by (cases "get_associated_conn e = i"; cases r) (auto dest: conn_events_conn)
  then show "events_of (put_outcome i r cs) = {e \<in> events_of cs. get_associated_conn e \<noteq> i}
      \<union> (case r of Live c \<Rightarrow> set (conn_events i c) | Deleted c \<Rightarrow> {})" by blast
  have "e \<in> set (pending_events (put_outcome i r cs)) \<longleftrightarrow> e \<in> set (pending_events cs) \<and> get_associated_conn e \<noteq> i
      \<or> e \<in> (case r of Live c \<Rightarrow> set (pending_events_of i c) | Deleted c \<Rightarrow> {})" for e
    unfolding pending_events_iff [OF d] pending_events_iff [OF assms] map_of_put_outcome
    by (cases "get_associated_conn e = i"; cases r) (auto dest: get_associated_pending)
  then show "set (pending_events (put_outcome i r cs)) = {e \<in> set (pending_events cs). get_associated_conn e \<noteq> i}
      \<union> (case r of Live c \<Rightarrow> set (pending_events_of i c) | Deleted c \<Rightarrow> {})" by blast
qed

lemma events_of_conn:
  assumes "distinct (map fst cs)" "map_of cs i = Some c"
  shows "events_of cs = {e \<in> events_of cs. get_associated_conn e \<noteq> i} \<union> set (conn_events i c)"
    "set (pending_events cs) = {e \<in> set (pending_events cs). get_associated_conn e \<noteq> i} \<union> set (pending_events_of i c)"
  using assms(2) conn_events_conn get_associated_pending
  by (fastforce simp: events_of_iff [OF assms(1)] pending_events_iff [OF assms(1)])+

text \<open>The connection with the flag of an event set.\<close>

definition set_pending :: "evt \<Rightarrow> bool \<Rightarrow> 'p connection \<Rightarrow> 'p connection" where
  "set_pending e b c = (case e of
       ClientRead i \<Rightarrow> c\<lparr>client := (client c)\<lparr>c_read_evt := b\<rparr>\<rparr>
     | ClientWrite i \<Rightarrow> c\<lparr>client := (client c)\<lparr>c_write_evt := b\<rparr>\<rparr>
     | ServerRead i g \<Rightarrow> c\<lparr>server := map_option (\<lambda>sv. sv\<lparr>s_read_evt := b\<rparr>) (server c)\<rparr>
     | ServerWrite i g \<Rightarrow> c\<lparr>server := map_option (\<lambda>sv. sv\<lparr>s_write_evt := b\<rparr>) (server c)\<rparr>)"

lemma conn_events_set_pending [simp]: "conn_events i (set_pending e b c) = conn_events i c"
  by (cases e) (auto simp: conn_events_def set_pending_def split: option.splits)

lemma pending_set_pending:
  assumes "e \<in> set (conn_events i c)"
  shows "set (pending_events_of i (set_pending e b c)) =
    (if b then insert e (set (pending_events_of i c)) else set (pending_events_of i c) - {e})"
proof (cases "server c")
  case None
  with assms show ?thesis by (cases e) (auto simp: conn_events_def pending_events_of_def set_pending_def)
next
  case (Some sv)
  with assms have "e = ClientRead i \<or> e = ClientWrite i \<or> e = ServerRead i (length (past_servers c))
      \<or> e = ServerWrite i (length (past_servers c))" by (simp add: conn_events_def)
  with Some show ?thesis
    by (elim disjE; hypsubst) (cases b; simp add: pending_events_of_def set_pending_def; auto)+
qed

lemma events_rep_set_pending:
  assumes "distinct (map fst cs)" "e \<in> set (conn_events i c)" "map_of cs i = Some c"
    "heap_rep L h ptr (events_of cs) (if b then insert e (set (pending_events cs)) else set (pending_events cs) - {e})"
  shows "events_rep L h ptr (put_outcome i (Live (set_pending e b c)) cs)"
proof -
  let ?cs = "put_outcome i (Live (set_pending e b c)) cs"
  have "events_of ?cs = events_of cs"
    using events_of_put(1) [OF assms(1), of i "Live (set_pending e b c)"] events_of_conn(1) [OF assms(1,3)] by simp
  moreover have "set (pending_events ?cs) = (if b then insert e (set (pending_events cs)) else set (pending_events cs) - {e})"
    using events_of_put(2) [OF assms(1), of i "Live (set_pending e b c)"] events_of_conn(2) [OF assms(1,3)]
      pending_set_pending [OF assms(2), of b] conn_events_conn [OF assms(2)] by auto
  ultimately show ?thesis using assms(4) put_outcome_distinct [OF assms(1)] by (simp add: events_rep_def)
qed

lemma switches_refine:
  assumes "libevent_ok L" "calls_succeed L" "events_rep L h ptr cs" "map_of cs i = Some c" "e \<in> set (conn_events i c)"
  shows "\<exists>h'. add_event L (ptr e) t h = Inr h' \<and> events_rep L h' ptr (put_outcome i (Live (set_pending e True c)) cs)"
    "\<exists>h'. del_event L (ptr e) h = Inr h' \<and> events_rep L h' ptr (put_outcome i (Live (set_pending e False c)) cs)"
proof -
  from assms(3) have r: "distinct (map fst cs)" "heap_rep L h ptr (events_of cs) (set (pending_events cs))"
    by (simp_all add: events_rep_def)
  have e: "e \<in> events_of cs" using assms(4,5) conn_events_conn [OF assms(5)] by (simp add: events_of_iff [OF r(1)])
  show "\<exists>h'. add_event L (ptr e) t h = Inr h' \<and> events_rep L h' ptr (put_outcome i (Live (set_pending e True c)) cs)"
    using heap_rep_add [OF assms(1,2) r(2) e] events_rep_set_pending [OF r(1) assms(5,4), of L _ ptr True] by (metis (full_types))
  show "\<exists>h'. del_event L (ptr e) h = Inr h' \<and> events_rep L h' ptr (put_outcome i (Live (set_pending e False c)) cs)"
    using heap_rep_del [OF assms(1,2) r(2) e] events_rep_set_pending [OF r(1) assms(5,4), of L _ ptr False] by (metis (full_types))
qed

text \<open>
  The client's own switches, as \<open>Connection\<close> uses them, are such settings; those of a server are
  called on its events directly.
\<close>

lemma Client_switches:
  "c\<lparr>client := Client_start_reading (client c)\<rparr> = set_pending (ClientRead i) True c"
  "c\<lparr>client := Client_stop_reading (client c)\<rparr> = set_pending (ClientRead i) False c"
  "c\<lparr>client := Client_start_writing (client c)\<rparr> = set_pending (ClientWrite i) True c"
  "c\<lparr>client := Client_stop_writing (client c)\<rparr> = set_pending (ClientWrite i) False c"
  by (simp_all add: set_pending_def client_ops)

text \<open>
  The booleans of the model are the truth about the events in memory.  \<open>start_reading\<close>,
  \<open>stop_reading\<close>, \<open>start_writing\<close> and \<open>stop_writing\<close>, as calls of \<open>add_event\<close> and \<open>del_event\<close> on the
  event of the client, end without a fault and lead to a heap that represents the connections
  with the flag of that client changed, and no other.
\<close>

theorem client_switches_refine:
  assumes "libevent_ok L" "calls_succeed L" "events_rep L h ptr cs" "map_of cs i = Some c"
  shows "(\<exists>h'. add_event L (ptr (ClientRead i)) None h = Inr h'
      \<and> events_rep L h' ptr (AList.update i (c\<lparr>client := Client_start_reading (client c)\<rparr>) cs))
    \<and> (\<exists>h'. del_event L (ptr (ClientRead i)) h = Inr h'
      \<and> events_rep L h' ptr (AList.update i (c\<lparr>client := Client_stop_reading (client c)\<rparr>) cs))
    \<and> (\<exists>h'. add_event L (ptr (ClientWrite i)) None h = Inr h'
      \<and> events_rep L h' ptr (AList.update i (c\<lparr>client := Client_start_writing (client c)\<rparr>) cs))
    \<and> (\<exists>h'. del_event L (ptr (ClientWrite i)) h = Inr h'
      \<and> events_rep L h' ptr (AList.update i (c\<lparr>client := Client_stop_writing (client c)\<rparr>) cs))"
  using switches_refine [OF assms, of "ClientRead i"] switches_refine [OF assms, of "ClientWrite i"]
  by (simp add: Client_switches [of c i] conn_events_def put_outcome_def)

section \<open>The scan of all events\<close>

lemma associated_conn_named:
  assumes "ev_view L h p = Some d" "named e d"
  shows "associated_conn L h p = Inr (Some (get_associated_conn e))"
  using assms by (cases e) (simp_all add: associated_conn_def named_def callback_of_def arg_of_def get_associated_conn_def)

lemma associated_conn_other: "ev_view L h p = Some d \<Longrightarrow> \<not> of_conn d \<Longrightarrow> associated_conn L h p = Inr None"
  by (simp add: associated_conn_def of_conn_def)

lemma insert_conns_ok:
  assumes "\<And>p. p \<in> set ps \<Longrightarrow> associated_conn L h p = Inr (f p)"
  shows "\<exists>is. insert_conns L h ps acc = Inr is \<and> set is = set acc \<union> {i. \<exists>p \<in> set ps. f p = Some i}
    \<and> (distinct acc \<longrightarrow> distinct is)"
  using assms
proof (induction ps arbitrary: acc)
  case (Cons p ps)
  let ?acc = "case f p of None \<Rightarrow> acc | Some i \<Rightarrow> List.insert i acc"
  from Cons.IH [of ?acc] Cons.prems obtain "is" where
    "insert_conns L h ps ?acc = Inr is" "set is = set ?acc \<union> {i. \<exists>p \<in> set ps. f p = Some i}" "distinct ?acc \<longrightarrow> distinct is"
    by auto
  with Cons.prems [of p] show ?case by (cases "f p") (auto simp: distinct_insert)
qed simp

text \<open>The scan on a heap of events that represents the connections.\<close>

lemma all_connections_rep:
  assumes "libevent_ok L" "events_rep L h ptr cs"
  shows "\<exists>is. all_connections_evt L h = Inr is \<and> distinct is \<and> set is = set (get_all_connections cs)"
proof -
  from assms(2) have r: "distinct (map fst cs)" "heap_rep L h ptr (events_of cs) (set (pending_events cs))"
    by (simp_all add: events_rep_def)
  let ?ps = "event_base_foreach_event L h"
  define f where "f p = (case associated_conn L h p of Inl x \<Rightarrow> None | Inr r \<Rightarrow> r)" for p
  have conn: "\<exists>e \<in> set (pending_events cs). p = ptr e \<and> named e d" if "ev_view L h p = Some d" "ev_pending d" "of_conn d" for p d
    using that r(2) heap_repD [OF r(2)] unfolding heap_rep_def by (metis imageE option.inject)
  have ok: "associated_conn L h p = Inr (f p)" if p: "p \<in> set ?ps" for p
  proof -
    from p obtain d where "ev_view L h p = Some d" "ev_pending d" by (auto simp: foreach_event [OF assms(1)])
    then have "\<exists>r. associated_conn L h p = Inr r" using conn associated_conn_named associated_conn_other by (metis (full_types))
    then show ?thesis by (auto simp: f_def)
  qed
  have ev: "\<exists>d. ev_view L h (ptr e) = Some d \<and> ev_pending d \<and> named e d" if "e \<in> set (pending_events cs)" for e
  proof -
    from that pending_conn_events have "e \<in> events_of cs" by (auto simp: pending_events_iff [OF r(1)] events_of_iff [OF r(1)])
    with heap_repD [OF r(2)] that show ?thesis by metis
  qed
  have "{i. \<exists>p \<in> set ?ps. f p = Some i} = get_associated_conn ` set (pending_events cs)"
  proof (intro set_eqI iffI)
    fix i assume "i \<in> {i. \<exists>p \<in> set ?ps. f p = Some i}"
    then obtain p d where p: "f p = Some i" "ev_view L h p = Some d" "ev_pending d" by (auto simp: foreach_event [OF assms(1)])
    then have "of_conn d" using associated_conn_other [OF p(2)] by (cases "of_conn d") (simp_all add: f_def)
    with conn p obtain e where "e \<in> set (pending_events cs)" "named e d" by blast
    with p associated_conn_named [OF p(2)] show "i \<in> get_associated_conn ` set (pending_events cs)" by (auto simp: f_def)
  next
    fix i assume "i \<in> get_associated_conn ` set (pending_events cs)"
    then obtain e where e: "e \<in> set (pending_events cs)" "i = get_associated_conn e" by blast
    with ev obtain d where d: "ev_view L h (ptr e) = Some d" "ev_pending d" "named e d" by blast
    then have "ptr e \<in> set ?ps" "f (ptr e) = Some i"
      using associated_conn_named [OF d(1,3)] e(2) by (auto simp: foreach_event [OF assms(1)] f_def)
    then show "i \<in> {i. \<exists>p \<in> set ?ps. f p = Some i}" by blast
  qed
  with insert_conns_ok [where ps = ?ps and f = f and acc = "[]", OF ok] show ?thesis
    by (auto simp: all_connections_evt_def get_all_connections_def)
qed

section \<open>Construction and destruction\<close>

text \<open>The events of a new client and of a new server extend the representation.\<close>

lemma client_events_new:
  assumes "libevent_ok L" "events_rep L h ptr cs" "map_of cs i = None" "Client_events_new L fd i h = (h', p)"
    "server c = None" "\<not> c_read_evt (client c)" "\<not> c_write_evt (client c)"
  shows "events_rep L h' (ptr(ClientRead i := read_evt p, ClientWrite i := write_evt p)) ((i, c) # cs)"
proof -
  from assms(2) have r: "distinct (map fst cs)" "heap_rep L h ptr (events_of cs) (set (pending_events cs))"
    by (simp_all add: events_rep_def)
  obtain h1 r1 w1 where n: "event_new L h fd {EV_READ, EV_PERSIST} On_client_readable (ClientPtr i) = (h1, r1)"
    "event_new L h1 fd {EV_WRITE, EV_PERSIST} On_client_writable (ClientPtr i) = (h', w1)" "p = \<lparr>read_evt = r1, write_evt = w1\<rparr>"
    using assms(4) by (auto simp: Client_events_new_def new_read_event_def new_write_event_def split: prod.splits)
  have new: "ClientRead i \<notin> events_of cs" "ClientWrite i \<notin> events_of cs" "ClientRead i \<notin> set (pending_events cs)"
    "ClientWrite i \<notin> set (pending_events cs)"
    using assms(3) by (simp_all add: events_of_iff [OF r(1)] pending_events_iff [OF r(1)] get_associated_conn_def)
  have "heap_rep L h1 (ptr(ClientRead i := r1)) (insert (ClientRead i) (events_of cs)) (set (pending_events cs) - {ClientRead i})"
    by (rule heap_rep_new [OF assms(1) r(2) new(1)]) (use n(1) in \<open>simp add: callback_of_def arg_of_def\<close>)
  then have "heap_rep L h' ((ptr(ClientRead i := r1))(ClientWrite i := w1)) (insert (ClientWrite i) (insert (ClientRead i) (events_of cs)))
      (set (pending_events cs) - {ClientRead i} - {ClientWrite i})"
    by (rule heap_rep_new [OF assms(1)]) (use n(2) new in \<open>simp_all add: callback_of_def arg_of_def\<close>)
  moreover have "insert (ClientWrite i) (insert (ClientRead i) (events_of cs)) = events_of ((i, c) # cs)"
    "set (pending_events cs) - {ClientRead i} - {ClientWrite i} = set (pending_events ((i, c) # cs))"
    using assms(5-7) new by (auto simp: events_of_def conn_events_def pending_events_def pending_events_of_def)
  moreover have "distinct (map fst ((i, c) # cs))" using r(1) assms(3) by (simp add: map_of_eq_None_iff)
  ultimately show ?thesis using n(3) by (simp add: events_rep_def)
qed

text \<open>Deleting a connection that has no server releases the two events of its client.\<close>

lemma client_events_release:
  assumes "libevent_ok L" "events_rep L h ptr cs" "map_of cs i = Some c" "server c = None"
  obtains h' where "release_events L \<lparr>read_evt = ptr (ClientRead i), write_evt = ptr (ClientWrite i)\<rparr> h = Inr h'"
    "events_rep L h' ptr (AList.delete i cs)"
proof -
  from assms(2) have r: "distinct (map fst cs)" "heap_rep L h ptr (events_of cs) (set (pending_events cs))"
    by (simp_all add: events_rep_def)
  have e: "ClientRead i \<in> events_of cs" "ClientWrite i \<in> events_of cs"
    using assms(3) by (simp_all add: events_of_iff [OF r(1)] conn_events_def get_associated_conn_def)
  obtain h' where h: "release_events L \<lparr>read_evt = ptr (ClientRead i), write_evt = ptr (ClientWrite i)\<rparr> h = Inr h'"
    "heap_rep L h' ptr (events_of cs - {ClientRead i, ClientWrite i}) (set (pending_events cs) - {ClientRead i, ClientWrite i})"
    using heap_rep_release [OF assms(1) r(2) e] by auto
  let ?cs = "put_outcome i (Deleted c) cs"
  have c: "set (conn_events i c) = {ClientRead i, ClientWrite i}" "set (pending_events_of i c) \<subseteq> {ClientRead i, ClientWrite i}"
    using assms(4) by (auto simp: conn_events_def pending_events_of_def)
  have a: "get_associated_conn (ClientRead i) = i" "get_associated_conn (ClientWrite i) = i" by (simp_all add: get_associated_conn_def)
  have "events_of ?cs = events_of cs - {ClientRead i, ClientWrite i}"
    using events_of_put(1) [OF r(1), of i "Deleted c"] events_of_conn(1) [OF r(1) assms(3)] c(1) a by auto
  moreover have "set (pending_events ?cs) = set (pending_events cs) - {ClientRead i, ClientWrite i}"
    using events_of_put(2) [OF r(1), of i "Deleted c"] events_of_conn(2) [OF r(1) assms(3)] c(2) a by auto
  ultimately have "events_rep L h' ptr ?cs" using h(2) put_outcome_distinct [OF r(1)] by (simp add: events_rep_def)
  with h(1) that show thesis by (simp add: put_outcome_def)
qed

section \<open>Every run keeps events and connections together\<close>

text \<open>What \<open>main\<close> sets up: the timer of the monitor and the event of the listening socket.\<close>

definition main_events :: "'h libevent \<Rightarrow> int \<Rightarrow> 'h \<Rightarrow> 'h res" where
  "main_events L master_sock h =
     (case new_persist_timer L h On_monitor NullArg of (h1, e1) \<Rightarrow>
      bindE (add_event_with_timeout L e1 MONITOR_INTERVAL h1) (\<lambda>h2.
      case new_read_event L h2 master_sock On_accept NullArg of (h3, e2) \<Rightarrow> add_event L e2 None h3))"

text \<open>
  The steps that touch the heap of events or the table of connections: the start, a client accepted, a
  server connected, an event added or deleted, anything else a handler does to a connection, the
  life of other events (timers), a server freed, a connection deleted.
\<close>

definition same_events :: "nat \<Rightarrow> 'p connection \<Rightarrow> 'p connection \<Rightarrow> bool" where
  "same_events i c c' \<longleftrightarrow> conn_events i c' = conn_events i c \<and> pending_events_of i c' = pending_events_of i c"

inductive evt_step ::
    "'h libevent \<Rightarrow> 'h \<times> (evt \<Rightarrow> nat) \<times> 'p conns \<Rightarrow> 'h \<times> (evt \<Rightarrow> nat) \<times> 'p conns \<Rightarrow> bool" for L where
  accept: "map_of cs i = None \<Longrightarrow> Client_events_new L fd i h = (h', p) \<Longrightarrow>
    server c = None \<Longrightarrow> \<not> c_read_evt (client c) \<Longrightarrow> \<not> c_write_evt (client c) \<Longrightarrow>
    evt_step L (h, ptr, cs) (h', ptr(ClientRead i := read_evt p, ClientWrite i := write_evt p), (i, c) # cs)"
| connect: "map_of cs i = Some c \<Longrightarrow> server c = None \<Longrightarrow> g = length (past_servers c) \<Longrightarrow>
    Server_events_new L fd i g h = (h', p) \<Longrightarrow> \<not> s_read_evt sv \<Longrightarrow> \<not> s_write_evt sv \<Longrightarrow>
    evt_step L (h, ptr, cs) (h', ptr(ServerRead i g := read_evt p, ServerWrite i g := write_evt p),
      put_outcome i (Live (c\<lparr>server := Some sv\<rparr>)) cs)"
| add: "map_of cs i = Some c \<Longrightarrow> e \<in> set (conn_events i c) \<Longrightarrow> add_event L (ptr e) t h = Inr h' \<Longrightarrow>
    evt_step L (h, ptr, cs) (h', ptr, put_outcome i (Live (set_pending e True c)) cs)"
| del: "map_of cs i = Some c \<Longrightarrow> e \<in> set (conn_events i c) \<Longrightarrow> del_event L (ptr e) h = Inr h' \<Longrightarrow>
    evt_step L (h, ptr, cs) (h', ptr, put_outcome i (Live (set_pending e False c)) cs)"
| work: "map_of cs i = Some c \<Longrightarrow> same_events i c c' \<Longrightarrow> evt_step L (h, ptr, cs) (h, ptr, put_outcome i (Live c') cs)"
| timer_new: "cb = On_close_timeout \<or> cb = On_slow_timer \<Longrightarrow> event_new L h fd fl cb a = (h', e) \<Longrightarrow>
    evt_step L (h, ptr, cs) (h', ptr, cs)"
| timer_use: "ev_view L h e = Some d \<Longrightarrow> \<not> of_conn d \<Longrightarrow>
    add_event L e t h = Inr h' \<or> del_event L e h = Inr h' \<or> free_event L e h = Inr h' \<Longrightarrow>
    evt_step L (h, ptr, cs) (h', ptr, cs)"
| free_server: "map_of cs i = Some c \<Longrightarrow> server c \<noteq> None \<Longrightarrow> g = length (past_servers c) \<Longrightarrow>
    release_events L \<lparr>read_evt = ptr (ServerRead i g), write_evt = ptr (ServerWrite i g)\<rparr> h = Inr h' \<Longrightarrow>
    evt_step L (h, ptr, cs) (h', ptr, put_outcome i (Live (snd (Connection_free_server w c))) cs)"
| delete: "map_of cs i = Some c \<Longrightarrow> server c = None \<Longrightarrow>
    release_events L \<lparr>read_evt = ptr (ClientRead i), write_evt = ptr (ClientWrite i)\<rparr> h = Inr h' \<Longrightarrow>
    evt_step L (h, ptr, cs) (h', ptr, AList.delete i cs)"

text \<open>Runs from what \<open>main\<close> sets up.\<close>

inductive evt_run :: "'h libevent \<Rightarrow> 'h \<Rightarrow> (evt \<Rightarrow> nat) \<Rightarrow> 'p conns \<Rightarrow> bool" for L where
  start: "ev_view L h0 = (\<lambda>_. None) \<Longrightarrow> main_events L master_sock h0 = Inr h \<Longrightarrow> evt_run L h ptr []"
| step: "evt_run L h ptr cs \<Longrightarrow> evt_step L (h, ptr, cs) (h', ptr', cs') \<Longrightarrow> evt_run L h' ptr' cs'"

text \<open>Events of other parts of the program do not matter to the representation.\<close>

lemma heap_rep_frame:
  assumes "heap_rep L h ptr S P" "ev_view L h' = (ev_view L h)(p := x)"
    "\<And>d. ev_view L h p = Some d \<Longrightarrow> \<not> of_conn d" "\<And>d. x = Some d \<Longrightarrow> \<not> of_conn d"
  shows "heap_rep L h' ptr S P"
proof -
  have "ptr e \<noteq> p" if "e \<in> S" for e using heap_repD [OF assms(1) that] assms(3) named_of_conn by metis
  then have "\<exists>d. ev_view L h' (ptr e) = Some d \<and> named e d \<and> (ev_pending d \<longleftrightarrow> e \<in> P)" if "e \<in> S" for e
    using heap_repD [OF assms(1) that] assms(2) that by (metis fun_upd_other)
  moreover have "q \<in> ptr ` S" if "ev_view L h' q = Some d" "of_conn d" for q d
    using that assms(1,2,4) unfolding heap_rep_def by (cases "q = p") auto
  ultimately show ?thesis using assms(1) unfolding heap_rep_def by blast
qed

lemma events_rep_frame:
  "events_rep L h ptr cs \<Longrightarrow> ev_view L h' = (ev_view L h)(p := x) \<Longrightarrow> (\<And>d. ev_view L h p = Some d \<Longrightarrow> \<not> of_conn d) \<Longrightarrow>
    (\<And>d. x = Some d \<Longrightarrow> \<not> of_conn d) \<Longrightarrow> events_rep L h' ptr cs"
  by (auto simp: events_rep_def intro: heap_rep_frame)

lemma events_rep_new_other:
  assumes "libevent_ok L" "events_rep L h ptr cs" "event_new L h fd fl cb a = (h', e)"
    "cb \<notin> {On_client_readable, On_client_writable, On_server_readable, On_server_writable}"
  shows "events_rep L h' ptr cs"
  by (rule events_rep_frame [OF assms(2) event_newD(2) [OF assms(1,3)]])
    (use event_newD(1) [OF assms(1,3)] assms(4) in \<open>auto simp: of_conn_def\<close>)

lemma events_rep_use_other:
  assumes "libevent_ok L" "calls_succeed L" "events_rep L h ptr cs" "ev_view L h e = Some d" "\<not> of_conn d"
    "add_event L e t h = Inr h' \<or> del_event L e h = Inr h' \<or> free_event L e h = Inr h'"
  shows "events_rep L h' ptr cs"
proof -
  have "\<exists>x. ev_view L h' = (ev_view L h)(e := x) \<and> (\<forall>d. x = Some d \<longrightarrow> \<not> of_conn d)"
    using assms(5,6) add_event_ok [OF assms(1,2,4), of t] del_event_cases [OF assms(1,4)] assms(2) free_event_ok [OF assms(1,4)]
    by (metis Inr_inject named_simps(3,4) option.distinct(1) option.inject)
  then obtain x where x: "ev_view L h' = (ev_view L h)(e := x)" "\<forall>d. x = Some d \<longrightarrow> \<not> of_conn d" by blast
  show ?thesis by (rule events_rep_frame [OF assms(3) x(1)]) (use assms(4,5) x(2) in auto)
qed

lemma main_events_rep:
  assumes "libevent_ok L" "calls_succeed L" "ev_view L h0 = (\<lambda>_. None)" "main_events L fd h0 = Inr h"
  shows "events_rep L h ptr []"
proof -
  obtain h1 e1 where 1: "event_new L h0 (-1) {EV_PERSIST} On_monitor NullArg = (h1, e1)" by (meson surj_pair)
  with assms(4) obtain h2 where 2: "add_event L e1 (Some MONITOR_INTERVAL) h1 = Inr h2"
    "(case new_read_event L h2 fd On_accept NullArg of (h3, e2) \<Rightarrow> add_event L e2 None h3) = Inr h"
    by (auto simp: main_events_def new_persist_timer_def add_event_with_timeout_def elim!: bindE_InrE)
  obtain h3 e2 where 3: "event_new L h2 fd {EV_READ, EV_PERSIST} On_accept NullArg = (h3, e2)" by (meson surj_pair)
  with 2(2) have 4: "add_event L e2 None h3 = Inr h" by (simp add: new_read_event_def)
  have "events_rep L h0 ptr []" using assms(3) by (simp add: events_rep_def heap_rep_def events_of_def pending_events_def)
  then have r1: "events_rep L h1 ptr []" by (rule events_rep_new_other [OF assms(1) _ 1]) simp
  have "events_rep L h2 ptr []"
    by (rule events_rep_use_other [OF assms(1,2) r1, of e1]) (use event_newD(2) [OF assms(1) 1] 2(1) in \<open>auto simp: of_conn_def\<close>)
  then have r3: "events_rep L h3 ptr []" by (rule events_rep_new_other [OF assms(1) _ 3]) simp
  show ?thesis
    by (rule events_rep_use_other [OF assms(1,2) r3, of e2]) (use event_newD(2) [OF assms(1) 3] 4 in \<open>auto simp: of_conn_def\<close>)
qed

lemma events_rep_work:
  assumes "events_rep L h ptr cs" "map_of cs i = Some c" "same_events i c c'"
  shows "events_rep L h ptr (put_outcome i (Live c') cs)"
proof -
  from assms(1) have r: "distinct (map fst cs)" "heap_rep L h ptr (events_of cs) (set (pending_events cs))"
    by (simp_all add: events_rep_def)
  have "events_of (put_outcome i (Live c') cs) = events_of cs" "set (pending_events (put_outcome i (Live c') cs)) = set (pending_events cs)"
    using events_of_put [OF r(1), of i "Live c'"] events_of_conn [OF r(1) assms(2)] assms(3) by (simp_all add: same_events_def)
  with r put_outcome_distinct [OF r(1)] show ?thesis by (simp add: events_rep_def)
qed

lemma server_events_new:
  assumes "libevent_ok L" "events_rep L h ptr cs" "map_of cs i = Some c" "server c = None" "g = length (past_servers c)"
    "Server_events_new L fd i g h = (h', p)" "\<not> s_read_evt sv" "\<not> s_write_evt sv"
  shows "events_rep L h' (ptr(ServerRead i g := read_evt p, ServerWrite i g := write_evt p)) (put_outcome i (Live (c\<lparr>server := Some sv\<rparr>)) cs)"
proof -
  from assms(2) have r: "distinct (map fst cs)" "heap_rep L h ptr (events_of cs) (set (pending_events cs))"
    by (simp_all add: events_rep_def)
  let ?r = "ServerRead i g" and ?w = "ServerWrite i g" and ?cs = "put_outcome i (Live (c\<lparr>server := Some sv\<rparr>)) cs"
  obtain h1 r1 w1 where n: "event_new L h fd {EV_READ, EV_PERSIST} On_server_readable (ServerPtr i g) = (h1, r1)"
    "event_new L h1 fd {EV_WRITE, EV_PERSIST} On_server_writable (ServerPtr i g) = (h', w1)" "p = \<lparr>read_evt = r1, write_evt = w1\<rparr>"
    using assms(6) by (auto simp: Server_events_new_def new_read_event_def new_write_event_def split: prod.splits)
  have new: "?r \<notin> events_of cs" "?w \<notin> events_of cs" "?r \<notin> set (pending_events cs)" "?w \<notin> set (pending_events cs)"
    using assms(3,4) by (auto simp: events_of_iff [OF r(1)] pending_events_iff [OF r(1)] get_associated_conn_def conn_events_def pending_events_of_def)
  have "heap_rep L h1 (ptr(?r := r1)) (insert ?r (events_of cs)) (set (pending_events cs) - {?r})"
    by (rule heap_rep_new [OF assms(1) r(2) new(1)]) (use n(1) in \<open>simp add: callback_of_def arg_of_def\<close>)
  then have "heap_rep L h' ((ptr(?r := r1))(?w := w1)) (insert ?w (insert ?r (events_of cs))) (set (pending_events cs) - {?r} - {?w})"
    by (rule heap_rep_new [OF assms(1)]) (use n(2) new in \<open>simp_all add: callback_of_def arg_of_def\<close>)
  moreover have "insert ?w (insert ?r (events_of cs)) = events_of ?cs"
    using events_of_put(1) [OF r(1), of i "Live (c\<lparr>server := Some sv\<rparr>)"] events_of_conn(1) [OF r(1) assms(3)] assms(4,5)
    by (auto simp: conn_events_def)
  moreover have "set (pending_events cs) - {?r} - {?w} = set (pending_events ?cs)"
    using events_of_put(2) [OF r(1), of i "Live (c\<lparr>server := Some sv\<rparr>)"] events_of_conn(2) [OF r(1) assms(3)] assms(4,7,8) new
    by (auto simp: pending_events_of_def)
  ultimately show ?thesis using n(3) put_outcome_distinct [OF r(1)] by (simp add: events_rep_def)
qed

lemma server_events_release:
  assumes "libevent_ok L" "events_rep L h ptr cs" "map_of cs i = Some c" "server c \<noteq> None" "g = length (past_servers c)"
    "release_events L \<lparr>read_evt = ptr (ServerRead i g), write_evt = ptr (ServerWrite i g)\<rparr> h = Inr h'"
  shows "events_rep L h' ptr (put_outcome i (Live (snd (Connection_free_server w c))) cs)"
proof -
  from assms(2) have r: "distinct (map fst cs)" "heap_rep L h ptr (events_of cs) (set (pending_events cs))"
    by (simp_all add: events_rep_def)
  let ?r = "ServerRead i g" and ?w = "ServerWrite i g" and ?c = "snd (Connection_free_server w c)"
  from assms(4) obtain sv where sv: "server c = Some sv" by blast
  have e: "?r \<in> events_of cs" "?w \<in> events_of cs"
    using assms(3,5) sv by (simp_all add: events_of_iff [OF r(1)] conn_events_def get_associated_conn_def)
  have h: "heap_rep L h' ptr (events_of cs - {?r, ?w}) (set (pending_events cs) - {?r, ?w})"
    using heap_rep_release [OF assms(1) r(2) e] assms(6) by auto
  have k: "set (conn_events i ?c) = set (conn_events i c) - {?r, ?w}" "set (pending_events_of i ?c) = set (pending_events_of i c) - {?r, ?w}"
    using sv assms(5) by (auto simp: Connection_free_server_def conn_events_def pending_events_of_def)
  have a: "get_associated_conn ?r = i" "get_associated_conn ?w = i" by (simp_all add: get_associated_conn_def)
  have "events_of (put_outcome i (Live ?c) cs) = events_of cs - {?r, ?w}"
    using events_of_put(1) [OF r(1), of i "Live ?c"] events_of_conn(1) [OF r(1) assms(3)] k(1) a by auto
  moreover have "set (pending_events (put_outcome i (Live ?c) cs)) = set (pending_events cs) - {?r, ?w}"
    using events_of_put(2) [OF r(1), of i "Live ?c"] events_of_conn(2) [OF r(1) assms(3)] k(2) a by auto
  ultimately show ?thesis using h put_outcome_distinct [OF r(1)] by (simp add: events_rep_def)
qed

lemma evt_step_rep:
  assumes "evt_step L (h, ptr, cs) (h', ptr', cs')" "libevent_ok L" "calls_succeed L" "events_rep L h ptr cs"
  shows "events_rep L h' ptr' cs'"
  using assms(1)
proof cases
  case (accept i fd p c)
  with assms(2,4) show ?thesis by (blast intro: client_events_new)
next
  case (connect i c g fd p sv)
  with assms(2,4) show ?thesis by (blast intro: server_events_new)
next
  case (add i c e t)
  with switches_refine(1) [OF assms(2-4), of i c e t] show ?thesis by auto
next
  case (del i c e)
  with switches_refine(2) [OF assms(2-4), of i c e] show ?thesis by auto
next
  case (work i c c')
  with assms(4) show ?thesis by (auto intro: events_rep_work)
next
  case (timer_new cb fd fl a e)
  with assms(2,4) show ?thesis by (auto intro: events_rep_new_other)
next
  case (timer_use e d t)
  with assms(2-4) show ?thesis by (blast intro: events_rep_use_other)
next
  case (free_server i c g w)
  with assms(2,4) show ?thesis by (blast intro: server_events_release)
next
  case (delete i c)
  with client_events_release [OF assms(2,4), of i c] show ?thesis by auto
qed

lemma evt_run_rep:
  assumes "evt_run L h ptr cs" "libevent_ok L" "calls_succeed L"
  shows "events_rep L h ptr cs"
  using assms by (induction rule: evt_run.induct) (blast intro: main_events_rep evt_step_rep)+

lemma rep_arguments_typed:
  assumes "events_rep L h ptr cs" "ev_view L h p = Some d"
  shows "(ev_callback d = On_client_readable \<or> ev_callback d = On_client_writable \<longrightarrow>
       (\<exists>i. ev_arg d = ClientPtr i \<and> map_of cs i \<noteq> None))
    \<and> (ev_callback d = On_server_readable \<or> ev_callback d = On_server_writable \<longrightarrow>
       (\<exists>i c. ev_arg d = ServerPtr i (length (past_servers c)) \<and> map_of cs i = Some c \<and> server c \<noteq> None))
    \<and> (\<exists>r. associated_conn L h p = Inr r)"
proof (cases "of_conn d")
  case False
  with associated_conn_other [OF assms(2) False] show ?thesis by (auto simp: of_conn_def)
next
  case True
  from assms(1) have r: "distinct (map fst cs)" "heap_rep L h ptr (events_of cs) (set (pending_events cs))"
    by (simp_all add: events_rep_def)
  with True assms(2) obtain e where e: "e \<in> events_of cs" "p = ptr e" unfolding heap_rep_def by blast
  with heap_repD [OF r(2) e(1)] assms(2) have n: "named e d" by auto
  from e(1) obtain c where c: "map_of cs (get_associated_conn e) = Some c" "e \<in> set (conn_events (get_associated_conn e) c)"
    by (auto simp: events_of_iff [OF r(1)])
  with n associated_conn_named [OF assms(2) n] show ?thesis
    by (cases e; cases "server c") (auto simp: named_def callback_of_def arg_of_def get_associated_conn_def conn_events_def)
qed

text \<open>
  C16: the untyped callback arguments are sound.  Through every run of the program, every event in
  memory whose callback is one of a client has the \<open>Client\<close> of a live connection as its
  argument, every one of a server the \<open>Server\<close> its connection has now, never one of an earlier
  server, so that the casts in the callbacks and in \<open>get_associated_conn\<close> meet an object of the
  type they name.
\<close>

theorem callback_arguments_typed:
  assumes "libevent_ok L" "calls_succeed L" "evt_run L h ptr cs" "ev_view L h p = Some d"
  shows "(ev_callback d = On_client_readable \<or> ev_callback d = On_client_writable \<longrightarrow>
       (\<exists>i. ev_arg d = ClientPtr i \<and> map_of cs i \<noteq> None))
    \<and> (ev_callback d = On_server_readable \<or> ev_callback d = On_server_writable \<longrightarrow>
       (\<exists>i c. ev_arg d = ServerPtr i (length (past_servers c)) \<and> map_of cs i = Some c \<and> server c \<noteq> None))
    \<and> (\<exists>r. associated_conn L h p = Inr r)"
  using rep_arguments_typed [OF evt_run_rep [OF assms(3,1,2)] assms(4)] .

text \<open>
  Through every run on events the events in memory are those of the model's
  connections: each event of each connection is there, pending exactly if the model's flag says
  so, and no other event has a callback of a client or server.  Therefore the scan of libevent's pending events in
  \<open>get_all_connections\<close> visits no freed event and finds each connection the model's scan finds,
  once; timers and the events of the listening socket and of the monitor are passed over.
\<close>

theorem all_connections_refines:
  assumes "libevent_ok L" "calls_succeed L" "evt_run L h ptr cs"
  shows "events_rep L h ptr cs
    \<and> (\<exists>is. all_connections_evt L h = Inr is \<and> distinct is \<and> set is = set (get_all_connections cs))"
  using evt_run_rep [OF assms(3,1,2)] all_connections_rep [OF assms(1)] by blast

section \<open>Examples\<close>

text \<open>The first client of a process, before its read event is added.\<close>

definition idle_conn :: "unit connection" where
  "idle_conn = \<lparr>client = (new_client idle_sock (small_hybridbuf [] 0 0 []))\<lparr>c_read_evt := False\<rparr>, server = None, parser = None,
     fast_mode = True, in_transition = False, past_servers = []\<rparr>"

lemma heap_main_events: obtains h where "main_events heap_libevent 3 (0, \<lambda>_. None) = Inr h" "ev_view heap_libevent (0, \<lambda>_. None) = (\<lambda>_. None)"
proof -
  have "\<exists>h. main_events heap_libevent 3 (0, \<lambda>_. None) = Inr h"
    by (simp add: main_events_def new_persist_timer_def new_read_event_def add_event_with_timeout_def add_event_def live_event_def
        heap_libevent_def heap_view_def)
  moreover have "ev_view heap_libevent (0, \<lambda>_. None) = (\<lambda>_. None)" by (simp add: heap_libevent_def heap_view_def fun_eq_iff)
  ultimately show thesis using that by blast
qed

lemma idle_conn_run: "\<exists>h ptr. evt_run heap_libevent h ptr [(0, idle_conn)]"
proof -
  obtain h where m: "main_events heap_libevent 3 (0, \<lambda>_. None) = Inr h" "ev_view heap_libevent (0, \<lambda>_. None) = (\<lambda>_. None)"
    by (rule heap_main_events)
  have s: "evt_run heap_libevent h (\<lambda>_. 0) ([] :: unit conns)" using m(2,1) by (rule evt_run.start)
  obtain h1 p where "Client_events_new heap_libevent 4 0 h = (h1, p)" by (meson surj_pair)
  then have "evt_step heap_libevent (h, \<lambda>_. 0, []) (h1, (\<lambda>_. 0)(ClientRead 0 := read_evt p, ClientWrite 0 := write_evt p), [(0, idle_conn)])"
    by (intro evt_step.accept) (simp_all add: idle_conn_def new_client_def)
  with s show ?thesis by (blast intro: evt_run.step)
qed

lemma idle_conn_rep: "\<exists>h ptr. events_rep heap_libevent h ptr [(0, idle_conn)]"
  using idle_conn_run evt_run_rep [OF _ heap_libevent_ok] by blast

theorem client_switches_refine_witness:
  "\<exists>h ptr h'. events_rep heap_libevent h ptr [(0, idle_conn)] \<and> add_event heap_libevent (ptr (ClientRead 0)) None h = Inr h'
     \<and> events_rep heap_libevent h' ptr [(0, idle_conn\<lparr>client := Client_start_reading (client idle_conn)\<rparr>)]"
proof -
  obtain h ptr where "events_rep heap_libevent h ptr [(0, idle_conn)]" using idle_conn_rep by blast
  moreover from client_switches_refine [OF heap_libevent_ok this, of 0 idle_conn]
  have "\<exists>h'. add_event heap_libevent (ptr (ClientRead 0)) None h = Inr h'
     \<and> events_rep heap_libevent h' ptr [(0, idle_conn\<lparr>client := Client_start_reading (client idle_conn)\<rparr>)]"
    by (simp del: split_paired_Ex)
  ultimately show ?thesis by blast
qed

theorem all_connections_refines_witness:
  "\<exists>h ptr is. evt_run heap_libevent h ptr [(0, set_pending (ClientRead 0) True idle_conn)]
     \<and> all_connections_evt heap_libevent h = Inr is \<and> set is = {0}"
proof -
  obtain h ptr where r: "evt_run heap_libevent h ptr [(0, idle_conn)]" using idle_conn_run by blast
  obtain h' where "add_event heap_libevent (ptr (ClientRead 0)) None h = Inr h'"
    using switches_refine(1) [OF heap_libevent_ok evt_run_rep [OF r heap_libevent_ok], of 0 idle_conn "ClientRead 0" None]
    by (auto simp: conn_events_def)
  with evt_run.step [OF r evt_step.add [of _ 0 idle_conn "ClientRead 0"]]
  have r1: "evt_run heap_libevent h' ptr [(0, set_pending (ClientRead 0) True idle_conn)]" by (simp add: conn_events_def put_outcome_def)
  have "set (get_all_connections [(0, set_pending (ClientRead 0) True idle_conn)]) = {0}"
    by (simp add: get_all_connections_def pending_events_def pending_events_of_def set_pending_def idle_conn_def
        new_client_def get_associated_conn_def)
  with r1 all_connections_refines [OF heap_libevent_ok r1] show ?thesis by blast
qed

theorem callback_arguments_typed_witness:
  "\<exists>h ptr d. evt_run heap_libevent h ptr [(0, idle_conn)] \<and> ev_view heap_libevent h (ptr (ClientRead 0)) = Some d
     \<and> ev_callback d = On_client_readable \<and> ev_arg d = ClientPtr 0"
proof -
  obtain h ptr where r: "evt_run heap_libevent h ptr [(0, idle_conn)]" using idle_conn_run by blast
  have "ClientRead 0 \<in> events_of [(0, idle_conn)]" by (simp add: events_of_def conn_events_def)
  with evt_run_rep [OF r heap_libevent_ok] obtain d where
    d: "ev_view heap_libevent h (ptr (ClientRead 0)) = Some d" "named (ClientRead 0) d"
    by (auto simp: events_rep_def elim: heap_repD)
  then have cb: "ev_callback d = On_client_readable" by (simp add: named_def callback_of_def)
  with callback_arguments_typed [OF heap_libevent_ok r d(1)] have "ev_arg d = ClientPtr 0" by (auto split: if_splits)
  with r d(1) cb show ?thesis by blast
qed

end
