(* ===== verification/Transfers.thy ===== *)
theory Transfers
  imports Modes
begin

text \<open>
  What single operations do to the data of a connection: the switch to slow mode, the transition,
  slow-mode receiving and sending, the history, and the decisions of the monitor and of
  \<open>accept_new\<close>.
\<close>

section \<open>Connections in slow mode, by example\<close>

definition demo_world :: world where
  "demo_world = \<lparr>hybridbuf_pool = [], connection_count = 1, active_count = 1,
     netst = \<lparr>locals = local_init, open_socks = 1\<rparr>\<rparr>"

definition demo_server :: "sock \<Rightarrow> circularbuf option \<Rightarrow> server" where
  "demo_server sk q = \<lparr>s_sock = sk, s_read_evt = True, s_read_timeout = True, s_write_evt = True, s_queued_output = q\<rparr>"

definition demo_slow :: "sock \<Rightarrow> server option \<Rightarrow> bool \<Rightarrow> unit connection" where
  "demo_slow sk sv tr =
     \<lparr>client = \<lparr>c_sock = sk, c_read_evt = (sv = None), c_write_evt = False, c_queued_output = None,
        request_buf = Some new_file, request_tmp_buf = Some new_file, response_buf = Some new_response,
        read_count = 0, write_count = 0, request_history = None\<rparr>,
      server = sv, parser = Some (HttpParser_new line_llhttp), fast_mode = False, in_transition = tr, past_servers = []\<rparr>"

lemma demo_world_inv [simp]: "world_inv demo_world"
  using at_index_init by (auto simp: world_inv_def demo_world_def)

lemma demo_slow_modes:
  "(\<And>q. s_queued_output sv = Some q \<Longrightarrow> queue_ok q) \<Longrightarrow> s_read_evt sv \<Longrightarrow> s_read_timeout sv \<Longrightarrow>
     slow_transition (demo_slow sk (Some sv) True)"
  "s_read_evt sv \<Longrightarrow> slow_serving (demo_slow sk (Some sv) False)"
  "slow_receiving (demo_slow sk None False)"
  "history_ok (client (demo_slow sk x b))"
  by (auto simp: demo_slow_def slow_transition_def slow_serving_def slow_receiving_def slow_buffers_ok_def history_ok_def)

section \<open>The switch to slow mode\<close>

text \<open>
  C8: switching a relaying connection to slow mode keeps its data: the part of the current
  request the history holds becomes the request file, ready to be appended to, the reply queued for the client
  becomes the pending response, and the bytes queued for the server stay queued while the
  connection is in transition, unless there are none.  The client is not read until the
  transition is over, and the server has a timeout.
\<close>

theorem set_slow_mode_keeps_data:
  assumes "env_ok env" "world_inv w" "conn_inv c" "fast_mode c" "parser c = Some p"
    "request_history (client c) = Some h" "c_queued_output (client c) = Some cq"
    "server c = Some sv" "s_queued_output sv = Some sq"
  shows "\<exists>w' c' rb pb sv'. Connection_set_slow_mode ll env w c = Inr (w', c') \<and> \<not> fast_mode c' \<and> in_transition c'
    \<and> request_buf (client c') = Some rb \<and> content rb = Hybridbuf_stored h \<and> fd_pos rb = length (content rb)
    \<and> response_buf (client c') = Some pb \<and> drop (reader_pos pb) (content pb) = Circularbuf_contents cq
    \<and> server c' = Some sv' \<and> s_sock sv' = s_sock sv \<and> s_queued_output sv' = (if Circularbuf_contents sq = [] then None else Some sq)
    \<and> \<not> c_read_evt (client c') \<and> s_read_evt sv' \<and> s_read_timeout sv'"
proof -
  from assms(3-5) have act: "history_ok (client c)" "fast_active c"
    by (auto simp: conn_inv_def fast_fresh_def fast_reply_def slow_transition_def slow_receiving_def slow_serving_def slow_reply_def)
  show ?thesis
  proof (rule set_slow_mode_active [OF assms(1,2) act, where ll = ll], goal_cases)
    case (1 w' c' h1 cq1 sv1 sv' rb pb)
    then show ?case using assms(6-9) by (auto simp: slow_transition_def Filebuf_appendable_def)
  qed
qed

theorem set_slow_mode_keeps_data_witness:
  "\<exists>st c h w' c' rb. reachable line_llhttp st \<and> map_of (pconns st) 0 = Some c \<and> request_history (client c) = Some h
     \<and> Connection_set_slow_mode line_llhttp good_env (pworld st) c = Inr (w', c')
     \<and> request_buf (client c') = Some rb \<and> content rb = Hybridbuf_stored h"
proof -
  obtain st and c :: "unit connection" and sv sq where c: "reachable line_llhttp st" "map_of (pconns st) 0 = Some c" "fast_active c"
    "server c = Some sv" "s_queued_output sv = Some sq" by (rule relaying_connection)
  note inv = reachable_proxy_inv [OF line_llhttp_ok c(1)]
  from c(3) obtain p h cq where x: "fast_mode c" "parser c = Some p" "request_history (client c) = Some h"
    "c_queued_output (client c) = Some cq" by (auto simp: fast_active_def)
  from set_slow_mode_keeps_data [OF good_env_ok(1) proxy_invD(1) [OF inv] proxy_invD(3) [OF inv c(2)] x c(4,5), of line_llhttp]
    c x show ?thesis by blast
qed

text \<open>
  A connection that is put into slow mode while it delivers the last reply of a server that is
  gone loses what is still queued: nothing of it is pending afterwards, although it was not sent,
  and the connection waits for a new request.
\<close>

theorem set_slow_mode_drops_last_reply:
  assumes "env_ok env" "world_inv w" "conn_inv c" "fast_mode c" "parser c = None" "c_queued_output (client c) = Some cq"
  shows "pending_reply c \<noteq> [] \<and> (\<exists>w' c'. Connection_set_slow_mode ll env w c = Inr (w', c') \<and> pending_reply c' = []
    \<and> c_sock (client c') = c_sock (client c) \<and> server c' = None \<and> c_read_evt (client c'))"
proof -
  from assms(3-6) have r: "history_ok (client c)" "fast_reply c"
    by (auto simp: conn_inv_def fast_fresh_def fast_active_def slow_transition_def slow_receiving_def slow_serving_def slow_reply_def)
  then obtain w' where "Connection_set_slow_mode ll env w c =
      Inr (w', c\<lparr>fast_mode := False, in_transition := False, parser := Some (HttpParser_new ll),
        client := (client c)\<lparr>request_buf := Some new_file, request_tmp_buf := Some new_file,
          response_buf := Some new_response, request_history := None, c_read_evt := True\<rparr>\<rparr>)"
    using set_slow_mode_no_parser [OF assms(1,2)] by blast
  with r(2) assms(4,6) show ?thesis by (auto simp: pending_reply_def fast_reply_def)
qed

theorem set_slow_mode_drops_last_reply_witness:
  "\<exists>c :: unit connection. conn_inv c \<and> pending_reply c \<noteq> []
     \<and> (\<exists>w' c'. Connection_set_slow_mode line_llhttp good_env demo_world c = Inr (w', c') \<and> pending_reply c' = [])"
proof -
  obtain q where q: "queue_ok q" "Circularbuf_contents q = ''bye''"
    using queue_append [OF queue_ok_new, of "''bye''"]
    by (auto simp: Circularbuf_remaining_space_def Circularbuf_new_def Circularbuf_data_size_def SOCK_IO_BUF_SIZE_def
        Circularbuf_contents_def)
  let ?c = "(demo_slow idle_sock None False)\<lparr>fast_mode := True, parser := None,
     client := (client (demo_slow idle_sock None False))\<lparr>c_queued_output := Some q, c_read_evt := False, c_write_evt := True\<rparr>\<rparr>"
  have i: "conn_inv ?c" using q by (simp add: conn_inv_def fast_reply_def demo_slow_def history_ok_def)
  have "fast_mode ?c" "parser ?c = None" "c_queued_output (client ?c) = Some q" by simp_all
  from set_slow_mode_drops_last_reply [OF good_env_ok(1) demo_world_inv i this, of line_llhttp] i show ?thesis by blast
qed

section \<open>The transition\<close>

text \<open>
  C21: during the transition \<open>Server::on_writable\<close> dereferences a null pointer exactly if its write
  empties the queue (or the queue was freed by the switch): the log line after the branch that
  frees the queue asks it for its size.  In all other cases the handler ends normally.
\<close>

theorem transition_write_faults_iff:
  assumes "world_inv w" "conn_inv c" "in_transition c" "server c = Some sv"
  shows "(Server_on_writable w c = Inl NullDeref \<longleftrightarrow> queue_runs_dry sv)
    \<and> (\<not> queue_runs_dry sv \<longrightarrow> (\<exists>w' c'. Server_on_writable w c = Inr (w', Live c')))"
proof -
  from assms(2,3) have "history_ok (client c)" "slow_transition c"
    by (auto simp: conn_inv_def fast_fresh_def fast_active_def fast_reply_def slow_receiving_def slow_serving_def slow_reply_def)
  note tr = Server_on_writable_transition [OF assms(1) this assms(4)]
  have "Server_on_writable w c \<noteq> Inr (w', Deleted c')" for w' c'
    using assms(3) \<open>slow_transition c\<close>
    by (auto simp: Server_on_writable_def slow_transition_def Let_def elim!: bindE_InrE split: if_splits)
  with tr show ?thesis by (auto simp: safe_result_def split: if_splits) (metis outcome.exhaust)
qed

theorem transition_write_faults_iff_witness:
  "\<exists>c :: unit connection. conn_inv c \<and> Server_on_writable demo_world c = Inl NullDeref"
proof -
  let ?sv = "demo_server idle_sock (Some Circularbuf_new)" let ?c = "demo_slow idle_sock (Some ?sv) True"
  have "slow_transition ?c" by (intro demo_slow_modes) (auto simp: demo_server_def)
  then have i: "conn_inv ?c" using demo_slow_modes(4) by (auto simp: conn_inv_def)
  have "queue_runs_dry ?sv"
  proof -
    obtain stat q sk where "Circularbuf_write_all_to Circularbuf_new idle_sock = Inr (stat, q, sk)"
      "Circularbuf_drained Circularbuf_new idle_sock stat q sk" "queue_ok q" by (rule queue_drain [OF queue_ok_new])
    then show ?thesis
      by (simp add: queue_runs_dry_def demo_server_def Circularbuf_drained_def queue_ok_def Circularbuf_data_size_contents)
  qed
  with transition_write_faults_iff [OF demo_world_inv i, of ?sv] i show ?thesis by (auto simp: demo_slow_def)
qed

text \<open>
  When the server ends its side during the transition, the bytes that came together with the
  end of file are dropped: they are read from the server's socket, but the pending response is
  the one from before.
\<close>

theorem transition_eof_drops_bytes:
  assumes "\<not> fast_mode c" "in_transition c" "server c = Some sv"
    "read_all (s_sock sv) SOCK_IO_BUF_SIZE = (d, stat, ssk)" "has_eof stat"
  shows "\<exists>w' c' x. Server_on_readable ll False w c = Inr (w', Live c') \<and> server c' = None \<and> \<not> in_transition c'
    \<and> pending_reply c' = pending_reply c \<and> sent (c_sock (client c')) = sent (c_sock (client c))
    \<and> map received (past_servers c') = (received (s_sock sv) @ d @ x) # map received (past_servers c)"
proof -
  have "length d \<le> SOCK_IO_BUF_SIZE" using read_all_spec(2,3) [OF assms(4)] by simp
  moreover obtain x where "received (close_socket_gracefully ssk) = received ssk @ x"
    using close_socket_gracefully_spec(1) by blast
  ultimately show ?thesis using assms read_all_spec(1) [OF assms(4)]
    by (auto simp: Server_on_readable_def Connection_free_server_def Connection_set_transition_done_def client_ops
        pending_reply_def Let_def)
qed

theorem transition_eof_drops_bytes_witness:
  "\<exists>w' c'. Server_on_readable line_llhttp False demo_world
       (demo_slow idle_sock (Some (demo_server (idle_sock\<lparr>rx := [RData ''end'', REof]\<rparr>) None)) True) = Inr (w', Live c')
     \<and> pending_reply c' = [] \<and> sent (c_sock (client c')) = []"
proof -
  let ?s = "idle_sock\<lparr>rx := [RData ''end'', REof]\<rparr>" let ?sv = "demo_server ?s None"
  let ?c = "demo_slow idle_sock (Some ?sv) True"
  have "read_all (s_sock ?sv) SOCK_IO_BUF_SIZE = (''end'', \<lparr>nbytes = length ''end'', has_error = False, has_eof = True\<rparr>,
      ?s\<lparr>rx := [REof], received := received ?s @ ''end''\<rparr>)"
    using read_all_chunk_eof [of ?s "''end''" SOCK_IO_BUF_SIZE] by (simp add: demo_server_def SOCK_IO_BUF_SIZE_def)
  moreover have "\<not> fast_mode ?c" "in_transition ?c" "server ?c = Some ?sv" by (simp_all add: demo_slow_def)
  ultimately have "\<exists>w' c'. Server_on_readable line_llhttp False demo_world ?c = Inr (w', Live c')
      \<and> pending_reply c' = pending_reply ?c \<and> sent (c_sock (client c')) = sent (c_sock (client ?c))"
    using transition_eof_drops_bytes [of ?c ?sv _ _ _ line_llhttp demo_world] by fastforce
  then show ?thesis by (simp add: demo_slow_def pending_reply_def idle_sock_def)
qed

section \<open>Slow-mode receiving\<close>

text \<open>
  C9: when a chunk from a client in slow mode completes a request, exactly the bytes up to the
  first message end join the request file, which is rewound for sending, the bytes after it
  join the other file, and the client is not read while a server works on the request.
\<close>

theorem slow_request_split:
  assumes "llhttp_ok ll" "slow_receiving c" "request_buf (client c) = Some rb" "request_tmp_buf (client c) = Some tb"
    "fd_pos rb = length (content rb)" "fd_pos tb = length (content tb)"
    "read_all (c_sock (client c)) SOCK_IO_BUF_SIZE = (d, stat, sk)" "\<not> has_eof stat"
    "parser c = Some p" "HttpParser_do_parse ll p d = (p1, True)" "eom_first p1 = Some k"
    "Server_new env w = Inr (w1, Some sv)"
  shows "\<exists>c' rb' tb' sv'. Client_recv_to_buffer_slowly ll env w c = Inr (w1, Live c')
    \<and> request_buf (client c') = Some rb' \<and> content rb' = content rb @ take k d \<and> fd_pos rb' = 0
    \<and> request_tmp_buf (client c') = Some tb' \<and> content tb' = content tb @ drop k d \<and> fd_pos tb' = length (content tb')
    \<and> server c' = Some sv' \<and> s_sock sv' = s_sock sv \<and> s_write_evt sv' \<and> s_read_evt sv' \<and> \<not> c_read_evt (client c')"
proof -
  from assms(2,9) have "HttpParser_inv p" by (auto simp: slow_receiving_def)
  note u = recv_slowly_complete_unfold [OF assms(1,2,7,8,9) this assms(10,11), where w = w and env = env]
  show ?thesis
  proof (rule u, goal_cases)
    case (1 rb0 tb0 rb2 tb1 cl2 c2)
    have b: "rb0 = rb" "tb0 = tb" using 1(1,2) assms(3,4) by simp_all
    have k: "k \<le> length d" using HttpParser_do_parse_bounds(1) [OF assms(1) \<open>HttpParser_inv p\<close> assms(10,11)] .
    have c: "content rb2 = content rb @ take k d" "content tb1 = content tb @ drop k d"
      using 1(4,7) assms(5,6) unfolding b by simp_all
    have p: "fd_pos tb1 = length (content tb1)" using 1(8) c(2) assms(6) unfolding b by simp
    show ?case unfolding 1(11) assms(12) using c p 1(5) by (simp add: 1(9,10) client_ops)
  qed
qed

definition two_lines :: sock where
  "two_lines = idle_sock\<lparr>rx := [RData [CHR ''a'', CHR 0x0A, CHR ''b'']]\<rparr>"

lemma line_parsed:
  assumes "HttpParser_inv p"
  shows "\<exists>p1. HttpParser_do_parse line_llhttp p [CHR ''a'', CHR 0x0A, CHR ''b''] = (p1, True)
     \<and> eom_first p1 = Some 2 \<and> eom_last p1 = Some 2"
  using invoke_message_complete [OF assms [unfolded HttpParser_inv_def]]
  by (simp add: HttpParser_do_parse_def line_llhttp_def)

lemma two_lines_parsed:
  "\<exists>stat sk p1. read_all two_lines SOCK_IO_BUF_SIZE = ([CHR ''a'', CHR 0x0A, CHR ''b''], stat, sk) \<and> \<not> has_eof stat
     \<and> HttpParser_do_parse line_llhttp (HttpParser_new line_llhttp) [CHR ''a'', CHR 0x0A, CHR ''b''] = (p1, True)
     \<and> eom_first p1 = Some 2 \<and> eom_last p1 = Some 2"
  using read_all_chunk [of two_lines "[CHR ''a'', CHR 0x0A, CHR ''b'']" SOCK_IO_BUF_SIZE]
    line_parsed [OF HttpParser_inv_reset(1), of line_llhttp]
  by (simp add: two_lines_def SOCK_IO_BUF_SIZE_def)

theorem slow_request_split_witness:
  "\<exists>w' c' rb' tb'. Client_recv_to_buffer_slowly line_llhttp good_env demo_world (demo_slow two_lines None False) = Inr (w', Live c')
     \<and> request_buf (client c') = Some rb' \<and> content rb' = [CHR ''a'', CHR 0x0A]
     \<and> request_tmp_buf (client c') = Some tb' \<and> content tb' = [CHR ''b'']"
proof -
  let ?c = "demo_slow two_lines None False"
  obtain stat sk p1 where r: "read_all two_lines SOCK_IO_BUF_SIZE = ([CHR ''a'', CHR 0x0A, CHR ''b''], stat, sk)" "\<not> has_eof stat"
    "HttpParser_do_parse line_llhttp (HttpParser_new line_llhttp) [CHR ''a'', CHR 0x0A, CHR ''b''] = (p1, True)" "eom_first p1 = Some 2"
    using two_lines_parsed by blast
  obtain w1 where s: "Server_new good_env demo_world = Inr (w1, Some \<lparr>s_sock = idle_sock, s_read_evt = False,
        s_read_timeout = False, s_write_evt = False, s_queued_output = None\<rparr>)" using good_env_server [OF demo_world_inv] .
  have "request_buf (client ?c) = Some new_file" "request_tmp_buf (client ?c) = Some new_file" "fd_pos new_file = length (content new_file)"
    "parser ?c = Some (HttpParser_new line_llhttp)" "c_sock (client ?c) = two_lines"
    by (simp_all add: demo_slow_def new_file_def)
  with slow_request_split [OF line_llhttp_ok demo_slow_modes(3), of two_lines new_file new_file _ _ _ _ p1 2 good_env demo_world w1] r s
  show ?thesis by fastforce
qed

section \<open>Slow-mode sending\<close>

text \<open>
  Sending a slow request to the server loses and repeats nothing, however little the socket
  takes: what was sent followed by what is left from the file's cursor on stays the same, byte
  for byte.  When the file is exhausted it is emptied and the other file takes its place.
\<close>

theorem slow_request_sending:
  assumes "conn_inv c" "\<not> fast_mode c" "\<not> in_transition c" "server c = Some sv"
    "request_buf (client c) = Some rb" "request_tmp_buf (client c) = Some tb"
  shows "\<exists>c' sv' rb'. Server_on_writable w c = Inr (w, Live c') \<and> server c' = Some sv' \<and> request_buf (client c') = Some rb'
    \<and> (if fd_pos rb < length (content rb)
       then sent (s_sock sv') @ drop (fd_pos rb') (content rb') = sent (s_sock sv) @ drop (fd_pos rb) (content rb)
       else s_sock sv' = s_sock sv \<and> \<not> s_write_evt sv' \<and> rb' = tb
         \<and> (\<exists>tb'. request_tmp_buf (client c') = Some tb' \<and> content tb' = []))"
proof -
  from assms(1-4) have serv: "slow_serving c"
    by (auto simp: conn_inv_def fast_fresh_def fast_active_def fast_reply_def slow_transition_def slow_receiving_def slow_reply_def)
  show ?thesis
  proof (rule send_request_unfold [OF serv, where w = w], goal_cases)
    case (1 sv1 rb1 tb1 d rb2 ssk rb3)
    have "fd_pos rb \<le> length (content rb)" using 1(2,3) assms(5) by (simp add: file_wf_def)
    then have d: "d = [] \<longleftrightarrow> \<not> fd_pos rb < length (content rb)"
      using 1(2,6) assms(5) by (auto simp: SOCK_IO_BUF_SIZE_def)
    with 1 assms show ?case by (auto simp: Server_on_writable_def)
  qed
qed

theorem slow_request_sending_witness:
  "\<exists>c' sv' rb'. Server_on_writable demo_world
       ((demo_slow idle_sock (Some (demo_server (idle_sock\<lparr>tx := [WAcc 2]\<rparr>) None)) False)\<lparr>client :=
          (client (demo_slow idle_sock (Some (demo_server idle_sock None)) False))\<lparr>request_buf := Some (new_file\<lparr>content := ''abc''\<rparr>)\<rparr>\<rparr>)
       = Inr (demo_world, Live c') \<and> server c' = Some sv' \<and> request_buf (client c') = Some rb'
     \<and> sent (s_sock sv') @ drop (fd_pos rb') (content rb') = ''abc''"
proof -
  let ?sv = "demo_server (idle_sock\<lparr>tx := [WAcc 2]\<rparr>) None" let ?rb = "new_file\<lparr>content := ''abc''\<rparr>"
  let ?c = "(demo_slow idle_sock (Some ?sv) False)\<lparr>client :=
     (client (demo_slow idle_sock (Some (demo_server idle_sock None)) False))\<lparr>request_buf := Some ?rb\<rparr>\<rparr>"
  have i: "conn_inv ?c"
    by (simp add: conn_inv_def slow_serving_def demo_slow_def demo_server_def slow_buffers_ok_def history_ok_def)
      (simp add: file_wf_def new_file_def healthy_def)
  have "\<not> fast_mode ?c" "\<not> in_transition ?c" "server ?c = Some ?sv" "request_buf (client ?c) = Some ?rb"
    "request_tmp_buf (client ?c) = Some new_file" by (simp_all add: demo_slow_def)
  from slow_request_sending [OF i this, of demo_world] show ?thesis
    by (simp add: new_file_def demo_server_def idle_sock_def)
qed

text \<open>
  C10: delivering a response in slow mode conserves it in the same way.  When everything was
  delivered, writing stops; a connection that only had a last reply to deliver is then deleted,
  any other one lives on.
\<close>

theorem slow_response_sending:
  assumes "world_inv w" "conn_inv c" "\<not> fast_mode c" "response_buf (client c) = Some pb"
  shows "if pending_reply c = [] \<and> parser c = None then \<exists>w' c'. Client_on_writable w c = Inr (w', Deleted c')
    else \<exists>c'. Client_on_writable w c = Inr (w, Live c')
      \<and> sent (c_sock (client c')) @ pending_reply c' = sent (c_sock (client c)) @ pending_reply c
      \<and> (pending_reply c = [] \<longrightarrow> \<not> c_write_evt (client c'))"
proof -
  from assms(2,3) have slow: "history_ok (client c)" "slow_conn c" using slow_conn_inv by blast+
  show ?thesis
  proof (rule send_response_unfold [OF slow(2), where w = w], goal_cases)
    case (1 pb0 d pb1 sk pb2 c1)
    have pb0: "pb0 = pb" using 1(1) assms(4) by simp
    have "reader_pos pb \<le> length (content pb)"
      using slow(2) assms(4) by (auto elim!: slow_connE simp: response_ok_def FIFOfilebuf_inv_def)
    then have d: "d = [] \<longleftrightarrow> pending_reply c = []" using 1(5) assms(3,4) unfolding pb0 by (auto simp: pending_reply_def)
    have "history_ok (client c1)" using slow(1) 1(10) by simp
    with assms(1) obtain w' c' where del: "Connection_delete w c1 = Inr (w', Deleted c')" by (rule delete_safe)
    from 1(11) assms(3) have eq: "Client_on_writable w c =
       (if d = [] then if parser c1 = None then Connection_delete w c1 else Inr (w, Live c1)
        else Inr (w, Live (c\<lparr>client := (client c)\<lparr>c_sock := sk, response_buf := Some pb2\<rparr>\<rparr>)))"
      by (simp add: Client_on_writable_def)
    show ?case unfolding eq using d del assms(3,4) 1(4,6,7,9,10) unfolding pb0 by (auto simp: pending_reply_def)
  qed
qed

theorem slow_response_sending_witness:
  "\<exists>c'. Client_on_writable demo_world
       ((demo_slow idle_sock None False)\<lparr>client := (client (demo_slow idle_sock None False))\<lparr>c_sock := idle_sock\<lparr>tx := [WAcc 2]\<rparr>,
          response_buf := Some (new_response\<lparr>content := ''pong'', data_size := 4, fd_pos := 4\<rparr>)\<rparr>\<rparr>) = Inr (demo_world, Live c')
     \<and> sent (c_sock (client c')) @ pending_reply c' = ''pong''"
proof -
  let ?pb = "new_response\<lparr>content := ''pong'', data_size := 4, fd_pos := 4\<rparr>"
  let ?c = "(demo_slow idle_sock None False)\<lparr>client := (client (demo_slow idle_sock None False))\<lparr>c_sock := idle_sock\<lparr>tx := [WAcc 2]\<rparr>,
     response_buf := Some ?pb\<rparr>\<rparr>"
  have "response_ok ?pb"
    by (simp add: response_ok_def FIFOfilebuf_inv_def Filebuf_appendable_def new_response_def healthy_def)
  then have i: "conn_inv ?c"
    by (simp add: conn_inv_def slow_receiving_def demo_slow_def slow_buffers_ok_def history_ok_def)
  have c: "\<not> fast_mode ?c" "response_buf (client ?c) = Some ?pb" by (simp_all add: demo_slow_def)
  have p: "pending_reply ?c = ''pong''" using c by (simp add: pending_reply_def new_response_def)
  from slow_response_sending [OF demo_world_inv i c] show ?thesis unfolding p by (simp add: idle_sock_def)
qed

section \<open>The history of a relaying connection\<close>

text \<open>
  C13: the history always holds the unfinished part of the request stream.  A chunk that contains
  the end of a message makes it the bytes after the last such end, any other chunk is appended,
  and a chunk that is not HTTP leaves it as it was.
\<close>

theorem history_holds_unfinished_request:
  assumes "llhttp_ok ll" "parser c = Some p" "HttpParser_inv p" "request_history (client c) = Some h"
    "Hybridbuf_inv h" "Hybridbuf_appendable h"
  shows "\<exists>c' p' ok h'. Client_keep_track_request_history ll c g = Inr (c', ok) \<and> HttpParser_do_parse ll p g = (p', ok)
    \<and> request_history (client c') = Some h' \<and> Hybridbuf_inv h' \<and> Hybridbuf_appendable h'
    \<and> Hybridbuf_stored h' = (if \<not> ok then Hybridbuf_stored h
         else case eom_last p' of None \<Rightarrow> Hybridbuf_stored h @ g | Some e \<Rightarrow> drop e g)"
  by (rule keep_track_spec [OF assms, where g = g]) fastforce

theorem history_holds_unfinished_request_witness:
  "\<exists>c' h'. Client_keep_track_request_history line_llhttp
       ((demo_slow idle_sock None False)\<lparr>client := (client (demo_slow idle_sock None False))\<lparr>request_history :=
          Some (small_hybridbuf ''old'' 3 0 [])\<rparr>\<rparr>) [CHR ''a'', CHR 0x0A, CHR ''b''] = Inr (c', True)
     \<and> request_history (client c') = Some h' \<and> Hybridbuf_stored h' = ''b''"
proof -
  let ?h = "small_hybridbuf ''old'' 3 0 []"
  let ?c = "(demo_slow idle_sock None False)\<lparr>client := (client (demo_slow idle_sock None False))\<lparr>request_history := Some ?h\<rparr>\<rparr>"
  have "parser ?c = Some (HttpParser_new line_llhttp)" "request_history (client ?c) = Some ?h"
    "Hybridbuf_inv ?h" "Hybridbuf_appendable ?h"
    by (simp_all add: demo_slow_def small_hybridbuf_def Hybridbuf_inv_def healthy_def Hybridbuf_appendable_def Hybridbuf_cursor_def)
  with two_lines_parsed history_holds_unfinished_request [OF line_llhttp_ok this(1) HttpParser_inv_reset(1) this(2-4),
      of "[CHR ''a'', CHR 0x0A, CHR ''b'']"] show ?thesis by fastforce
qed

section \<open>A response that overtakes its request\<close>

text \<open>
  C24: when the response is complete before the request file has been emptied (the last write
  event is still to come), the file keeps the request: the next request of the client is stored
  after it, and the server that is asked for the next request is sent the old one again first.
\<close>

theorem early_response_replays_request:
  assumes "llhttp_ok ll" "slow_serving c" "request_buf (client c) = Some rb" "fd_pos rb = length (content rb)"
    "Server_recv_to_buffer_slowly ll w c = Inr (w1, Live c1)" "server c1 = None" "parser c1 \<noteq> None"
    "Client_recv_to_buffer_slowly ll env w1 c1 = Inr (w2, Live c2)" "server c2 = Some sv2"
  shows "\<exists>rb2 new. request_buf (client c2) = Some rb2 \<and> fd_pos rb2 = 0 \<and> content rb2 = content rb @ new"
proof -
  have c1: "slow_receiving c1 \<and> request_buf (client c1) = Some rb"
  proof (rule server_recv_unfold [OF assms(2), where ll = ll and w = w], goal_cases)
    case (1 sv pb pb1 d stat ssk p p1 ok c1' w2' c2' c3)
    have c2': "c2' = snd (Connection_free_server w c1')" using 1(12) by (metis snd_conv)
    have ok: ok
    proof (rule ccontr)
      assume "\<not> ok"
      with 1(13,14) assms(5,7) show False
        by (auto simp: delete_not_live delete_not_live [THEN not_sym] Connection_free_parser_def split: if_splits)
    qed
    have "c1 = c2'\<lparr>parser := Some (HttpParser_switch_to_request_mode ll p1), client := Client_resume_r (client c2')\<rparr>"
      using 1(11,14) assms(5,6) ok by (auto split: if_splits)
    with assms(2,3) 1(3,11) c2' show ?case
      by (auto simp: slow_receiving_def slow_serving_def slow_buffers_ok_def client_ops)
  qed
  then obtain p where p: "parser c1 = Some p" "HttpParser_inv p" by (auto simp: slow_receiving_def)
  obtain d stat sk where r: "read_all (c_sock (client c1)) SOCK_IO_BUF_SIZE = (d, stat, sk)"
    by (cases "read_all (c_sock (client c1)) SOCK_IO_BUF_SIZE")
  have g: "length d \<le> SOCK_IO_BUF_SIZE" using read_all_spec(2,3) [OF r] by simp
  obtain p1 ok where pr: "HttpParser_do_parse ll p d = (p1, ok)" by (cases "HttpParser_do_parse ll p d")
  have eof: "\<not> has_eof stat" using assms(8) r g by (auto simp: Client_recv_to_buffer_slowly_def delete_not_live)
  have x: "ok \<and> (\<exists>k. eom_first p1 = Some k)"
    using assms(6,8,9) r g eof p(1) pr
    by (auto simp: Client_recv_to_buffer_slowly_def Connection_free_parser_def delete_not_live Let_def
        elim!: bindE_InrE split: if_splits option.splits)
  then obtain k where k: "HttpParser_do_parse ll p d = (p1, True)" "eom_first p1 = Some k" using pr by auto
  show ?thesis
  proof (rule recv_slowly_complete_unfold [OF assms(1) _ r eof p k, where w = w1 and env = env], goal_cases)
    case (2 rb0 tb rb2 tb1 cl2 c2')
    have "rb0 = rb" using 2(1) c1 by simp
    moreover have "request_buf (client c2) = Some rb2"
      using assms(8) unfolding 2(11)
      by (auto simp: 2(9,10) client_ops delete_not_live elim!: bindE_InrE split: option.splits)
    ultimately show ?case using 2(4,5) assms(4) by auto
  qed (use c1 in blast)
qed

text \<open>A connection whose server answers while the request file holds \<open>rb\<close>, with or without a pending write event.\<close>

definition answering :: "filebuf \<Rightarrow> bool \<Rightarrow> unit connection" where
  "answering rb b = (let c = demo_slow two_lines (Some ((demo_server two_lines None)\<lparr>s_write_evt := b\<rparr>)) False
     in c\<lparr>client := (client c)\<lparr>request_buf := Some rb\<rparr>\<rparr>)"

definition file_of :: "char list \<Rightarrow> filebuf" where
  "file_of d = new_file\<lparr>content := d, fd_pos := length d, data_size := of_nat (length d)\<rparr>"

lemma answering_serving: "slow_serving (answering (file_of d) b)"
  by (simp add: answering_def Let_def slow_serving_def demo_slow_def demo_server_def slow_buffers_ok_def)
    (simp add: file_of_def file_wf_def new_file_def healthy_def)

lemma answering_response:
  obtains w1 c1 where "Server_recv_to_buffer_slowly line_llhttp demo_world (answering (file_of d) b) = Inr (w1, Live c1)" "world_inv w1"
    "server c1 = None" "c_sock (client c1) = two_lines" "slow_receiving c1"
proof -
  obtain p1 where p1: "HttpParser_do_parse line_llhttp (HttpParser_new line_llhttp) [CHR ''a'', CHR 0x0A, CHR ''b''] = (p1, True)"
    "eom_last p1 = Some 2" using line_parsed [OF HttpParser_inv_reset(1), of line_llhttp] by blast
  obtain pb where pb: "vt_store FIFOfilebuf_vt new_response [CHR ''a'', CHR 0x0A, CHR ''b''] = Inr pb" "response_ok pb"
    using response_store [OF new_files(5)] by blast
  have r: "read_all two_lines SOCK_IO_BUF_SIZE = ([CHR ''a'', CHR 0x0A, CHR ''b''], \<lparr>nbytes = 3, has_error = True, has_eof = False\<rparr>,
      two_lines\<lparr>rx := [], received := received two_lines @ [CHR ''a'', CHR 0x0A, CHR ''b''], sock_errno := EAGAIN\<rparr>)"
    using read_all_chunk [of two_lines "[CHR ''a'', CHR 0x0A, CHR ''b'']" SOCK_IO_BUF_SIZE]
    by (simp add: two_lines_def SOCK_IO_BUF_SIZE_def)
  let ?r = "Server_recv_to_buffer_slowly line_llhttp demo_world (answering (file_of d) b)"
  have "\<exists>w1 c1. ?r = Inr (w1, Live c1) \<and> world_inv w1 \<and> server c1 = None \<and> c_sock (client c1) = two_lines \<and> slow_receiving c1"
    using r p1 pb answering_serving [of d b]
    by (simp add: Server_recv_to_buffer_slowly_def answering_def demo_slow_def demo_server_def Let_def client_ops
        Connection_free_server_def SOCK_IO_BUF_SIZE_def slow_serving_def slow_receiving_def slow_buffers_ok_def)
  with that show thesis by blast
qed

theorem early_response_replays_request_witness:
  "\<exists>w1 c1 w2 c2 rb2 new. Server_recv_to_buffer_slowly line_llhttp demo_world (answering (file_of ''old'') True) = Inr (w1, Live c1)
     \<and> Client_recv_to_buffer_slowly line_llhttp good_env w1 c1 = Inr (w2, Live c2)
     \<and> request_buf (client c2) = Some rb2 \<and> fd_pos rb2 = 0 \<and> content rb2 = ''old'' @ new"
proof -
  obtain w1 c1 where c1: "Server_recv_to_buffer_slowly line_llhttp demo_world (answering (file_of ''old'') True) = Inr (w1, Live c1)" "world_inv w1"
    "server c1 = None" "c_sock (client c1) = two_lines" "slow_receiving c1" by (rule answering_response)
  then obtain p where p: "parser c1 = Some p" "HttpParser_inv p" by (auto simp: slow_receiving_def)
  obtain stat sk where r: "read_all (c_sock (client c1)) SOCK_IO_BUF_SIZE = ([CHR ''a'', CHR 0x0A, CHR ''b''], stat, sk)"
    "\<not> has_eof stat" using two_lines_parsed c1(4) by auto
  obtain p1 where p1: "HttpParser_do_parse line_llhttp p [CHR ''a'', CHR 0x0A, CHR ''b''] = (p1, True)" "eom_first p1 = Some 2"
    using line_parsed [OF p(2)] by blast
  obtain w2 where s: "Server_new good_env w1 = Inr (w2, Some \<lparr>s_sock = idle_sock, s_read_evt = False,
        s_read_timeout = False, s_write_evt = False, s_queued_output = None\<rparr>)" using good_env_server [OF c1(2)] .
  obtain c2 sv2 where c2: "Client_recv_to_buffer_slowly line_llhttp good_env w1 c1 = Inr (w2, Live c2)" "server c2 = Some sv2"
    by (rule recv_slowly_complete_unfold [OF line_llhttp_ok c1(5) r p p1, where w = w1 and env = good_env]) (simp add: s)
  have "request_buf (client (answering (file_of ''old'') True)) = Some (file_of ''old'')" by (simp add: answering_def Let_def)
  from early_response_replays_request [OF line_llhttp_ok answering_serving this _ c1(1,3) _ c2] p(1) c1(1) c2(1)
  show ?thesis by (fastforce simp: file_of_def)
qed



section \<open>The monitor\<close>

text \<open>
  The newbie guarantee.  With the initial value of the counters a new connection passes its
  first tick and stays in fast mode, whatever it has transferred up to then (below 2^62 bytes in
  each direction, so that the 64-bit sum does not wrap).
\<close>

theorem newbie_passes_first_tick:
  assumes "env_ok env" "world_inv w" "conn_inv c" "fast_mode c" "r < 2 ^ 62" "s < 2 ^ 62"
    "read_count (client c) = of_nat COUNTER_INIT + of_nat r" "write_count (client c) = of_nat COUNTER_INIT + of_nat s"
  shows "\<exists>w' c'. monitor_connection ll env w c = Inr (w', Live c') \<and> fast_mode c'"
proof -
  have n: "min_down = of_nat 1000" "min_dtr = of_nat 20480" "COUNTER_INIT = 21480"
    by (simp_all add: min_down_def min_dtr_def COUNTER_INIT_def MIN_DOWNLOAD_SPEED_def MONITOR_INTERVAL_def DTR_THRESHOLD_def)
  have rc: "read_count (client c) = of_nat (21480 + r)" "write_count (client c) = of_nat (21480 + s)"
    using assms(7,8) n(3) by simp_all
  have le: "(of_nat a :: 64 word) \<le> of_nat b" if "a \<le> b" "b < 2 ^ 64" for a b
    using that unat_of_nat_small [where 'a = 64, of a] unat_of_nat_small [where 'a = 64, of b] by (simp add: word_le_nat_alt)
  have "min_down \<le> read_count (client c)" unfolding rc n(1) using assms(5) by (intro le) simp_all
  moreover have "read_count (client c) + write_count (client c) = of_nat (42960 + r + s)" unfolding rc by simp
  moreover have "min_dtr \<le> of_nat (42960 + r + s)" unfolding n(2) using assms(5,6) by (intro le) simp_all
  ultimately have "min_down \<le> read_count (client c)" "min_dtr \<le> read_count (client c) + write_count (client c)" by simp_all
  with assms(4) show ?thesis by (auto simp: monitor_connection_def not_less [symmetric])
qed

theorem newbie_passes_first_tick_witness:
  "\<exists>st c w' c'. reachable line_llhttp st \<and> map_of (pconns st) 0 = Some c
     \<and> monitor_connection line_llhttp good_env (pworld st) c = Inr (w', Live c') \<and> fast_mode c'"
proof -
  obtain st :: "unit proxy" and h where st: "reachable line_llhttp st" "proxy_inv st" "pconns st = [(0, new_conn idle_sock h)]"
    "clean_history h" by (rule first_connection [OF good_env_ok(2)])
  let ?c = "new_conn idle_sock h :: unit connection"
  have c: "map_of (pconns st) 0 = Some ?c" using st(3) by simp
  have "fast_mode ?c" "(0 :: nat) < 2 ^ 62" "read_count (client ?c) = of_nat COUNTER_INIT + of_nat 0"
    "write_count (client ?c) = of_nat COUNTER_INIT + of_nat 0" by (simp_all add: new_conn_def new_client_def)
  from newbie_passes_first_tick [OF good_env_ok(1) proxy_invD(1) [OF st(2)] proxy_invD(3) [OF st(2) c] this(1,2,2,3,4), of line_llhttp]
    st(1) c show ?thesis by blast
qed

section \<open>Accepting\<close>

text \<open>
  C30: a new client is refused exactly if there are \<open>MAX_CONNECTION\<close> connections.  A refused client
  is sent the 503 page and closed, and nothing else changes; an accepted one starts in fast mode
  with an empty history, and only its read event is pending.
\<close>

theorem accept_refuses_iff_full:
  assumes "env_ok env" "world_inv w"
  shows "if MAX_CONNECTION \<le> connection_count w
    then \<exists>n sk'. reply_with_503_unavailable (e_503 env) sk = Inr (n, sk')
      \<and> Connection_accept_new env w (Some sk) = Inr (w, Inl (close_socket_gracefully sk') :: sock + 'p connection)
    else \<exists>w' h. Connection_accept_new env w (Some sk) = Inr (w', Inr (new_conn sk h :: 'p connection)) \<and> clean_history h
      \<and> conn_inv (new_conn sk h :: 'p connection) \<and> connection_count w' = connection_count w + 1"
proof (cases "MAX_CONNECTION \<le> connection_count w")
  case True
  obtain n sk' where "reply_with_503_unavailable (e_503 env) sk = Inr (n, sk')"
    using assms(1) reply_503_safe unfolding env_ok_def by blast
  with True assms(1) show ?thesis by (auto simp: Connection_accept_new_def env_ok_def)
next
  case False
  obtain w' h where "(Connection_accept_new env w (Some sk) :: (world \<times> (sock + 'p connection)) res) = Inr (w', Inr (new_conn sk h))"
    "clean_history h" "connection_count w' = connection_count w + 1"
    by (rule accept_new_safe [OF assms, where sk = sk]) (use False in \<open>auto simp: new_conn_def\<close>)
  moreover from this(2) have "conn_inv (new_conn sk h :: 'p connection)" using accepted_inv by (auto simp: new_conn_def)
  ultimately show ?thesis using False by auto
qed

theorem accept_refuses_iff_full_witness:
  "(\<exists>w' h. Connection_accept_new good_env demo_world (Some idle_sock) = Inr (w', Inr (new_conn idle_sock h :: unit connection)))
   \<and> (\<exists>sk'. Connection_accept_new good_env (demo_world\<lparr>connection_count := MAX_CONNECTION\<rparr>) (Some idle_sock)
        = Inr (demo_world\<lparr>connection_count := MAX_CONNECTION\<rparr>, Inl sk' :: sock + unit connection))"
proof -
  have "world_inv (demo_world\<lparr>connection_count := MAX_CONNECTION\<rparr>)" by simp
  from accept_refuses_iff_full [OF good_env_ok(1) this, of idle_sock, where 'p = unit]
    accept_refuses_iff_full [OF good_env_ok(1) demo_world_inv, of idle_sock, where 'p = unit]
  show ?thesis by (auto simp: demo_world_def MAX_CONNECTION_def)
qed

end
