(* ===== verification/Requests.thy ===== *)
theory Requests
  imports Steps Transfers
begin

text \<open>
  The request stream of a connection in slow mode, end to end: from the part of a request the
  history held at the switch, through the two request files, to the servers that are opened one
  after the other.  Nothing is lost, repeated or reordered as long as no response overtakes its
  request; what happens then is a theorem of \<open>Transfers\<close>.
\<close>

section \<open>The stream\<close>

text \<open>What each server of the connection was sent, in the order in which they were opened.\<close>

definition sents :: "'p connection \<Rightarrow> char list list" where
  "sents c = map sent (rev (past_servers c)) @ (case server c of None \<Rightarrow> [] | Some sv \<Rightarrow> [sent (s_sock sv)])"

text \<open>A request is being sent: the server's write event is pending.\<close>

definition sending :: "'p connection \<Rightarrow> bool" where
  "sending c \<longleftrightarrow> \<not> in_transition c \<and> (case server c of None \<Rightarrow> False | Some sv \<Rightarrow> s_write_evt sv)"

definition unsent :: "'p connection \<Rightarrow> char list" where
  "unsent c =
     (case request_buf (client c) of None \<Rightarrow> []
      | Some rb \<Rightarrow> (case request_tmp_buf (client c) of None \<Rightarrow> []
        | Some tb \<Rightarrow> if sending c then drop (fd_pos rb) (content rb) @ content tb else content rb))"

definition request_stream :: "nat \<Rightarrow> 'p connection \<Rightarrow> char list" where
  "request_stream k c = concat (drop k (sents c)) @ unsent c"

text \<open>The files while no response has overtaken its request.\<close>

definition files_ok :: "'p connection \<Rightarrow> bool" where
  "files_ok c \<longleftrightarrow>
     (\<exists>rb tb. request_buf (client c) = Some rb \<and> request_tmp_buf (client c) = Some tb
        \<and> (if sending c then fd_pos tb = length (content tb)
           else fd_pos rb = length (content rb) \<and> content tb = []))"

text \<open>The servers from the \<open>k\<close>-th on are servers of slow mode.\<close>

definition slow_from :: "nat \<Rightarrow> 'p connection \<Rightarrow> bool" where
  "slow_from k c \<longleftrightarrow> (if in_transition c then k = length (past_servers c) + 1 \<and> server c \<noteq> None else k \<le> length (past_servers c))"

definition relays :: "nat \<Rightarrow> 'p connection \<Rightarrow> 'p connection \<Rightarrow> bool" where
  "relays k c c' \<longleftrightarrow> files_ok c' \<and> slow_from k c'
     \<and> (\<exists>d. received (c_sock (client c')) = received (c_sock (client c)) @ d
          \<and> request_stream k c' = request_stream k c @ d)"

lemma relays_refl: "files_ok c \<Longrightarrow> slow_from k c \<Longrightarrow> relays k c c"
  by (simp add: relays_def)

lemma relays_trans: "relays k c c' \<Longrightarrow> relays k c' c'' \<Longrightarrow> relays k c c''"
  by (auto simp: relays_def)

text \<open>The parts of a connection the stream depends on.\<close>

definition same_request :: "'p connection \<Rightarrow> 'p connection \<Rightarrow> bool" where
  "same_request c c' \<longleftrightarrow> request_buf (client c') = request_buf (client c)
     \<and> request_tmp_buf (client c') = request_tmp_buf (client c) \<and> in_transition c' = in_transition c
     \<and> map sent (past_servers c') = map sent (past_servers c)
     \<and> map_option (\<lambda>sv. (sent (s_sock sv), s_write_evt sv)) (server c') =
       map_option (\<lambda>sv. (sent (s_sock sv), s_write_evt sv)) (server c)
     \<and> received (c_sock (client c')) = received (c_sock (client c))"

lemma same_request_parts:
  assumes "same_request c c'"
  shows "sents c' = sents c" "sending c' = sending c" "unsent c' = unsent c" "files_ok c' = files_ok c"
    "slow_from k c' = slow_from k c"
proof -
  let ?f = "\<lambda>sv. (sent (s_sock sv), s_write_evt sv)"
  from assms have e: "map sent (past_servers c') = map sent (past_servers c)" "map_option ?f (server c') = map_option ?f (server c)"
    and t: "in_transition c' = in_transition c" "request_buf (client c') = request_buf (client c)"
      "request_tmp_buf (client c') = request_tmp_buf (client c)" unfolding same_request_def by blast+
  have n: "length (past_servers c') = length (past_servers c)" using e(1) by (rule map_eq_imp_length_eq)
  have sv: "(case server c' of None \<Rightarrow> [] | Some sv \<Rightarrow> [sent (s_sock sv)]) = (case server c of None \<Rightarrow> [] | Some sv \<Rightarrow> [sent (s_sock sv)])"
    "(case server c' of None \<Rightarrow> False | Some sv \<Rightarrow> s_write_evt sv) = (case server c of None \<Rightarrow> False | Some sv \<Rightarrow> s_write_evt sv)"
    "server c' = None \<longleftrightarrow> server c = None"
    using e(2) by (cases "server c"; cases "server c'"; simp)+
  show s: "sents c' = sents c" "sending c' = sending c"
    by (simp_all only: sents_def sending_def rev_map [symmetric] e(1) sv t)
  show "unsent c' = unsent c" "files_ok c' = files_ok c" "slow_from k c' = slow_from k c"
    by (simp_all only: unsent_def files_ok_def slow_from_def n sv(3) s t)
qed

lemma same_request_relays: "same_request c c' \<Longrightarrow> files_ok c \<Longrightarrow> slow_from k c \<Longrightarrow> relays k c c'"
  using same_request_parts [of c c'] by (simp add: relays_def request_stream_def) (simp add: same_request_def)

lemma same_request_refl [simp]: "same_request c c"
  by (simp add: same_request_def)

section \<open>Operations that do not touch the requests\<close>

lemma send_response_same_request:
  assumes "slow_conn c" "Client_send_response_slowly w c = Inr (w', Live c')"
  shows "same_request c c'"
proof (rule send_response_unfold [OF assms(1), where w = w], goal_cases)
  case (1 pb d pb1 sk pb2 c1)
  from assms(2) 1(8,10,11) show ?case by (auto simp: delete_not_live same_request_def split: if_splits)
qed

lemma transition_readable_relays:
  assumes trans: "slow_transition c" and f: "files_ok c" "slow_from k c"
    and run: "Server_on_readable ll t w c = Inr (w', Live c')"
  shows "relays k c c'"
proof -
  from trans obtain sv pb where c: "\<not> fast_mode c" "in_transition c" "server c = Some sv"
    "response_buf (client c) = Some pb" "response_ok pb"
    by (auto simp: slow_transition_def slow_buffers_ok_def)
  obtain x stat ssk where r: "read_all (s_sock sv) SOCK_IO_BUF_SIZE = (x, stat, ssk)"
    by (cases "read_all (s_sock sv) SOCK_IO_BUF_SIZE")
  note rs = read_all_spec [OF r]
  obtain pb1 where s: "vt_store FIFOfilebuf_vt pb x = Inr pb1" by (rule response_store [OF c(5)])
  have ended: "relays k c c'" if "sent s1 = sent (s_sock sv)" "past_servers c' = close_socket_gracefully s1 # past_servers c"
    "server c' = None" "\<not> in_transition c'" "request_buf (client c') = request_buf (client c)"
    "request_tmp_buf (client c') = request_tmp_buf (client c)" "c_sock (client c') = c_sock (client c)" for s1
  proof -
    have "sents c' = sents c" using that c(3) by (simp add: sents_def close_socket_gracefully_spec)
    moreover have "\<not> sending c'" "\<not> sending c" using that c by (simp_all add: sending_def)
    ultimately show ?thesis using that c f by (auto simp: relays_def request_stream_def files_ok_def slow_from_def unsent_def)
  qed
  have len: "length x \<le> SOCK_IO_BUF_SIZE" using rs(2,3) by simp
  from run c r s len consider s1 where "sent s1 = sent (s_sock sv)" "past_servers c' = close_socket_gracefully s1 # past_servers c"
      "server c' = None" "\<not> in_transition c'" "request_buf (client c') = request_buf (client c)"
      "request_tmp_buf (client c') = request_tmp_buf (client c)" "c_sock (client c') = c_sock (client c)"
    | "same_request c c'"
    using rs(6) by (auto simp: Server_on_readable_def Let_def Connection_free_server_def Connection_set_transition_done_def
        client_ops same_request_def split: if_splits)
  then show ?thesis using ended same_request_relays [OF _ f] by cases blast+
qed

lemma transition_writable_relays:
  assumes trans: "slow_transition c" and f: "files_ok c" "slow_from k c"
    and run: "Server_on_writable w c = Inr (w', Live c')"
  shows "relays k c c'"
proof -
  from trans have c: "\<not> fast_mode c" "in_transition c" by (simp_all add: slow_transition_def)
  with run have c': "client c' = client c" "past_servers c' = past_servers c" "in_transition c'" "server c' \<noteq> None"
    by (auto simp: Server_on_writable_def Let_def elim!: bindE_InrE split: if_splits)
  then have "\<not> sending c'" "\<not> sending c" using c by (simp_all add: sending_def)
  moreover have "length (sents c') = k" "length (sents c) = k"
    using f(2) c c' by (auto simp: slow_from_def sents_def)
  ultimately show ?thesis using c c' f
    by (auto simp: relays_def request_stream_def files_ok_def slow_from_def unsent_def)
qed

section \<open>Receiving, sending, answering\<close>

lemma recv_slowly_relays:
  assumes ll: "llhttp_ok ll" and env: "env_ok env" and recv: "slow_receiving c" and f: "files_ok c" "slow_from k c"
    and run: "Client_recv_to_buffer_slowly ll env w c = Inr (w', Live c')" and alive: "parser c' \<noteq> None"
  shows "relays k c c'"
proof -
  obtain d stat sk where r: "read_all (c_sock (client c)) SOCK_IO_BUF_SIZE = (d, stat, sk)"
    by (cases "read_all (c_sock (client c)) SOCK_IO_BUF_SIZE")
  note rs = read_all_spec [OF r]
  have g: "length d \<le> SOCK_IO_BUF_SIZE" using rs(2,3) by simp
  from recv obtain p where p: "parser c = Some p" "HttpParser_inv p" and c: "server c = None" "\<not> in_transition c"
    by (auto simp: slow_receiving_def)
  from f(1) c obtain rb tb where b: "request_buf (client c) = Some rb" "request_tmp_buf (client c) = Some tb"
    "fd_pos rb = length (content rb)" "content tb = []" by (auto simp: files_ok_def sending_def)
  have "file_wf tb" "file_wf rb" using recv b(1,2) by (auto simp: slow_receiving_def slow_buffers_ok_def)
  then have tb: "fd_pos tb = 0" and wf: "file_wf rb" using b(4) by (simp_all add: file_wf_def)
  obtain p1 ok where pr: "HttpParser_do_parse ll p d = (p1, ok)" by (cases "HttpParser_do_parse ll p d")
  have eof: "\<not> has_eof stat" using run r g by (auto simp: Client_recv_to_buffer_slowly_def delete_not_live)
  have ok: ok
    using run r g eof p(1) pr alive
    by (auto simp: Client_recv_to_buffer_slowly_def Connection_free_parser_def delete_not_live Let_def
        elim!: bindE_InrE split: if_splits)
  have u: "sents c = map sent (rev (past_servers c))" "unsent c = content rb" "\<not> sending c"
    using b c by (simp_all add: sents_def unsent_def sending_def)
  show ?thesis
  proof (cases "eom_first p1")
    case None
    obtain rb1 where s1: "Filebuf_file_write rb d = Inr rb1" "content rb1 = content rb @ d" "fd_pos rb1 = length (content rb1)"
      using file_wf_write [OF wf, of d] b(3) by (metis file_put_at_end length_append)
    from run r g eof p(1) pr ok b(1) s1(1) None have c': "c' = c\<lparr>client := (client c)\<lparr>c_sock := sk, request_buf := Some rb1\<rparr>, parser := Some p1\<rparr>"
      by (simp add: Client_recv_to_buffer_slowly_def Filebuf_vt_def)
    then have "sents c' = sents c" "\<not> sending c'" using c by (simp_all add: sents_def sending_def)
    with c' b s1 f(2) u rs(1) show ?thesis
      by (auto simp: relays_def request_stream_def files_ok_def slow_from_def unsent_def)
  next
    case (Some n)
    from pr ok have pr1: "HttpParser_do_parse ll p d = (p1, True)" by simp
    show ?thesis
    proof (rule recv_slowly_complete_unfold [OF ll recv r eof p pr1 Some, where w = w and env = env], goal_cases)
      case (1 rb0 tb0 rb2 tb1 cl2 c2)
      have bb: "rb0 = rb" "tb0 = tb" using 1(1,2) b by simp_all
      have n: "content rb2 = content rb @ take n d" "content tb1 = drop n d" "fd_pos tb1 = length (content tb1)"
        using 1(4,7,8) b(3,4) tb file_put_at_end [of "[]" "drop n d"] unfolding bb by simp_all
      from run obtain w1 sv where sv: "Server_new env w = Inr (w1, Some sv)"
        "c' = c2\<lparr>server := Some (sv\<lparr>s_write_evt := True, s_read_evt := True\<rparr>)\<rparr>"
        unfolding 1(11) by (auto simp: delete_not_live elim!: bindE_InrE split: option.splits)
      have "sent (s_sock sv) = []"
        using sv(1) env by (auto simp: Server_new_def Let_def env_ok_def fresh_sock_def elim!: bindE_InrE split: if_splits)
      then have "sents c' = sents c @ [[]]" "sending c'" "past_servers c' = past_servers c" "\<not> in_transition c'"
        using sv(2) c u by (simp_all add: 1(10) sents_def sending_def)
      moreover have "request_buf (client c') = Some rb2" "request_tmp_buf (client c') = Some tb1" "c_sock (client c') = sk"
        using sv(2) by (simp_all add: 1(9,10) client_ops)
      moreover have "k \<le> length (sents c)" using f(2) c u by (simp add: slow_from_def)
      ultimately show ?case using f(2) c u n 1(5) rs(1)
        by (auto simp: relays_def request_stream_def files_ok_def slow_from_def unsent_def)
    qed
  qed
qed

lemma send_request_relays:
  assumes serv: "slow_serving c" and f: "files_ok c" "slow_from k c" and send: "sending c"
    and run: "Server_send_request_slowly w c = Inr (w', Live c')"
  shows "relays k c c'"
proof (rule send_request_unfold [OF serv, where w = w], goal_cases)
  case (1 sv rb tb d rb2 ssk rb3)
  from serv have c: "\<not> in_transition c" by (simp add: slow_serving_def)
  from f(1) send 1(2,4) have tb: "fd_pos tb = length (content tb)" by (auto simp: files_ok_def)
  have s: "sents c = map sent (rev (past_servers c)) @ [sent (s_sock sv)]" "unsent c = drop (fd_pos rb) (content rb) @ content tb"
    using 1(1,2,4) send by (simp_all add: sents_def unsent_def)
  have k: "k \<le> length (past_servers c)" using f(2) c by (simp add: slow_from_def)
  show ?case
  proof (cases "d = []")
    case True
    then have "drop (fd_pos rb) (content rb) = []" using 1(6) by (simp add: SOCK_IO_BUF_SIZE_def)
    moreover have c': "c' = c\<lparr>server := Some (sv\<lparr>s_write_evt := False\<rparr>),
        client := (client c)\<lparr>request_buf := Some tb, request_tmp_buf := Some rb2\<rparr>\<rparr>" using run 1(13) True by simp
    then have "sents c' = sents c" "\<not> sending c'" using s by (simp_all add: sents_def sending_def)
    ultimately show ?thesis using c' c s k tb 1(8)
      by (auto simp: relays_def request_stream_def files_ok_def slow_from_def unsent_def)
  next
    case False
    with run 1(13) have c': "c' = c\<lparr>server := Some (sv\<lparr>s_sock := ssk\<rparr>), client := (client c)\<lparr>request_buf := Some rb3\<rparr>\<rparr>" by simp
    then have "sents c' = map sent (rev (past_servers c)) @ [sent ssk]" "sending c'"
      using send 1(1) by (simp_all add: sents_def sending_def)
    with c' c s k tb 1(4,12) show ?thesis
      by (auto simp: relays_def request_stream_def files_ok_def slow_from_def unsent_def)
  qed
qed

text \<open>A response overtakes its request: the server is closed while the request is still being sent.\<close>

definition answered_early :: "'p connection \<Rightarrow> 'p connection \<Rightarrow> bool" where
  "answered_early c c' \<longleftrightarrow> \<not> fast_mode c \<and> sending c \<and> server c' = None \<and> parser c' \<noteq> None"

lemma server_recv_relays:
  assumes serv: "slow_serving c" and f: "files_ok c" "slow_from k c"
    and run: "Server_recv_to_buffer_slowly ll w c = Inr (w', Live c')" and alive: "parser c' \<noteq> None" "\<not> answered_early c c'"
  shows "relays k c c'"
proof (rule server_recv_unfold [OF serv, where w = w and ll = ll], goal_cases)
  case (1 sv pb pb1 d stat ssk p p1 ok c1 w2 c2 c3)
  have same: "same_request c c1" using 1(1,7,11) by (simp add: same_request_def client_ops)
  have c2: "c2 = snd (Connection_free_server w c1)" using 1(12) by (metis snd_conv)
  from run alive(1) 1(13,14) consider "c' = c1\<lparr>parser := Some p1\<rparr>"
    | "c' = c2\<lparr>parser := Some (HttpParser_switch_to_request_mode ll p1), client := Client_resume_r (client c2)\<rparr>"
    by (auto simp: delete_not_live Connection_free_parser_def split: if_splits)
  then show ?case
  proof cases
    case a: 1
    have "same_request c c'" using same a by (simp add: same_request_def)
    then show ?thesis using f by (rule same_request_relays)
  next
    case b: 2
    then have c': "server c' = None" "past_servers c' = close_socket_gracefully ssk # past_servers c" "client c' = Client_resume_r (client c1)"
      "in_transition c' = in_transition c"
      using 1(11) by (simp_all add: c2 Connection_free_server_def)
    then have ns: "\<not> sending c" "\<not> sending c'" using alive serv by (auto simp: answered_early_def sending_def slow_serving_def)
    have "sents c' = sents c" using c' 1(1,7) by (simp add: sents_def close_socket_gracefully_spec)
    with ns f c' same serv show ?thesis
      by (auto simp: relays_def request_stream_def files_ok_def slow_from_def unsent_def client_ops same_request_def slow_serving_def)
  qed
qed

section \<open>One event\<close>

lemma slow_reply_stays:
  assumes "llhttp_ok ll" "world_inv w" "conn_inv c" "\<not> fast_mode c" "parser c = None" "conn_event ll w c w' (Live c')"
  shows "parser c' = None"
proof -
  have "slow_reply c" using assms(3-5) by (auto simp: conn_inv_def mode_defs)
  then have "mode_of c = Slow_reply" using conn_inv_mode(7) [OF assms(3)] by simp
  with conn_event_mode [OF assms(1-3,6)] have "mode_of c' = Slow_reply" by (simp add: mode_step_def mode_succs_def)
  then show ?thesis by (simp add: mode_of_def split: if_splits)
qed

lemma same_request_counts: "same_request c (c\<lparr>client := (client c)\<lparr>read_count := r, write_count := n\<rparr>\<rparr>)"
  by (simp add: same_request_def)

lemma conn_event_relays:
  assumes ll: "llhttp_ok ll" and w: "world_inv w" and c: "conn_inv c" "\<not> fast_mode c" "files_ok c" "slow_from k c"
    and ev: "conn_event ll w c w' (Live c')" and c': "parser c' \<noteq> None" "\<not> answered_early c c'"
  shows "relays k c c'"
proof -
  have "parser c \<noteq> None" using slow_reply_stays [OF ll w c(1,2) _ ev] c'(1) by blast
  then have p: "\<not> slow_reply c" by (simp add: slow_reply_def)
  from c(1,2) have slow: "slow_conn c" using slow_conn_inv by blast
  with p consider (switching) "slow_transition c" | (receiving) "slow_receiving c" | (serving) "slow_serving c"
    by (auto simp: slow_conn_def)
  note modes = this
  from ev show ?thesis
  proof cases
    case (readable env)
    with c(1,2) slow p have "slow_receiving c" by (auto simp: slow_conn_def slow_transition_def slow_serving_def)
    with readable c(2) recv_slowly_relays [OF ll readable(1) _ c(3,4) _ c'(1)] show ?thesis by (simp add: Client_on_readable_def)
  next
    case writable
    with c(2) send_response_same_request [OF slow] have "same_request c c'" by (simp add: Client_on_writable_def)
    then show ?thesis using c(3,4) by (rule same_request_relays)
  next
    case (server_readable t)
    from modes show ?thesis
    proof cases
      case switching
      from transition_readable_relays [OF switching c(3,4) server_readable(2)] show ?thesis .
    next
      case receiving
      with server_readable show ?thesis by (simp add: slow_receiving_def)
    next
      case serving
      then have "\<not> in_transition c" by (simp add: slow_serving_def)
      with server_readable(2) c(2) server_recv_relays [OF serving c(3,4) _ c'] show ?thesis by (simp add: Server_on_readable_def)
    qed
  next
    case (server_writable sv)
    from modes show ?thesis
    proof cases
      case switching
      from transition_writable_relays [OF switching c(3,4) server_writable(3)] show ?thesis .
    next
      case receiving
      with server_writable show ?thesis by (simp add: slow_receiving_def)
    next
      case serving
      then have "\<not> in_transition c" by (simp add: slow_serving_def)
      moreover from this have "sending c" using server_writable(1,2) by (simp add: sending_def)
      ultimately show ?thesis using server_writable(1,3) c(2) send_request_relays [OF serving c(3,4)]
        by (simp add: Server_on_writable_def)
    qed
  next
    case (tick env)
    with c(2) have "c' = c\<lparr>client := (client c)\<lparr>read_count := 0, write_count := 0\<rparr>\<rparr>"
      by (auto simp: monitor_connection_def Let_def delete_not_live split: if_splits)
    then show ?thesis using same_request_relays [OF same_request_counts c(3,4)] by simp
  next
    case (switch env)
    with c(2) have "c' = c" by (simp add: Connection_set_slow_mode_def)
    with c(3,4) show ?thesis by (simp add: relays_refl)
  qed
qed

text \<open>The switch prepares the files.\<close>

lemma set_slow_mode_files:
  assumes "env_ok env" "world_inv w" "conn_inv c" "fast_mode c" "Connection_set_slow_mode ll env w c = Inr (w', c')"
  shows "files_ok c'"
  using assms(3)
proof (cases rule: conn_inv_cases)
  case active
  show ?thesis
    by (rule set_slow_mode_active [OF assms(1,2) active, of ll])
      (use assms(5) in \<open>auto simp: files_ok_def sending_def slow_transition_def Filebuf_appendable_def\<close>)
next
  case slow
  with assms(4) show ?thesis by (blast elim: slow_connE)
next
  case fresh
  show ?thesis
    by (rule set_slow_mode_no_parser [OF assms(1,2) fresh(1) disjI1 [OF fresh(2)], of ll])
      (use assms(5) fresh in \<open>auto simp: files_ok_def sending_def fast_fresh_def new_file_def\<close>)
next
  case reply
  show ?thesis
    by (rule set_slow_mode_no_parser [OF assms(1,2) reply(1) disjI2 [OF reply(2)], of ll])
      (use assms(5) reply in \<open>auto simp: files_ok_def sending_def fast_reply_def new_file_def\<close>)
qed

lemma conn_event_leaves_fast:
  assumes "llhttp_ok ll" "world_inv w" "conn_inv c" "fast_mode c" "conn_event ll w c w' (Live c')" "\<not> fast_mode c'"
  obtains env w1 c1 where "env_ok env" "Connection_set_slow_mode ll env w c = Inr (w1, c1)"
    "c' = c1 \<or> c' = c1\<lparr>client := (client c1)\<lparr>read_count := 0, write_count := 0\<rparr>\<rparr>"
  using assms(5)
proof cases
  case (readable env)
  have "fast_mode c'" using client_readable_fast_mode [OF assms(1,3,4) readable(2,3)] by (auto simp: mode_of_fast)
  with assms(6) show thesis by simp
next
  case writable
  with client_writable_mode assms(4,6) show thesis by (auto simp: same_mode_def)
next
  case (server_readable t)
  with assms(3,4) have act: "history_ok (client c)" "fast_active c"
    by (auto simp: conn_inv_def fast_reply_def fast_fresh_def slow_transition_def slow_receiving_def slow_serving_def slow_reply_def)
  from server_readable assms(4) have "Connection_fast_forward_sc w c = Inr (w', Live c')" by (simp add: Server_on_readable_def)
  with fast_forward_sc_mode [OF act] assms(6) show thesis by (auto simp: mode_of_fast)
next
  case (server_writable sv)
  with server_writable_mode assms(4,6) show thesis by (auto simp: same_mode_def)
next
  case (tick env)
  then show thesis using assms(4,6) that [OF tick(1)]
    by (auto simp: monitor_connection_def Let_def delete_not_live elim!: bindE_InrE split: if_splits)
next
  case (switch env)
  with that show thesis by blast
qed

section \<open>Runs without overtaking\<close>

definition overtaken_in :: "nat \<Rightarrow> 'p proxy \<Rightarrow> 'p proxy \<Rightarrow> bool" where
  "overtaken_in i st st' \<longleftrightarrow>
     (case map_of (pconns st) i of None \<Rightarrow> False
      | Some c \<Rightarrow> (case map_of (pconns st') i of None \<Rightarrow> False | Some c' \<Rightarrow> answered_early c c'))"

inductive orderly_run :: "'p llhttp \<Rightarrow> nat \<Rightarrow> 'p proxy \<Rightarrow> event list \<Rightarrow> 'p proxy \<Rightarrow> bool" for ll i where
  stop: "orderly_run ll i st [] st"
| event: "event_ok ev \<Longrightarrow> enabled ev st \<Longrightarrow> dispatch ll ev st = Inr st1 \<Longrightarrow> \<not> overtaken_in i st st1 \<Longrightarrow>
     orderly_run ll i st1 evs st' \<Longrightarrow> orderly_run ll i st (ev # evs) st'"

inductive_simps orderly_run_simps [simp]: "orderly_run ll i st [] st'" "orderly_run ll i st (ev # evs) st'"

lemma orderly_run_append:
  "orderly_run ll i st (evs1 @ evs2) st' \<longleftrightarrow> (\<exists>st1. orderly_run ll i st evs1 st1 \<and> orderly_run ll i st1 evs2 st')"
  by (induction evs1 arbitrary: st) auto

lemma orderly_run_of: "orderly_run ll i st evs st' \<Longrightarrow> run_of ll st evs st'"
  by (induction rule: orderly_run.induct) (auto intro: run_of.intros)

text \<open>The files of connection \<open>i\<close> are in order, if it is in slow mode and still takes requests.\<close>

definition files_inv :: "nat \<Rightarrow> 'p proxy \<Rightarrow> bool" where
  "files_inv i st \<longleftrightarrow> (\<forall>c. map_of (pconns st) i = Some c \<longrightarrow> \<not> fast_mode c \<longrightarrow> parser c \<noteq> None \<longrightarrow> files_ok c)"

lemma slow_from_past: "conn_inv c \<Longrightarrow> \<not> fast_mode c \<Longrightarrow> slow_from (length (past_servers c) + (if in_transition c then 1 else 0)) c"
  by (auto simp: slow_from_def conn_inv_def mode_defs)

lemma files_ok_counts [simp]: "files_ok (c\<lparr>client := (client c)\<lparr>read_count := r, write_count := n\<rparr>\<rparr>) = files_ok c"
  using same_request_parts(4) [OF same_request_counts] .

lemma dispatch_relays:
  assumes ll: "llhttp_ok ll" and st: "proxy_inv st" and ev: "event_ok ev" "enabled ev st" "dispatch ll ev st = Inr st'"
    and c: "map_of (pconns st) i = Some c" "map_of (pconns st') i = Some c'" and o: "\<not> overtaken_in i st st'"
    and slow: "\<not> fast_mode c" "parser c' \<noteq> None" and f: "files_ok c" "slow_from k c"
  shows "relays k c c'"
proof -
  have inv: "conn_inv c" using st c(1) by (auto dest: proxy_invD)
  have ne: "\<not> answered_early c c'" using o c by (simp add: overtaken_in_def)
  from dispatch_moves [OF ll st ev c] consider "c' = c" | w w' where "world_inv w" "conn_event ll w c w' (Live c')"
    by (auto simp: conn_moves_def)
  then show ?thesis
  proof cases
    case 1
    with f show ?thesis by (simp add: relays_refl)
  next
    case 2
    from conn_event_relays [OF ll 2(1) inv slow(1) f 2(2) slow(2) ne] show ?thesis .
  qed
qed

lemma dispatch_files_inv:
  assumes ll: "llhttp_ok ll" and st: "proxy_inv st" and ev: "event_ok ev" "enabled ev st" "dispatch ll ev st = Inr st'"
    and o: "\<not> overtaken_in i st st'" and f: "files_inv i st"
  shows "files_inv i st'"
  unfolding files_inv_def
proof (intro allI impI)
  fix c' assume c': "map_of (pconns st') i = Some c'" "\<not> fast_mode c'" "parser c' \<noteq> None"
  show "files_ok c'"
  proof (cases "map_of (pconns st) i")
    case None
    obtain sk h where "c' = new_conn sk h" using dispatch_birth [OF st ev(1,3) None c'(1)] .
    with c'(2) show ?thesis by (simp add: new_conn_def)
  next
    case (Some c)
    have inv: "conn_inv c" using st Some by (auto dest: proxy_invD)
    from dispatch_moves [OF ll st ev Some c'(1)] consider "c' = c" | w w' where "world_inv w" "conn_event ll w c w' (Live c')"
      by (auto simp: conn_moves_def)
    then show ?thesis
    proof cases
      case 1
      with f Some c' show ?thesis by (auto simp: files_inv_def)
    next
      case 2
      show ?thesis
      proof (cases "fast_mode c")
        case True
        obtain env w1 c1 where s: "env_ok env" "Connection_set_slow_mode ll env w c = Inr (w1, c1)"
          "c' = c1 \<or> c' = c1\<lparr>client := (client c1)\<lparr>read_count := 0, write_count := 0\<rparr>\<rparr>"
          using conn_event_leaves_fast [OF ll 2(1) inv True 2(2) c'(2)] .
        from set_slow_mode_files [OF s(1) 2(1) inv True s(2)] s(3) show ?thesis by auto
      next
        case False
        with slow_reply_stays [OF ll 2(1) inv False _ 2(2)] c'(3) f Some have "files_ok c" by (auto simp: files_inv_def)
        from dispatch_relays [OF ll st ev Some c'(1) o False c'(3) this slow_from_past [OF inv False]]
        show ?thesis by (simp add: relays_def)
      qed
    qed
  qed
qed

lemma orderly_files_inv:
  assumes "orderly_run ll i st evs st'" "llhttp_ok ll" "reachable ll st" "files_inv i st"
  shows "files_inv i st'"
  using assms
proof (induction rule: orderly_run.induct)
  case (event ev st st1 evs st')
  note inv = reachable_proxy_inv [OF event.prems(1,2)]
  have "files_inv i st1" by (rule dispatch_files_inv [OF event.prems(1) inv event.hyps(1-4) event.prems(3)])
  moreover have "reachable ll st1" by (rule reachable.step [OF event.prems(2) event.hyps(1-3)])
  ultimately show ?case using event.IH event.prems(1) by blast
qed

lemma orderly_relays:
  assumes "orderly_run ll i st evs st'" "llhttp_ok ll" "reachable ll st" "map_of (pconns st) i = Some c" "\<not> fast_mode c"
    "map_of (pconns st') i = Some c'"
  shows "(parser c = None \<longrightarrow> parser c' = None) \<and> (parser c' \<noteq> None \<longrightarrow> files_ok c \<longrightarrow> slow_from k c \<longrightarrow> relays k c c')"
  using assms
proof (induction arbitrary: c rule: orderly_run.induct)
  case (stop st)
  then show ?case by (simp add: relays_refl)
next
  case (event ev st st1 evs st')
  note inv = reachable_proxy_inv [OF event.prems(1,2)]
  have r1: "reachable ll st1" by (rule reachable.step [OF event.prems(2) event.hyps(1-3)])
  have "i < next_id st" using inv event.prems(3) by (auto simp: proxy_inv_def)
  then have "i < next_id st1" using dispatch_next_id [OF event.hyps(3)] by simp
  with run_of_gone [OF orderly_run_of [OF event.hyps(5)]] event.prems(5) obtain c1 where c1: "map_of (pconns st1) i = Some c1"
    by (cases "map_of (pconns st1) i") auto
  have slow: "\<not> fast_mode c1" by (rule dispatch_stays_slow [OF inv event.hyps(3) event.prems(3,4) c1])
  note IH = event.IH [OF event.prems(1) r1 c1 slow event.prems(5)]
  have "conn_inv c" using inv event.prems(3) by (auto dest: proxy_invD)
  then have "parser c = None \<Longrightarrow> parser c1 = None"
    using dispatch_moves [OF event.prems(1) inv event.hyps(1-3) event.prems(3) c1] slow_reply_stays [OF event.prems(1)] event.prems(4)
    by (auto simp: conn_moves_def)
  moreover have "relays k c c'" if "parser c' \<noteq> None" "files_ok c" "slow_from k c"
  proof -
    have p: "parser c1 \<noteq> None" using IH that(1) by blast
    have "relays k c c1"
      by (rule dispatch_relays [OF event.prems(1) inv event.hyps(1-3) event.prems(3) c1 event.hyps(4) event.prems(4) p that(2,3)])
    moreover from this have "relays k c1 c'" using IH that(1) by (simp add: relays_def)
    ultimately show ?thesis by (rule relays_trans)
  qed
  ultimately show ?case using IH by blast
qed

text \<open>The servers a connection had before slow mode, or has while it switches.\<close>

definition earlier_servers :: "'p connection \<Rightarrow> nat" where
  "earlier_servers c = length (past_servers c) + (if in_transition c then 1 else 0)"

text \<open>
  C4: end to end, slow mode relays requests faithfully.  Take a connection in slow mode, at any
  moment from the switch on, and let the proxy run on, with no response overtaking its request:
  what the servers opened from then on (and the one at work, if any) were sent, one server after
  the other, followed by what is left in the two request files, is what it was at first followed
  by exactly the bytes the client sent since then.  At the switch this is the unfinished request
  the history held.  No byte is lost, duplicated or reordered, however the sockets cut the data
  and however many requests were pipelined.
\<close>

theorem slow_requests_relayed:
  assumes "llhttp_ok ll" "su_disk s = Some healthy_disk" "main_start s = Inr (Inr st0)" "orderly_run ll i st0 evs1 st"
    "map_of (pconns st) i = Some c" "\<not> fast_mode c" "orderly_run ll i st evs2 st'"
    "map_of (pconns st') i = Some c'" "parser c' \<noteq> None"
  shows "\<exists>d. received (c_sock (client c')) = received (c_sock (client c)) @ d
    \<and> request_stream (earlier_servers c) c' = request_stream (earlier_servers c) c @ d"
proof -
  have r0: "reachable ll st0" by (rule reachable.start [OF assms(2,3)])
  then have r: "reachable ll st" using run_of_reachable [OF orderly_run_of [OF assms(4)]] by blast
  have "files_inv i st0" using main_start_inv(2) [OF assms(2,3)] by (simp add: files_inv_def)
  then have f: "files_inv i st" by (rule orderly_files_inv [OF assms(4,1) r0])
  have inv: "conn_inv c" using reachable_proxy_inv [OF assms(1) r] assms(5) by (auto dest: proxy_invD)
  note rel = orderly_relays [OF assms(7,1) r assms(5,6,8), of "earlier_servers c"]
  then have "files_ok c" using f assms(5,6,9) by (auto simp: files_inv_def)
  moreover have "slow_from (earlier_servers c) c" using slow_from_past [OF inv assms(6)] by (simp add: earlier_servers_def)
  ultimately have "relays (earlier_servers c) c c'" using rel assms(9) by blast
  then show ?thesis by (simp add: relays_def)
qed

text \<open>What the server of a connection in slow mode is still to be sent.\<close>

definition request_left_of :: "'p connection \<Rightarrow> char list" where
  "request_left_of c = (case request_buf (client c) of None \<Rightarrow> [] | Some rb \<Rightarrow> drop (fd_pos rb) (content rb))"

text \<open>A client in slow mode that sends a request and the beginning of the next one.\<close>

lemma Server_new_sock:
  assumes "Server_new good_env w = Inr (w', Some sv)"
  shows "Server_new (good_env\<lparr>e_server_sock := k\<rparr>) w = Inr (w', Some (sv\<lparr>s_sock := k\<rparr>))"
proof (cases "connect_TCP (e_net good_env) (netst w)")
  case (Inr r)
  with assms show ?thesis by (cases r) (simp add: Server_new_def Let_def split: if_splits; force)
qed (use assms in \<open>simp add: Server_new_def\<close>)

lemma slow_conn_of_parts:
  fixes h :: hybridbuf
  assumes "fresh_sock csk"
  defines "c \<equiv> slow_conn_of line_llhttp csk h"
  shows "slow_receiving c" "\<not> fast_mode c" "\<not> in_transition c" "server c = None" "c_sock (client c) = csk" "received (c_sock (client c)) = []"
    "request_buf (client c) = Some new_file" "parser c = Some (HttpParser_new line_llhttp)" "response_buf (client c) = Some new_response"
    "request_stream (earlier_servers c) c = []"
  using assms(1)
  by (simp_all add: c_def slow_receiving_def slow_conn_of_def new_conn_def new_client_def slow_buffers_ok_def fresh_sock_def
      request_stream_def sents_def unsent_def sending_def)

text \<open>The connection a server was opened for, on its socket \<open>ssk\<close>.\<close>

definition lines_sent :: "sock \<Rightarrow> sock \<Rightarrow> unit connection \<Rightarrow> server \<Rightarrow> bool" where
  "lines_sent csk ssk c sv \<longleftrightarrow> server c = Some sv \<and> parser c \<noteq> None
     \<and> received (c_sock (client c)) = [CHR ''a'', CHR 0x0A, CHR ''b''] \<and> tx (c_sock (client c)) = tx csk \<and> s_sock sv = ssk
     \<and> s_write_evt sv \<and> s_read_evt sv \<and> request_left_of c = [CHR ''a'', CHR 0x0A] \<and> \<not> fast_mode c \<and> \<not> in_transition c
     \<and> response_buf (client c) = Some new_response \<and> sent (c_sock (client c)) = []"

lemma lines_received:
  assumes "fresh_sock csk" "rx csk = [RData [CHR ''a'', CHR 0x0A, CHR ''b'']]" "world_inv w"
  obtains w1 c' sv where "Client_recv_to_buffer_slowly line_llhttp (good_env\<lparr>e_server_sock := ssk\<rparr>) w (slow_conn_of line_llhttp csk h)
      = Inr (w1, Live c')" "lines_sent csk ssk c' sv"
proof -
  let ?c = "slow_conn_of line_llhttp csk h" and ?d = "[CHR ''a'', CHR 0x0A, CHR ''b'']" and ?env = "good_env\<lparr>e_server_sock := ssk\<rparr>"
  note c = slow_conn_of_parts [OF assms(1), of h]
  obtain stat sk where r: "read_all (c_sock (client ?c)) SOCK_IO_BUF_SIZE = (?d, stat, sk)" "\<not> has_eof stat" "received sk = ?d"
    "tx sk = tx csk" "sent sk = []"
    using read_all_chunk [OF assms(2), of SOCK_IO_BUF_SIZE] c(5) assms(1) by (simp add: SOCK_IO_BUF_SIZE_def fresh_sock_def)
  obtain p1 where p: "HttpParser_do_parse line_llhttp (HttpParser_new line_llhttp) ?d = (p1, True)" "eom_first p1 = Some 2"
    using line_parsed [OF HttpParser_inv_reset(1), of line_llhttp] by blast
  obtain w1 where "Server_new good_env w = Inr (w1, Some \<lparr>s_sock = idle_sock, s_read_evt = False,
      s_read_timeout = False, s_write_evt = False, s_queued_output = None\<rparr>)" using good_env_server [OF assms(3)] .
  from Server_new_sock [OF this] have s: "Server_new ?env w = Inr (w1, Some \<lparr>s_sock = ssk, s_read_evt = False,
      s_read_timeout = False, s_write_evt = False, s_queued_output = None\<rparr>)" by simp
  have "\<exists>c' sv. Client_recv_to_buffer_slowly line_llhttp ?env w ?c = Inr (w1, Live c') \<and> lines_sent csk ssk c' sv"
  proof (rule recv_slowly_complete_unfold [OF line_llhttp_ok c(1) r(1,2) c(8) HttpParser_inv_reset(1) p,
        where w = w and env = ?env], goal_cases)
    case (1 rb tb rb2 tb1 cl2 c2)
    have "content rb2 = [CHR ''a'', CHR 0x0A]" using 1(1,4) c(7) file_put_at_end [of "[]" "take 2 ?d"] by (auto simp: new_file_def)
    with 1(5) c(2-4,9) r(3-5) show ?case unfolding 1(11) by (simp add: s 1(9,10) client_ops request_left_of_def lines_sent_def)
  qed
  with that show thesis by blast
qed

lemma lines_served:
  assumes csk: "fresh_sock csk" "rx csk = [RData [CHR ''a'', CHR 0x0A, CHR ''b'']]" and ssk: "fresh_sock ssk"
  obtains env and st0 st st' :: "unit proxy" and c c' sv where "env = good_env\<lparr>e_server_sock := ssk\<rparr>"
    "su_disk good_startup = Some healthy_disk" "main_start good_startup = Inr (Inr st0)"
    "orderly_run line_llhttp 0 st0 [Accept good_env (Some csk), SlowSignal, SlowTimer good_env] st"
    "reachable line_llhttp st" "event_ok (ClientReadable env 0)" "enabled (ClientReadable env 0) st"
    "dispatch line_llhttp (ClientReadable env 0) st = Inr st'" "\<not> overtaken_in 0 st st'"
    "map_of (pconns st) 0 = Some c" "\<not> fast_mode c" "server c = None" "request_stream (earlier_servers c) c = []"
    "received (c_sock (client c)) = []" "map_of (pconns st') 0 = Some c'" "lines_sent csk ssk c' sv"
proof -
  from csk(1) show thesis
  proof (rule slowed_connection [where ll = line_llhttp], goal_cases)
    case (1 st0 st1 st2 st h)
    let ?c = "slow_conn_of line_llhttp csk h" and ?env = "good_env\<lparr>e_server_sock := ssk\<rparr>"
    note c = slow_conn_of_parts [OF csk(1), of h]
    have fast: "\<not> overtaken_in 0 x y" if "pconns x = [] \<or> pconns x = [(0, new_conn csk h)]" for x y :: "unit proxy"
      using that by (auto simp: overtaken_in_def answered_early_def new_conn_def split: option.splits)
    have o1: "orderly_run line_llhttp 0 st0 [Accept good_env (Some csk), SlowSignal, SlowTimer good_env] st"
      using 1(3-5) fast [of st0 st1] fast [of st1 st2] fast [of st2 st] 1(6-8) by auto
    have m: "map_of (pconns st) 0 = Some ?c" using 1(9) by simp
    have st: "reachable line_llhttp st" using run_of_reachable [OF orderly_run_of [OF o1] reachable.start [OF 1(1,2)]] .
    obtain w1 c' sv where c': "Client_recv_to_buffer_slowly line_llhttp ?env (pworld st) ?c = Inr (w1, Live c')" "lines_sent csk ssk c' sv"
      using lines_received [OF csk proxy_invD(1) [OF reachable_proxy_inv [OF line_llhttp_ok st]]] .
    let ?st' = "st\<lparr>pworld := w1, pconns := [(0, c')]\<rparr>"
    have d: "dispatch line_llhttp (ClientReadable ?env 0) st = Inr ?st'"
      using c'(1) c(2) 1(9) by (simp add: dispatch_def on_conn_def Client_on_readable_def put_outcome_def)
    have e: "event_ok (ClientReadable ?env 0)" "enabled (ClientReadable ?env 0) st"
      using 1(9) c(1) ssk by (simp_all add: enabled_def event_ok_def pending_events_def pending_events_of_def slow_receiving_def
          good_env_def env_ok_def)
    have o: "\<not> overtaken_in 0 st ?st'" using 1(9) c(4) by (simp add: overtaken_in_def answered_early_def sending_def)
    have "map_of (pconns ?st') 0 = Some c'" by simp
    from that [OF refl 1(1,2) o1 st e d o m c(2,4,10,6) this c'(2)] show ?case .
  qed
qed

text \<open>The same with sockets that take nothing.\<close>

lemma two_lines_served:
  obtains st0 st st' :: "unit proxy" and c c' where "su_disk good_startup = Some healthy_disk"
    "main_start good_startup = Inr (Inr st0)"
    "orderly_run line_llhttp 0 st0 [Accept good_env (Some two_lines), SlowSignal, SlowTimer good_env] st"
    "reachable line_llhttp st" "event_ok (ClientReadable good_env 0)" "enabled (ClientReadable good_env 0) st"
    "dispatch line_llhttp (ClientReadable good_env 0) st = Inr st'" "\<not> overtaken_in 0 st st'"
    "map_of (pconns st) 0 = Some c" "\<not> fast_mode c" "server c = None" "request_stream (earlier_servers c) c = []"
    "received (c_sock (client c)) = []"
    "map_of (pconns st') 0 = Some c'" "server c' \<noteq> None" "parser c' \<noteq> None"
    "received (c_sock (client c')) = [CHR ''a'', CHR 0x0A, CHR ''b'']"
proof -
  have sk: "fresh_sock two_lines" "rx two_lines = [RData [CHR ''a'', CHR 0x0A, CHR ''b'']]"
    by (simp_all add: fresh_sock_def two_lines_def idle_sock_def)
  show thesis
  proof (rule lines_served [OF sk good_env_ok(2)], goal_cases)
    case (1 env st0 st st' c c' sv)
    have "env = good_env" using 1(1) by (simp add: good_env_def)
    with 1(6-8) have e: "event_ok (ClientReadable good_env 0)" "enabled (ClientReadable good_env 0) st"
      "dispatch line_llhttp (ClientReadable good_env 0) st = Inr st'" by simp_all
    have "server c' \<noteq> None" "parser c' \<noteq> None" "received (c_sock (client c')) = [CHR ''a'', CHR 0x0A, CHR ''b'']"
      using 1(16) by (simp_all add: lines_sent_def)
    from that [OF 1(2-5) e 1(9-15) this] show ?case .
  qed
qed

theorem slow_requests_relayed_witness:
  "\<exists>st0 st st' c c'. main_start good_startup = Inr (Inr st0)
     \<and> orderly_run line_llhttp 0 st0 [Accept good_env (Some two_lines), SlowSignal, SlowTimer good_env] st
     \<and> orderly_run line_llhttp 0 st [ClientReadable good_env 0] st'
     \<and> map_of (pconns st) 0 = Some c \<and> map_of (pconns st') 0 = Some c' \<and> server c' \<noteq> None
     \<and> request_stream (earlier_servers c) c' = [CHR ''a'', CHR 0x0A, CHR ''b'']"
proof (rule two_lines_served, goal_cases)
  case (1 st0 st st' c c')
  have o2: "orderly_run line_llhttp 0 st [ClientReadable good_env 0] st'" using 1(5-8) by simp
  from slow_requests_relayed [OF line_llhttp_ok 1(1-3,9,10) o2 1(14,16)] 1(12,13,17)
  have "request_stream (earlier_servers c) c' = [CHR ''a'', CHR 0x0A, CHR ''b'']" by auto
  with 1(2,3,9,14,15) o2 show ?case by blast
qed

end
