(* ===== verification/Serverload.thy ===== *)
theory Serverload
  imports Requests
begin

text \<open>
  When the servers behind the proxy are occupied.  A server is opened only by bytes a client sent,
  in slow mode only once they complete a request, and one tick of the monitor decides about every
  connection that holds one.  \<open>server_age\<close> counts the servers opened and freed and never
  decreases, so that the events of a freed server are never taken for those of a later one.
\<close>

section \<open>Opening and freeing servers\<close>

definition server_age :: "'p connection \<Rightarrow> nat" where
  "server_age c = 2 * length (past_servers c) + (if server c = None then 0 else 1)"

definition ages :: "'p connection \<Rightarrow> 'p outcome \<Rightarrow> bool" where
  "ages c r \<longleftrightarrow> (case r of Live c' \<Rightarrow> server_age c \<le> server_age c' | Deleted c' \<Rightarrow> True)"

lemma ages_simps [simp]:
  "ages c (Live c') \<longleftrightarrow> server_age c \<le> server_age c'" "ages c (Deleted c')"
  "server_age (c\<lparr>client := cl\<rparr>) = server_age c" "server_age (c\<lparr>parser := p\<rparr>) = server_age c"
  "server_age (c\<lparr>fast_mode := b\<rparr>) = server_age c" "server_age (c\<lparr>in_transition := b\<rparr>) = server_age c"
  by (simp_all add: ages_def server_age_def)

lemma server_age_update: "server c \<noteq> None \<Longrightarrow> server_age (c\<lparr>server := Some sv\<rparr>) = server_age c"
  by (simp add: server_age_def)

lemma server_age_open: "server c = None \<Longrightarrow> server_age (c\<lparr>server := Some sv\<rparr>) = Suc (server_age c)"
  by (simp add: server_age_def)

lemma server_age_free: "server_age (snd (Connection_free_server w c)) = server_age c + (if server c = None then 0 else 1)"
  by (simp add: server_age_def Connection_free_server_def split: option.splits)

lemmas age_simps = bindE_eq_Inr_iff Let_def case_prod_beta server_age_update server_age_free client_ops
  Connection_free_parser_def Connection_set_transition_done_def

lemma delete_gone: "Connection_delete w c = Inr (w', r) \<Longrightarrow> \<exists>c'. r = Deleted c'"
  by (auto simp: Connection_delete_def case_prod_beta bindE_eq_Inr_iff)

lemma close_or_reply_ages:
  "Connection_close_or_reply w c1 = Inr (w', r) \<Longrightarrow> server_age c \<le> server_age c1 \<Longrightarrow> ages c r"
  by (auto simp: Connection_close_or_reply_def age_simps dest!: delete_gone split: if_splits)

lemma keep_track_age:
  "Client_keep_track_request_history ll c g = Inr (c', b) \<Longrightarrow> server_age c' = server_age c \<and> server c' = server c"
  by (auto simp: Client_keep_track_request_history_def age_simps split: if_splits)

lemma fast_forward_cs_ages: "Connection_fast_forward_cs ll w c = Inr (w', r) \<Longrightarrow> ages c r"
  by (auto simp: Connection_fast_forward_cs_def age_simps dest!: keep_track_age dest: close_or_reply_ages dest!: delete_gone split: if_splits)

lemma fast_forward_sc_ages: "Connection_fast_forward_sc w c = Inr (w', r) \<Longrightarrow> ages c r"
  by (auto simp: Connection_fast_forward_sc_def age_simps dest: close_or_reply_ages split: if_splits)

lemma ages_trans: "ages c1 r \<Longrightarrow> server_age c \<le> server_age c1 \<Longrightarrow> ages c r"
  by (auto simp: ages_def split: outcome.splits)

lemma client_readable_ages:
  assumes "conn_inv c" "c_read_evt (client c)" "Client_on_readable ll env w c = Inr (w', r)"
  shows "ages c r"
proof (cases "fast_mode c \<and> parser c \<noteq> None")
  case True
  with assms(3) show ?thesis by (auto simp: Client_on_readable_def intro: fast_forward_cs_ages)
next
  case False
  with assms(1,2) have none: "server c = None" by (auto simp: conn_inv_def mode_defs)
  show ?thesis
  proof (cases "fast_mode c")
    case True
    with False assms(3) none show ?thesis
      by (auto simp: Client_on_readable_def age_simps dest!: delete_gone split: option.splits
          dest!: fast_forward_cs_ages elim!: ages_trans simp: server_age_open server_age_def)
  next
    case slow: False
    with assms(3) none show ?thesis
      unfolding Client_on_readable_def Client_recv_to_buffer_slowly_def Let_def case_prod_beta
      by (auto elim!: bindE_InrE simp: server_age_open client_ops Connection_free_parser_def dest!: delete_gone
          split: if_split_asm option.split_asm)
  qed
qed

lemma client_writable_ages: "Client_on_writable w c = Inr (w', r) \<Longrightarrow> ages c r"
  unfolding Client_on_writable_def Client_send_response_slowly_def
  by (auto simp: age_simps dest!: delete_gone split: if_split_asm option.split_asm)

lemma server_readable_ages: "Server_on_readable ll t w c = Inr (w', r) \<Longrightarrow> ages c r"
  unfolding Server_on_readable_def Server_recv_to_buffer_slowly_def
  by (auto simp: age_simps dest!: delete_gone dest: fast_forward_sc_ages split: if_split_asm)

lemma server_writable_ages: "Server_on_writable w c = Inr (w', r) \<Longrightarrow> ages c r"
  unfolding Server_on_writable_def Server_send_request_slowly_def
  by (auto simp: age_simps split: if_split_asm)

lemma set_slow_mode_server:
  assumes "Connection_set_slow_mode ll env w c = Inr (w', c')"
  shows "past_servers c' = past_servers c \<and> (server c' = None \<longleftrightarrow> server c = None)"
  using assms by (auto simp: Connection_set_slow_mode_def age_simps split: if_splits option.splits)

lemma monitor_connection_server:
  assumes "monitor_connection ll env w c = Inr (w', Live c')"
  shows "past_servers c' = past_servers c \<and> (server c' = None \<longleftrightarrow> server c = None)"
  using assms by (auto simp: monitor_connection_def Let_def delete_not_live elim!: bindE_InrE dest: set_slow_mode_server split: if_splits)

lemma conn_event_ages:
  assumes "conn_inv c" "conn_event ll w c w' r"
  shows "ages c r"
  using assms(2)
proof cases
  case (readable env)
  with client_readable_ages [OF assms(1)] show ?thesis by blast
next
  case (tick env)
  then show ?thesis using monitor_connection_server [of ll env w c w'] by (cases r) (auto simp: server_age_def)
next
  case (switch env c')
  with set_slow_mode_server [of ll env w c w'] show ?thesis by (simp add: server_age_def)
qed (blast intro: client_writable_ages server_readable_ages server_writable_ages)+

section \<open>Only a client opens a server\<close>

text \<open>What a client in slow mode did when a server is opened for it.\<close>

definition completes_request :: "'p llhttp \<Rightarrow> 'p connection \<Rightarrow> 'p connection \<Rightarrow> bool" where
  "completes_request ll c c' \<longleftrightarrow>
     (\<exists>p p1 k d rb rb'. parser c = Some p \<and> received (c_sock (client c')) = received (c_sock (client c)) @ d
        \<and> HttpParser_do_parse ll p d = (p1, True) \<and> eom_first p1 = Some k \<and> k \<le> length d
        \<and> parser c' = Some (HttpParser_switch_to_response_mode ll p1)
        \<and> request_buf (client c) = Some rb \<and> request_buf (client c') = Some rb'
        \<and> content rb' = file_put (content rb) (fd_pos rb) (take k d) \<and> fd_pos rb' = 0)"

lemma recv_slowly_opens:
  assumes "llhttp_ok ll" "slow_receiving c" "Client_recv_to_buffer_slowly ll env w c = Inr (w', Live c')" "server c' \<noteq> None"
  shows "completes_request ll c c'"
proof -
  obtain d stat sk where r: "read_all (c_sock (client c)) SOCK_IO_BUF_SIZE = (d, stat, sk)"
    by (cases "read_all (c_sock (client c)) SOCK_IO_BUF_SIZE")
  note rs = read_all_spec [OF r]
  have g: "length d \<le> SOCK_IO_BUF_SIZE" using rs(2,3) by simp
  from assms(2) obtain p where p: "parser c = Some p" "HttpParser_inv p" "server c = None" by (auto simp: slow_receiving_def)
  obtain p1 ok where pr: "HttpParser_do_parse ll p d = (p1, ok)" by (cases "HttpParser_do_parse ll p d")
  have eof: "\<not> has_eof stat" using assms(3) r g by (auto simp: Client_recv_to_buffer_slowly_def delete_not_live)
  have "ok \<and> eom_first p1 \<noteq> None"
    using assms(3,4) r g eof p(1,3) pr
    by (auto simp: Client_recv_to_buffer_slowly_def Connection_free_parser_def delete_not_live Let_def
        elim!: bindE_InrE split: if_splits option.splits)
  then obtain k where k: "HttpParser_do_parse ll p d = (p1, True)" "eom_first p1 = Some k" using pr by auto
  have le: "k \<le> length d" using HttpParser_do_parse_bounds(1) [OF assms(1) p(2) k] .
  show ?thesis
  proof (rule recv_slowly_complete_unfold [OF assms(1,2) r eof p(1,2) k, where w = w and env = env], goal_cases)
    case (1 rb tb rb2 tb1 cl2 c2)
    from assms(3) obtain sv where "c' = c2\<lparr>server := Some sv\<rparr>"
      unfolding 1(11) by (auto simp: delete_not_live elim!: bindE_InrE split: option.splits)
    with p(1) k le rs(1) 1(1,4,5) show ?case by (auto simp: 1(9,10) completes_request_def client_ops)
  qed
qed

text \<open>No handler but the client's reading opens a server.\<close>

lemma client_writable_opens_none:
  "Client_on_writable w c = Inr (w', Live c') \<Longrightarrow> server c = None \<Longrightarrow> server c' = None"
  unfolding Client_on_writable_def Client_send_response_slowly_def Let_def case_prod_beta
  by (auto elim!: bindE_InrE dest!: delete_gone split: if_split_asm)

lemma server_readable_opens_none:
  "Server_on_readable ll t w c = Inr (w', Live c') \<Longrightarrow> server c = None \<Longrightarrow> server c' = None"
  by (auto simp: Server_on_readable_def Connection_fast_forward_sc_def Server_recv_to_buffer_slowly_def
      Connection_set_transition_done_def Connection_free_server_def split: if_splits)

lemma server_writable_opens_none: "Server_on_writable w c = Inr (w', Live c') \<Longrightarrow> server c = None \<Longrightarrow> server c' = None"
  by (simp add: Server_on_writable_def)

lemma put_events_server:
  assumes "put_events_slow_mode ll env w cs es = Inr (w', cs')" "map_of cs i = Some c" "map_of cs' i = Some c'"
  shows "server c' = None \<longleftrightarrow> server c = None"
  using assms
proof (induction es arbitrary: w cs c)
  case (Cons e es)
  from Cons.prems(1) obtain pend where p: "event_pending cs e = Inr pend" by (auto elim!: bindE_InrE)
  show ?case
  proof (cases pend)
    case True
    with Cons.prems(1) p obtain d w1 d1 where d: "map_of cs (get_associated_conn e) = Some d"
      "Connection_set_slow_mode ll env w d = Inr (w1, d1)"
      "put_events_slow_mode ll env w1 (AList.update (get_associated_conn e) d1 cs) es = Inr (w', cs')" by (auto elim!: bindE_InrE)
    show ?thesis
    proof (cases "i = get_associated_conn e")
      case True
      with Cons.IH [OF d(3), of d1] Cons.prems(2,3) d(1) set_slow_mode_server [OF d(2)] show ?thesis
        by (simp add: AList.update_conv')
    next
      case False
      with Cons.IH [OF d(3), of c] Cons.prems(2,3) show ?thesis by (simp add: AList.update_conv')
    qed
  qed (use Cons p in simp)
qed simp

lemma on_conn_opens:
  assumes "on_conn h j st = Inr st'" "map_of (pconns st) i = Some c" "server c = None"
    "map_of (pconns st') i = Some c'" "server c' \<noteq> None"
  shows "j = i \<and> (\<exists>w. h (pworld st) c = Inr (w, Live c'))"
  using assms by (auto simp: on_conn_def map_of_put_outcome elim!: bindE_InrE split: if_splits outcome.splits)

lemma dispatch_opens:
  assumes "proxy_inv st" "dispatch ll ev st = Inr st'" "map_of (pconns st) i = Some c" "server c = None"
    "map_of (pconns st') i = Some c'" "server c' \<noteq> None"
  obtains env w where "ev = ClientReadable env i" "Client_on_readable ll env (pworld st) c = Inr (w, Live c')"
proof (cases ev)
  case (Accept env sk)
  from assms(1,3) have "i < next_id st" by (auto simp: proxy_inv_def)
  with Accept assms(2-6) show thesis by (auto simp: dispatch_def case_prod_beta elim!: bindE_InrE split: sum.splits)
next
  case (ClientReadable env j)
  with assms(2) on_conn_opens [OF _ assms(3-6)] that show thesis by (fastforce simp: dispatch_def)
next
  case (MonitorTick envs)
  with dispatch_tick [OF assms(1) _ assms(3), of ll envs st'] assms(2,4-6) monitor_connection_server show thesis
    by (metis option.inject outcome.case(1) outcome.case(2) outcome.exhaust option.discI)
next
  case (SlowTimer env)
  with assms(2-6) put_events_server show thesis
    by (fastforce simp: dispatch_def elim!: bindE_InrE split: list.splits)
qed (use assms(2-6) on_conn_opens [OF _ assms(3-6)] client_writable_opens_none server_readable_opens_none
  server_writable_opens_none in \<open>fastforce simp: dispatch_def\<close>)+

text \<open>
  C5: a server is occupied only for a client that did its part.  Whatever event the loop handles, a
  connection that had no server has one afterwards only if the event was data of its own client;
  and in slow mode only if these data completed a request: the parser accepted them and found the
  end of a message in them, the bytes up to that end have joined the request file, and sending
  starts at its beginning.  No timer, no data of other clients and no unfinished request, however
  slowly or long it comes, opens a server.
\<close>

theorem server_opened_for_complete_request:
  assumes "llhttp_ok ll" "reachable ll st" "event_ok ev" "enabled ev st" "dispatch ll ev st = Inr st'"
    "map_of (pconns st) i = Some c" "server c = None" "map_of (pconns st') i = Some c'" "server c' \<noteq> None"
  shows "\<exists>env. ev = ClientReadable env i \<and> (if fast_mode c then mode_of c = Fresh else completes_request ll c c')"
proof -
  note inv = reachable_proxy_inv [OF assms(1,2)]
  then have c: "conn_inv c" using assms(6) by (auto dest: proxy_invD)
  obtain env w where e: "ev = ClientReadable env i" "Client_on_readable ll env (pworld st) c = Inr (w, Live c')"
    using dispatch_opens [OF inv assms(5-9)] .
  from enabled_conn(1) [OF inv assms(6)] assms(4) e(1) have "c_read_evt (client c)" by simp
  with c assms(7) have "fast_fresh c \<or> slow_receiving c" by (auto simp: conn_inv_def mode_defs)
  with e assms(9) recv_slowly_opens [OF assms(1), of c env "pworld st" w c'] show ?thesis
    by (auto simp: conn_inv_mode(1) [OF c] fast_fresh_def slow_receiving_def Client_on_readable_def)
qed

theorem server_opened_for_complete_request_witness:
  "\<exists>st st' c c'. reachable line_llhttp st \<and> dispatch line_llhttp (ClientReadable good_env 0) st = Inr st'
     \<and> map_of (pconns st) 0 = Some c \<and> \<not> fast_mode c \<and> server c = None
     \<and> map_of (pconns st') 0 = Some c' \<and> server c' \<noteq> None \<and> completes_request line_llhttp c c'"
proof (rule two_lines_served, goal_cases)
  case (1 st0 st st' c c')
  from server_opened_for_complete_request [OF line_llhttp_ok 1(4-7,9,11,14,15)] 1(10)
  have "completes_request line_llhttp c c'" by simp
  with 1(4,7,9-11,14,15) show ?case by blast
qed

section \<open>A tick decides about everyone\<close>

text \<open>What a tick leaves of a connection \<open>c\<close>: nothing, or its successor.\<close>

definition tick_verdict :: "'p connection \<Rightarrow> 'p connection option \<Rightarrow> bool" where
  "tick_verdict c r \<longleftrightarrow>
     (if read_count (client c) < min_down \<and> write_count (client c) < min_down then r = None
      else \<exists>c'. r = Some c' \<and> read_count (client c') = 0 \<and> write_count (client c') = 0
        \<and> fast_mode c' = (fast_mode c \<and> min_dtr \<le> read_count (client c) + write_count (client c))
        \<and> past_servers c' = past_servers c \<and> (server c' = None \<longleftrightarrow> server c = None))"

lemma monitor_connection_verdict:
  assumes "conn_inv c" "monitor_connection ll env w c = Inr (w', r)"
  shows "tick_verdict c (case r of Live c' \<Rightarrow> Some c' | Deleted c' \<Rightarrow> None)"
proof (cases r)
  case (Live c')
  have "fast_mode c \<Longrightarrow> \<not> in_transition c" using assms(1) by (auto simp: conn_inv_def mode_defs)
  then have "fast_mode c \<Longrightarrow> Connection_set_slow_mode ll env w c = Inr (w1, c1) \<Longrightarrow> \<not> fast_mode c1" for w1 c1
    by (auto simp: Connection_set_slow_mode_def Let_def Connection_set_transition_done_def elim!: bindE_InrE split: option.splits)
  with assms(2) Live monitor_connection_server [of ll env w c w' c'] show ?thesis
    by (auto simp: monitor_connection_def Let_def delete_not_live not_less tick_verdict_def elim!: bindE_InrE split: if_splits)
next
  case (Deleted c')
  with assms(2) show ?thesis by (auto simp: tick_verdict_def monitor_connection_def Let_def elim!: bindE_InrE split: if_splits)
qed

text \<open>
  C20: one tick of the monitor decides about every connection at once, each on its own counters,
  whatever it does with the others.  A connection is gone afterwards exactly if it received and sent less
  than the minimum since the last tick; every other one is still there, in fast mode only if it was and
  its two counters reach the threshold together, with the same servers as before and its counters
  back at zero; and no connection is new.
\<close>

theorem monitor_tick_decides:
  assumes "llhttp_ok ll" "reachable ll st" "\<forall>i. env_ok (envs i)"
  shows "\<exists>st'. dispatch ll (MonitorTick envs) st = Inr st'
    \<and> (\<forall>i. case map_of (pconns st) i of None \<Rightarrow> map_of (pconns st') i = None
         | Some c \<Rightarrow> tick_verdict c (map_of (pconns st') i))"
proof -
  note inv = reachable_proxy_inv [OF assms(1,2)]
  have "event_ok (MonitorTick envs)" "enabled (MonitorTick envs) st" using assms(3) by (simp_all add: event_ok_def enabled_def)
  with dispatch_spec [OF assms(1) inv this] obtain st' where st': "dispatch ll (MonitorTick envs) st = Inr st'"
    by (cases "dispatch ll (MonitorTick envs) st") (auto simp: step_ok_def log_after_free_def)
  have "case map_of (pconns st) i of None \<Rightarrow> map_of (pconns st') i = None
      | Some c \<Rightarrow> tick_verdict c (map_of (pconns st') i)" for i
  proof (cases "map_of (pconns st) i")
    case None
    with st' monitor_loop_gone show ?thesis by (fastforce simp: dispatch_def monitor_data_rates_def elim!: bindE_InrE)
  next
    case (Some c)
    obtain w1 w2 r where "monitor_connection ll (envs i) w1 c = Inr (w2, r)"
      "map_of (pconns st') i = (case r of Live c \<Rightarrow> Some c | Deleted c \<Rightarrow> None)" using dispatch_tick [OF inv st' Some] .
    with monitor_connection_verdict [OF proxy_invD(3) [OF inv Some] this(1)] Some show ?thesis by simp
  qed
  with st' show ?thesis by blast
qed

theorem monitor_tick_decides_witness:
  "\<exists>st st' c c'. reachable line_llhttp st \<and> dispatch line_llhttp (MonitorTick (\<lambda>_. good_env)) st = Inr st'
     \<and> map_of (pconns st) 0 = Some c \<and> map_of (pconns st') 0 = Some c' \<and> fast_mode c' \<and> read_count (client c') = 0"
proof -
  obtain st h where st: "reachable line_llhttp st" "pconns st = [(0, new_conn idle_sock h)]" by (rule first_connection [OF good_env_ok(2)])
  let ?c = "new_conn idle_sock h"
  have n: "\<not> read_count (client ?c) < min_down" "fast_mode ?c" "min_dtr \<le> read_count (client ?c) + write_count (client ?c)"
    by (simp_all add: new_conn_def new_client_def min_down_def min_dtr_def COUNTER_INIT_def MIN_DOWNLOAD_SPEED_def
        MONITOR_INTERVAL_def DTR_THRESHOLD_def)
  have "\<forall>i. env_ok good_env" using good_env_ok(1) by simp
  from monitor_tick_decides [OF line_llhttp_ok st(1) this] obtain st' where st': "dispatch line_llhttp (MonitorTick (\<lambda>_. good_env)) st = Inr st'"
    "case map_of (pconns st) 0 of None \<Rightarrow> map_of (pconns st') 0 = None | Some c \<Rightarrow> tick_verdict c (map_of (pconns st') 0)" by blast
  have "tick_verdict ?c (map_of (pconns st') 0)" using st'(2) by (simp add: st(2))
  with n obtain c' where "map_of (pconns st') 0 = Some c'" "fast_mode c'" "read_count (client c') = 0" by (auto simp: tick_verdict_def split: if_splits)
  with st st'(1) show ?thesis by (intro exI [of _ st] exI [of _ st'] exI [of _ ?c] exI [of _ c']) simp
qed

end
