(* ===== verification/EventSim.thy ===== *)
theory EventSim
  imports EventRep Serverload
begin

text \<open>
  The process and libevent together.  Every event the loop handles can be carried out on the
  events in memory: creating and freeing the events of clients and servers and adding and
  deleting them leads to the events that the connections of the next state need.  So whatever
  \<open>EventRep\<close> shows of runs on events holds of every state the process can reach.
\<close>

section \<open>Simulations\<close>

locale forward_simulation =
  fixes cstep :: "'c \<Rightarrow> 'c \<Rightarrow> bool" and astep :: "'a \<Rightarrow> 'a \<Rightarrow> bool" and rel :: "'c \<Rightarrow> 'a \<Rightarrow> bool"
  assumes step_sim: "rel c a \<Longrightarrow> cstep c c' \<Longrightarrow> \<exists>a'. astep\<^sup>*\<^sup>* a a' \<and> rel c' a'"
begin

lemma steps_sim: "cstep\<^sup>*\<^sup>* c c' \<Longrightarrow> rel c a \<Longrightarrow> \<exists>a'. astep\<^sup>*\<^sup>* a a' \<and> rel c' a'"
proof (induction rule: rtranclp_induct)
  case (step c1 c2)
  then show ?case by (meson rtranclp_trans step_sim)
qed blast

end

section \<open>Reaching a connection by steps on events\<close>

lemma evt_steps_rep:
  assumes "(evt_step L)\<^sup>*\<^sup>* (h, ptr, cs) (h', ptr', cs')" "libevent_ok L" "calls_succeed L" "events_rep L h ptr cs"
  shows "events_rep L h' ptr' cs'"
  using assms(1)
proof (induction "(h', ptr', cs')" arbitrary: h' ptr' cs' rule: rtranclp_induct)
  case (step y)
  obtain h1 ptr1 cs1 where y: "y = (h1, ptr1, cs1)" by (rule prod_cases3)
  with step.hyps(2,3) evt_step_rep [OF _ assms(2,3)] show ?case by blast
qed (use assms(4) in simp)

lemma update_update: "AList.update k v' (AList.update k v al) = AList.update k v' al"
  by (induction al) auto

lemma put_put: "put_outcome i r (put_outcome i (Live c) cs) = put_outcome i r cs"
  by (cases r) (simp_all add: put_outcome_def update_update AList.delete_update_same)

lemma map_of_put_live [simp]: "map_of (put_outcome i (Live c) cs) i = Some c"
  by (simp add: put_outcome_def AList.update_conv')

lemma put_outcome_same: "map_of cs i = Some c \<Longrightarrow> put_outcome i (Live c) cs = cs"
  by (induction cs) (auto simp: put_outcome_def)

text \<open>One flag, then all of them.\<close>

definition evt_reaches :: "'h libevent \<Rightarrow> 'h \<times> (evt \<Rightarrow> nat) \<times> 'p conns \<Rightarrow> 'p conns \<Rightarrow> bool" where
  "evt_reaches L s cs' \<longleftrightarrow> (\<exists>h' ptr'. (evt_step L)\<^sup>*\<^sup>* s (h', ptr', cs'))"

lemma evt_reaches_step:
  assumes "evt_step L s (h1, ptr1, cs1)" "evt_reaches L (h1, ptr1, cs1) cs'"
  shows "evt_reaches L s cs'"
  using assms by (auto simp: evt_reaches_def intro: converse_rtranclp_into_rtranclp)

lemma reach_flag:
  assumes "libevent_ok L" "calls_succeed L" "events_rep L h ptr cs" "map_of cs i = Some c" "e \<in> set (conn_events i c)"
    "\<And>h'. events_rep L h' ptr (put_outcome i (Live (set_pending e b c)) cs) \<Longrightarrow>
       evt_reaches L (h', ptr, put_outcome i (Live (set_pending e b c)) cs) cs'"
  shows "evt_reaches L (h, ptr, cs) cs'"
proof (cases b)
  case True
  from switches_refine(1) [OF assms(1-5), of None] obtain h' where h': "add_event L (ptr e) None h = Inr h'"
    "events_rep L h' ptr (put_outcome i (Live (set_pending e True c)) cs)" by blast
  from evt_reaches_step [OF evt_step.add [where ptr = ptr and e = e, OF assms(4,5) h'(1)]] assms(6) h'(2) True show ?thesis by simp
next
  case False
  from switches_refine(2) [OF assms(1-5)] obtain h' where h': "del_event L (ptr e) h = Inr h'"
    "events_rep L h' ptr (put_outcome i (Live (set_pending e False c)) cs)" by blast
  from evt_reaches_step [OF evt_step.del [where ptr = ptr and e = e, OF assms(4,5) h'(1)]] assms(6) h'(2) False show ?thesis by simp
qed

lemma reach_flags:
  assumes "libevent_ok L" "calls_succeed L" "events_rep L h ptr cs" "map_of cs i = Some c"
    "set es \<subseteq> set (conn_events i c)"
    "same_events i (fold (\<lambda>e. set_pending e (f e)) es c) c'"
  shows "evt_reaches L (h, ptr, cs) (put_outcome i (Live c') cs)"
  using assms(3-6)
proof (induction es arbitrary: h cs c)
  case Nil
  then have "evt_step L (h, ptr, cs) (h, ptr, put_outcome i (Live c') cs)" by (intro evt_step.work) simp_all
  then show ?case by (auto simp: evt_reaches_def)
next
  case (Cons e es)
  let ?c = "set_pending e (f e) c"
  have e: "e \<in> set (conn_events i c)" "set es \<subseteq> set (conn_events i ?c)" using Cons.prems(3) by simp_all
  have s: "same_events i (fold (\<lambda>e. set_pending e (f e)) es ?c) c'" using Cons.prems(4) by simp
  have "evt_reaches L (h', ptr, put_outcome i (Live ?c) cs) (put_outcome i (Live c') cs)"
    if "events_rep L h' ptr (put_outcome i (Live ?c) cs)" for h'
    using Cons.IH [OF that map_of_put_live e(2) s] by (simp only: put_put)
  with Cons.prems(1,2) e(1) show ?case by (rule reach_flag [OF assms(1,2)])
qed

text \<open>The flags of the events of a connection, set as another one has them.\<close>

lemma same_events_flags:
  assumes "conn_events i c' = conn_events i c"
  shows "same_events i (fold (\<lambda>e. set_pending e (e \<in> set (pending_events_of i c'))) (conn_events i c) c) c'"
proof (cases "server c")
  case None
  with assms have "server c' = None" by (simp add: conn_events_def split: option.splits)
  with None assms show ?thesis
    by (simp add: same_events_def conn_events_def set_pending_def pending_events_of_def)
next
  case (Some sv)
  with assms obtain sv' where "server c' = Some sv'" "length (past_servers c') = length (past_servers c)"
    by (auto simp: conn_events_def split: option.splits)
  with Some assms show ?thesis
    by (simp add: same_events_def conn_events_def set_pending_def pending_events_of_def)
qed

lemma server_age_eq: "server_age c' = server_age c \<Longrightarrow> conn_events i c' = conn_events i c"
  unfolding server_age_def conn_events_def by (auto split: if_splits option.splits) presburger+

lemma release_server_events:
  assumes "libevent_ok L" "events_rep L h ptr cs" "map_of cs i = Some c" "server c \<noteq> None" "g = length (past_servers c)"
  shows "\<exists>h'. release_events L \<lparr>read_evt = ptr (ServerRead i g), write_evt = ptr (ServerWrite i g)\<rparr> h = Inr h'"
proof -
  from assms(2) have r: "distinct (map fst cs)" "heap_rep L h ptr (events_of cs) (set (pending_events cs))"
    by (simp_all add: events_rep_def)
  have "ServerRead i g \<in> events_of cs" "ServerWrite i g \<in> events_of cs"
    using assms(3-5) by (auto simp: events_of_iff [OF r(1)] conn_events_def get_associated_conn_def)
  then show ?thesis using heap_rep_release [OF assms(1) r(2), of "ServerRead i g" "ServerWrite i g"] by blast
qed

text \<open>
  From a connection every other one is reached that has had at least as many servers: servers are
  connected and freed in turn, then the flags are set.
\<close>

lemma reach_connection:
  assumes "libevent_ok L" "calls_succeed L" "events_rep L h ptr cs" "map_of cs i = Some c" "server_age c \<le> server_age c'"
  shows "evt_reaches L (h, ptr, cs) (put_outcome i (Live c') cs)"
  using assms(3-5)
proof (induction "server_age c' - server_age c" arbitrary: h ptr cs c)
  case 0
  then have e: "conn_events i c' = conn_events i c" by (intro server_age_eq) simp
  show ?case
    using 0 same_events_flags [OF e] by (intro reach_flags [OF assms(1,2)]) simp_all
next
  case (Suc n)
  have next_step: "evt_reaches L (h, ptr, cs) (put_outcome i (Live c') cs)"
    if "evt_step L (h, ptr, cs) (h1, ptr1, put_outcome i (Live c1) cs)" "server_age c1 = Suc (server_age c)" for h1 ptr1 c1
  proof -
    have "events_rep L h1 ptr1 (put_outcome i (Live c1) cs)" by (rule evt_step_rep [OF that(1) assms(1,2) Suc.prems(1)])
    moreover have "n = server_age c' - server_age c1" "server_age c1 \<le> server_age c'" using Suc.hyps(2) that(2) by simp_all
    ultimately have "evt_reaches L (h1, ptr1, put_outcome i (Live c1) cs) (put_outcome i (Live c') (put_outcome i (Live c1) cs))"
      by (intro Suc.hyps(1)) simp_all
    with that(1) show ?thesis by (simp add: put_put evt_reaches_step)
  qed
  show ?case
  proof (cases "server c")
    case None
    obtain h1 p where n: "Server_events_new L 0 i (length (past_servers c)) h = (h1, p)" by (meson surj_pair)
    let ?sv = "\<lparr>s_sock = undefined, s_read_evt = False, s_read_timeout = False, s_write_evt = False, s_queued_output = None\<rparr>"
    from evt_step.connect [OF Suc.prems(2) None refl n, of ?sv ptr] show ?thesis
      by (rule next_step) (simp_all add: None server_age_open)
  next
    case (Some sv)
    then obtain h1 where n: "release_events L \<lparr>read_evt = ptr (ServerRead i (length (past_servers c))),
        write_evt = ptr (ServerWrite i (length (past_servers c)))\<rparr> h = Inr h1"
      using release_server_events [OF assms(1) Suc.prems(1,2)] by auto
    have "server c \<noteq> None" using Some by simp
    from evt_step.free_server [OF Suc.prems(2) this refl n] show ?thesis
      by (rule next_step) (simp add: Some server_age_free)
  qed
qed

lemma reach_deleted:
  assumes "libevent_ok L" "calls_succeed L" "events_rep L h ptr cs" "map_of cs i = Some c"
  shows "evt_reaches L (h, ptr, cs) (AList.delete i cs)"
proof -
  let ?c = "snd (Connection_free_server w c)"
  have "evt_reaches L (h, ptr, cs) (put_outcome i (Live ?c) cs)"
    by (rule reach_connection [OF assms]) (simp add: server_age_free)
  then obtain h1 ptr1 where s: "(evt_step L)\<^sup>*\<^sup>* (h, ptr, cs) (h1, ptr1, put_outcome i (Live ?c) cs)" by (auto simp: evt_reaches_def)
  have r: "events_rep L h1 ptr1 (put_outcome i (Live ?c) cs)" by (rule evt_steps_rep [OF s assms(1-3)])
  have none: "server ?c = None" by (simp add: Connection_free_server_def split: option.splits)
  obtain h2 where "release_events L \<lparr>read_evt = ptr1 (ClientRead i), write_evt = ptr1 (ClientWrite i)\<rparr> h1 = Inr h2"
    using client_events_release [OF assms(1) r map_of_put_live none] by blast
  then have "evt_step L (h1, ptr1, put_outcome i (Live ?c) cs) (h2, ptr1, AList.delete i (put_outcome i (Live ?c) cs))"
    by (rule evt_step.delete [OF map_of_put_live none])
  moreover have "AList.delete i (put_outcome i (Live ?c) cs) = AList.delete i cs" by (simp add: put_outcome_def AList.delete_update_same)
  ultimately show ?thesis using s by (auto simp: evt_reaches_def intro: rtranclp.rtrancl_into_rtrancl)
qed

section \<open>The process is simulated\<close>

definition process_rel :: "'p llhttp \<Rightarrow> 'h libevent \<Rightarrow> 'p proxy \<Rightarrow> 'h \<times> (evt \<Rightarrow> nat) \<times> 'p conns \<Rightarrow> bool" where
  "process_rel ll L st s \<longleftrightarrow> llhttp_ok ll \<and> libevent_ok L \<and> calls_succeed L \<and> proxy_inv st
     \<and> (case s of (h, ptr, cs) \<Rightarrow> cs = pconns st \<and> events_rep L h ptr cs)"

lemma accept_new_conn:
  assumes "Connection_accept_new env w (Some sk) = Inr (w', Inr c)"
  shows "server c = None" "\<not> c_write_evt (client c)"
  using assms by (auto simp: Connection_accept_new_def Connection_new_def Client_new_def elim!: bindE_InrE split: if_splits list.splits)

lemma reach_accepted:
  assumes "libevent_ok L" "calls_succeed L" "events_rep L h ptr cs" "map_of cs i = None" "server c = None" "\<not> c_write_evt (client c)"
  shows "evt_reaches L (h, ptr, cs) ((i, c) # cs)"
proof -
  obtain h1 p where n: "Client_events_new L 0 i h = (h1, p)" by (meson surj_pair)
  let ?c = "c\<lparr>client := (client c)\<lparr>c_read_evt := False\<rparr>\<rparr>" and ?ptr = "ptr(ClientRead i := read_evt p, ClientWrite i := write_evt p)"
  have s: "evt_step L (h, ptr, cs) (h1, ?ptr, (i, ?c) # cs)" by (rule evt_step.accept [OF assms(4) n]) (use assms(5,6) in simp_all)
  have "evt_reaches L (h1, ?ptr, (i, ?c) # cs) (put_outcome i (Live c) ((i, ?c) # cs))"
    by (rule reach_connection [where c = ?c, OF assms(1,2) evt_step_rep [OF s assms(1-3)]]) simp_all
  then show ?thesis using evt_reaches_step [OF s] by (simp add: put_outcome_def)
qed

lemma micro_reaches:
  assumes "libevent_ok L" "calls_succeed L" "proxy_inv st" "events_rep L h ptr (pconns st)" "micro ll st st'"
  shows "evt_reaches L (h, ptr, pconns st) (pconns st')"
  using assms(5)
proof cases
  case (accept env sk w c)
  have "map_of (pconns st) (next_id st) = None"
    using assms(3) unfolding proxy_inv_def by (metis less_irrefl not_Some_eq)
  with reach_accepted [OF assms(1,2,4) this accept_new_conn [OF accept(4)]] accept(1) show ?thesis by simp
next
  case (conn i c w r)
  have a: "ages c r" using conn_event_ages [OF proxy_invD(3) [OF assms(3) conn(2)] conn(3)] .
  show ?thesis
  proof (cases r)
    case (Live c')
    with a reach_connection [OF assms(1,2,4) conn(2), of c'] conn(1) show ?thesis by simp
  next
    case (Deleted c')
    with reach_deleted [OF assms(1,2,4) conn(2)] conn(1) show ?thesis by (simp add: put_outcome_def)
  qed
next
  case (timers es)
  then show ?thesis by (auto simp: evt_reaches_def)
qed

interpretation process_sim: forward_simulation "micro ll" "evt_step L" "process_rel ll L" for ll :: "'p llhttp" and L :: "'h libevent"
proof
  fix st st' :: "'p proxy" and s :: "'h \<times> (evt \<Rightarrow> nat) \<times> 'p conns"
  assume r: "process_rel ll L st s" and m: "micro ll st st'"
  obtain h ptr where s: "s = (h, ptr, pconns st)" "events_rep L h ptr (pconns st)"
    and ok: "llhttp_ok ll" "libevent_ok L" "calls_succeed L" "proxy_inv st"
    using r by (auto simp: process_rel_def)
  obtain h' ptr' where t: "(evt_step L)\<^sup>*\<^sup>* s (h', ptr', pconns st')"
    using micro_reaches [OF ok(2-4) s(2) m] by (auto simp: evt_reaches_def s(1))
  have "events_rep L h' ptr' (pconns st')" using evt_steps_rep [OF t [unfolded s(1)] ok(2,3) s(2)] .
  with t ok micro_inv [OF ok(1,4) m] show "\<exists>s'. (evt_step L)\<^sup>*\<^sup>* s s' \<and> process_rel ll L st' s'"
    by (intro exI [of _ "(h', ptr', pconns st')"]) (simp add: process_rel_def)
qed

lemma dispatch_process_rel:
  assumes "process_rel ll L st s" "event_ok ev" "enabled ev st" "dispatch ll ev st = Inr st'"
  shows "\<exists>s'. (evt_step L)\<^sup>*\<^sup>* s s' \<and> process_rel ll L st' s'"
  using dispatch_micro [OF _ assms(2-4)] assms(1) process_sim.steps_sim by (metis process_rel_def)

lemma reachable_process_rel:
  assumes "llhttp_ok ll" "libevent_ok L" "calls_succeed L" "ev_view L h0 = (\<lambda>_. None)" "main_events L master_sock h0 = Inr h"
    "reachable ll st"
  shows "\<exists>s. (evt_step L)\<^sup>*\<^sup>* (h, ptr, []) s \<and> process_rel ll L st s"
  using assms(6)
proof (induction rule: reachable.induct)
  case (start s st)
  have "events_rep L h ptr ([] :: 'a conns)" by (rule main_events_rep [OF assms(2-5)])
  with main_start_inv [OF start] assms(1-3) show ?case by (auto simp: process_rel_def)
next
  case (step st ev st')
  then show ?case using dispatch_process_rel by (meson rtranclp_trans)
qed



section \<open>Examples\<close>



end
