(* ===== verification/Signals.thy ===== *)
theory Signals
  imports Serverload
begin

text \<open>
  The slow-mode signal (\<open>put_all_connection_slow_mode\<close> and the timer \<open>put_events_slow_mode\<close> of
  \<open>src/ls_proxy.cpp\<close>).  The timer works on event pointers that were collected a second before, so what it does
  depends on which of these events still exist and which are pending.
\<close>

section \<open>Events that still exist\<close>

definition event_alive :: "'p conns \<Rightarrow> evt \<Rightarrow> bool" where
  "event_alive cs e \<longleftrightarrow> (\<exists>b. event_pending cs e = Inr b)"

text \<open>The connections the timer works on, and what it leaves of all of them.\<close>

definition picked :: "evt list \<Rightarrow> 'p conns \<Rightarrow> nat \<Rightarrow> bool" where
  "picked es cs i \<longleftrightarrow> (\<exists>e \<in> set es. get_associated_conn e = i \<and> event_pending cs e = Inr True)"

definition switched :: "bool \<Rightarrow> 'p connection \<Rightarrow> 'p connection option \<Rightarrow> bool" where
  "switched b c r \<longleftrightarrow> (\<exists>c'. r = Some c' \<and> (if b \<and> fast_mode c then \<not> fast_mode c' else c' = c))"

definition slowed_down :: "evt list \<Rightarrow> 'p conns \<Rightarrow> 'p conns \<Rightarrow> bool" where
  "slowed_down es cs cs' \<longleftrightarrow>
     (\<forall>i. case map_of cs i of None \<Rightarrow> map_of cs' i = None | Some c \<Rightarrow> switched (picked es cs i) c (map_of cs' i))"

lemma event_dead: "\<not> event_alive cs e \<Longrightarrow> event_pending cs e = Inl UseAfterFree"
  by (auto simp: event_alive_def event_pending_def split: option.splits evt.splits)

lemma event_pending_other:
  "get_associated_conn e \<noteq> j \<Longrightarrow> event_pending (AList.update j c cs) e = event_pending cs e"
  by (simp add: event_pending_def AList.update_conv')

lemma event_alive_update:
  assumes "map_of cs j = Some c" "past_servers c' = past_servers c" "server c' = None \<longleftrightarrow> server c = None"
  shows "event_alive (AList.update j c' cs) e = event_alive cs e"
proof (cases "get_associated_conn e = j")
  case True
  with assms show ?thesis
    by (cases e; cases "server c"; cases "server c'")
      (auto simp: event_alive_def event_pending_def AList.update_conv' get_associated_conn_def)
qed (simp add: event_alive_def event_pending_other)

lemma picked_update: "i \<noteq> j \<Longrightarrow> picked es (AList.update j c cs) i = picked es cs i"
  by (auto simp: picked_def event_pending_other)

lemma picked_Cons: "picked (e # es) cs i \<longleftrightarrow> get_associated_conn e = i \<and> event_pending cs e = Inr True \<or> picked es cs i"
  by (auto simp: picked_def)

lemma slowed_down_step:
  assumes "map_of cs j = Some c" "\<not> fast_mode c'" "\<not> fast_mode c \<Longrightarrow> c' = c" "get_associated_conn e = j"
    "event_pending cs e = Inr True" "slowed_down es (AList.update j c' cs) cs'"
  shows "slowed_down (e # es) cs cs'"
  unfolding slowed_down_def
proof
  fix i
  from assms(6) have i: "case map_of (AList.update j c' cs) i of None \<Rightarrow> map_of cs' i = None
      | Some d \<Rightarrow> switched (picked es (AList.update j c' cs) i) d (map_of cs' i)"
    by (simp only: slowed_down_def)
  show "case map_of cs i of None \<Rightarrow> map_of cs' i = None | Some d \<Rightarrow> switched (picked (e # es) cs i) d (map_of cs' i)"
  proof (cases "i = j")
    case True
    with i assms(1-5) show ?thesis by (auto simp: AList.update_conv' picked_Cons switched_def)
  next
    case False
    with i assms(4) show ?thesis by (auto simp: AList.update_conv' picked_Cons picked_update split: option.splits)
  qed
qed

lemma slowed_down_skip: "event_pending cs e = Inr False \<Longrightarrow> slowed_down es cs cs' \<Longrightarrow> slowed_down (e # es) cs cs'"
  by (simp add: slowed_down_def picked_Cons cong: option.case_cong)

section \<open>The timer\<close>

lemma pending_switch:
  assumes "llhttp_ok ll" "proxy_inv st" "env_ok env" "event_pending (pconns st) e = Inr True"
  obtains c w1 c1 where "map_of (pconns st) (get_associated_conn e) = Some c" "Connection_set_slow_mode ll env (pworld st) c = Inr (w1, c1)"
    "\<not> fast_mode c1" "\<not> fast_mode c \<longrightarrow> c1 = c"
    "event_alive (AList.update (get_associated_conn e) c1 (pconns st)) = event_alive (pconns st)"
    "proxy_inv (st\<lparr>pworld := w1, pconns := AList.update (get_associated_conn e) c1 (pconns st)\<rparr>)"
proof -
  let ?j = "get_associated_conn e"
  obtain c where c: "map_of (pconns st) ?j = Some c"
    using assms(4) by (cases "map_of (pconns st) ?j") (auto simp: event_pending_def)
  obtain w1 c1 where s: "Connection_set_slow_mode ll env (pworld st) c = Inr (w1, c1)" "\<not> fast_mode c1"
    "server c1 = None \<longleftrightarrow> server c = None" "past_servers c1 = past_servers c"
    using set_slow_mode_safe [OF assms(3) proxy_invD(1) [OF assms(2)] proxy_invD(3) [OF assms(2) c]] by metis
  have same: "\<not> fast_mode c \<longrightarrow> c1 = c"
  proof
    assume "\<not> fast_mode c"
    with s(1) show "c1 = c" by (simp add: Connection_set_slow_mode_def)
  qed
  have "event_alive (AList.update ?j c1 (pconns st)) = event_alive (pconns st)" using event_alive_update [OF c s(4,3)] by (rule ext)
  moreover have "proxy_inv (st\<lparr>pworld := w1, pconns := AList.update ?j c1 (pconns st)\<rparr>)"
    using micro_inv [OF assms(1,2) micro.conn [OF c conn_event.switch [OF assms(3) s(1)]]] by (simp add: put_outcome_def)
  ultimately show thesis using that c s(1,2) same by blast
qed

lemma put_events_exact:
  assumes "llhttp_ok ll" "proxy_inv st" "env_ok env"
  shows "if \<forall>e \<in> set es. event_alive (pconns st) e
    then \<exists>w cs. put_events_slow_mode ll env (pworld st) (pconns st) es = Inr (w, cs) \<and> slowed_down es (pconns st) cs
    else put_events_slow_mode ll env (pworld st) (pconns st) es = Inl UseAfterFree"
  using assms(2)
proof (induction es arbitrary: st)
  case Nil
  then show ?case by (auto simp: slowed_down_def picked_def switched_def split: option.splits)
next
  case (Cons e es)
  let ?j = "get_associated_conn e"
  consider (dead) "\<not> event_alive (pconns st) e" | (idle) "event_pending (pconns st) e = Inr False"
    | (pending) "event_pending (pconns st) e = Inr True" unfolding event_alive_def by (metis (full_types))
  then show ?case
  proof cases
    case dead
    with event_dead [OF this] show ?thesis by simp
  next
    case idle
    then have "event_alive (pconns st) e" unfolding event_alive_def by blast
    with idle Cons.IH [OF Cons.prems] slowed_down_skip [of "pconns st" e es] show ?thesis by (auto split: if_splits)
  next
    case pending
    then have alive: "event_alive (pconns st) e" unfolding event_alive_def by blast
    obtain c w1 c1 where c: "map_of (pconns st) ?j = Some c" "Connection_set_slow_mode ll env (pworld st) c = Inr (w1, c1)"
      "\<not> fast_mode c1" "\<not> fast_mode c \<longrightarrow> c1 = c" "event_alive (AList.update ?j c1 (pconns st)) = event_alive (pconns st)"
      "proxy_inv (st\<lparr>pworld := w1, pconns := AList.update ?j c1 (pconns st)\<rparr>)"
      by (rule pending_switch [OF assms(1) Cons.prems assms(3) pending])
    have run: "put_events_slow_mode ll env (pworld st) (pconns st) (e # es)
      = put_events_slow_mode ll env w1 (AList.update ?j c1 (pconns st)) es" using pending c(1,2) by simp
    have "slowed_down (e # es) (pconns st) cs" if "slowed_down es (AList.update ?j c1 (pconns st)) cs" for cs
      using slowed_down_step [OF c(1,3) c(4) [rule_format] refl pending that] .
    with Cons.IH [OF c(6)] alive show ?thesis unfolding run by (auto simp: c(5) split: if_splits)
  qed
qed


lemma pending_alive:
  assumes "distinct (map fst cs)" "e \<in> set (pending_events cs)"
  shows "event_pending cs e = Inr True"
proof -
  from assms obtain c where "map_of cs (get_associated_conn e) = Some c" "e \<in> set (pending_events_of (get_associated_conn e) c)"
    by (auto simp: pending_events_iff)
  then show ?thesis
    by (cases e; cases "server c") (auto simp: event_pending_def pending_events_of_def get_associated_conn_def split: if_splits)
qed

lemma slowed_down_all:
  assumes "slowed_down es cs cs'" "\<forall>i \<in> dom (map_of cs). picked es cs i"
  shows "dom (map_of cs') = dom (map_of cs)" "map_of cs' i = Some c' \<Longrightarrow> \<not> fast_mode c'"
proof -
  have c: "map_of cs' i = None" if "map_of cs i = None" for i
    using spec [OF assms(1) [unfolded slowed_down_def], of i] that by simp
  have d: "\<exists>c'. map_of cs' i = Some c' \<and> \<not> fast_mode c'" if "map_of cs i = Some c" for i c
    using spec [OF assms(1) [unfolded slowed_down_def], of i] that bspec [OF assms(2), of i] by (auto simp: switched_def split: if_splits)
  show "dom (map_of cs') = dom (map_of cs)" using c d by (metis (no_types) domD domI domIff subsetI subset_antisym)
  show "map_of cs' i = Some c' \<Longrightarrow> \<not> fast_mode c'" using c [of i] d [of i] by (cases "map_of cs i") auto
qed

text \<open>
  C22: the signal puts everyone into slow mode.  If nothing happens between the signal and its timer, then
  after the timer, which cannot fault then, every connection is still there and none is in fast mode.
\<close>

theorem signal_slows_everyone:
  assumes "llhttp_ok ll" "reachable ll st" "env_ok env" "scheduled st = []" "dispatch ll SlowSignal st = Inr st1"
  shows "\<exists>st'. dispatch ll (SlowTimer env) st1 = Inr st' \<and> dom (map_of (pconns st')) = dom (map_of (pconns st))
    \<and> (\<forall>i c. map_of (pconns st') i = Some c \<longrightarrow> \<not> fast_mode c)"
proof -
  note inv = reachable_proxy_inv [OF assms(1,2)]
  let ?es = "pending_events (pconns st)"
  have st1: "st1 = st\<lparr>scheduled := [?es]\<rparr>" using assms(4,5) by (simp add: dispatch_def put_all_connection_slow_mode_def)
  have pend: "event_pending (pconns st) e = Inr True" if "e \<in> set ?es" for e using pending_alive [OF proxy_invD(2) [OF inv] that] .
  have r1: "reachable ll st1" by (rule reachable.step [OF assms(2) _ _ assms(5)]) (simp_all add: event_ok_def enabled_def)
  from put_events_exact [OF assms(1) reachable_proxy_inv [OF assms(1) r1] assms(3), of ?es] pend
  obtain w cs where p: "put_events_slow_mode ll env (pworld st) (pconns st) ?es = Inr (w, cs)" "slowed_down ?es (pconns st) cs"
    by (auto simp: st1 event_alive_def split: if_splits)
  have "\<forall>i \<in> dom (map_of (pconns st)). picked ?es (pconns st) i"
    unfolding get_all_connections_complete(1) [OF inv, symmetric] using pend by (auto simp: get_all_connections_def picked_def)
  from slowed_down_all [OF p(2) this]
  have "dom (map_of cs) = dom (map_of (pconns st))" "\<forall>i c. map_of cs i = Some c \<longrightarrow> \<not> fast_mode c" by blast+
  moreover have "dispatch ll (SlowTimer env) st1 = Inr (st1\<lparr>pworld := w, pconns := cs, scheduled := []\<rparr>)"
    using p(1) by (simp add: dispatch_def st1)
  ultimately show ?thesis by (intro exI [of _ "st1\<lparr>pworld := w, pconns := cs, scheduled := []\<rparr>"]) simp
qed

theorem signal_slows_everyone_witness:
  "\<exists>st st1 st'. reachable line_llhttp st \<and> length (pconns st) = 1 \<and> dispatch line_llhttp SlowSignal st = Inr st1
     \<and> dispatch line_llhttp (SlowTimer good_env) st1 = Inr st' \<and> (\<exists>c. map_of (pconns st') 0 = Some c \<and> \<not> fast_mode c)"
proof -
  obtain st :: "unit proxy" and h where st: "reachable line_llhttp st" "pconns st = [(0, new_conn idle_sock h)]" "scheduled st = []"
    by (rule first_connection [OF good_env_ok(2)])
  obtain st1 where s: "dispatch line_llhttp SlowSignal st = Inr st1" by (simp add: dispatch_def)
  obtain st' where st': "dispatch line_llhttp (SlowTimer good_env) st1 = Inr st'" "dom (map_of (pconns st')) = dom (map_of (pconns st))"
    "\<forall>i c. map_of (pconns st') i = Some c \<longrightarrow> \<not> fast_mode c"
    using signal_slows_everyone [OF line_llhttp_ok st(1) good_env_ok(1) st(3) s] by blast
  have "0 \<in> dom (map_of (pconns st'))" unfolding st'(2) by (simp add: st(2))
  with st'(3) obtain c where "map_of (pconns st') 0 = Some c \<and> \<not> fast_mode c" by blast
  moreover have "length (pconns st) = 1" by (simp add: st(2))
  ultimately show ?thesis using st(1) s st'(1) by blast
qed


end
