(* ===== verification/Progress.thy ===== *)
theory Progress
  imports Signals
begin

text \<open>
  Slow mode makes progress.  As long as a socket takes at least a byte at every write, a request in
  the request file reaches its server, and a response in the response file its client, in at most as many events
  as there are bytes, and the event after that ends the transfer.  Both are instances of the locale \<open>draining\<close>.
\<close>

section \<open>Draining\<close>

locale draining =
  fixes step :: "'s \<Rightarrow> 's \<Rightarrow> bool" and left :: "'s \<Rightarrow> 'b list" and out :: "'s \<Rightarrow> 'b list" and ready :: "'s \<Rightarrow> bool"
  assumes progress: "ready s \<Longrightarrow> left s \<noteq> [] \<Longrightarrow>
    \<exists>s'. step s s' \<and> ready s' \<and> length (left s') < length (left s) \<and> out s' @ left s' = out s @ left s"
begin

lemma drains: "ready s \<Longrightarrow> \<exists>n s'. n \<le> length (left s) \<and> (step ^^ n) s s' \<and> ready s' \<and> left s' = [] \<and> out s' = out s @ left s"
proof (induction "length (left s)" arbitrary: s rule: less_induct)
  case less
  show ?case
  proof (cases "left s = []")
    case True
    with less.prems show ?thesis by (intro exI [of _ 0] exI [of _ s]) simp
  next
    case False
    with progress [OF less.prems] obtain s1 where s1: "step s s1" "ready s1" "length (left s1) < length (left s)"
      "out s1 @ left s1 = out s @ left s" by blast
    from less.hyps [OF s1(3,2)] obtain n s2 where "n \<le> length (left s1)" "(step ^^ n) s1 s2" "ready s2" "left s2 = []"
      "out s2 = out s1 @ left s1" by blast
    moreover from s1(1) this(2) have "(step ^^ Suc n) s s2" by (rule relpowp_Suc_I2)
    ultimately show ?thesis using s1(3,4) by (intro exI [of _ "Suc n"] exI [of _ s2]) (simp del: relpowp.simps)
  qed
qed

end

text \<open>A socket that takes at least one byte in each of the next \<open>n\<close> writes.\<close>

definition willing :: "sock \<Rightarrow> nat \<Rightarrow> bool" where
  "willing s n \<longleftrightarrow> n \<le> length (tx s) \<and> (\<forall>r \<in> set (take n (tx s)). \<exists>k > 0. r = WAcc k)"

lemma willing_less: "willing s n \<Longrightarrow> m \<le> n \<Longrightarrow> willing s m"
  by (auto simp: willing_def dest: set_take_subset_set_take [THEN subsetD])

lemma sys_write_willing:
  assumes "willing s (length d + m)" "d \<noteq> []" "sys_write s d = (count, s')"
  shows "0 < count" "willing s' (length d - nat count + m)"
proof -
  from assms(1,2) obtain r rs where t: "tx s = r # rs" "length d + m \<le> Suc (length rs)"
    by (cases "tx s") (auto simp: willing_def)
  from assms(2) obtain l where l: "length d + m = Suc l" by (cases d) auto
  with assms(1) t obtain k where k: "r = WAcc k" "k > 0" "\<forall>r \<in> set (take l rs). \<exists>k > 0. r = WAcc k" by (auto simp: willing_def)
  with assms(2,3) t show c: "0 < count" by (auto simp: sys_write_def)
  have "tx s' = rs" using assms(3) t k(1) by (auto simp: sys_write_def)
  then have "willing s' l" using k(3) t(2) l by (simp add: willing_def)
  then show "willing s' (length d - nat count + m)" by (rule willing_less) (use c l assms(2) in \<open>cases d; simp\<close>)
qed

lemma write_all_loop_willing:
  assumes "willing s (length d + m)" "write_all_loop s d stat = (remain, stat', s')"
  shows "remain = 0 \<and> willing s' m"
  using assms
proof (induction s d stat rule: write_all_loop.induct)
  case (1 s d stat)
  show ?case
  proof (cases "d = []")
    case True
    with "1.prems" show ?thesis by (simp add: write_all_loop.simps)
  next
    case False
    obtain count s1 where w: "sys_write s d = (count, s1)" by (cases "sys_write s d")
    note p = sys_write_willing [OF "1.prems"(1) False w]
    have "write_all_loop s1 (drop (nat count) d) stat = (remain, stat', s')"
      using "1.prems"(2) w p(1) False by (simp add: write_all_loop.simps [of s])
    with "1.IH" [OF _ w [symmetric] p(1)] p False show ?thesis by simp
  qed
qed

lemma write_all_willing:
  assumes "willing s (length d + m)" "write_all s d = (stat, s')"
  shows "sent s' = sent s @ d" "willing s' m"
proof -
  obtain remain st s1 where l: "write_all_loop s d io_stat_init = (remain, st, s1)" by (cases "write_all_loop s d io_stat_init")
  from write_all_loop_willing [OF assms(1) l] assms(2) l have "nbytes stat = length d" "willing s' m"
    by (auto simp: write_all_def)
  with write_all_spec(1) [OF assms(2)] show "sent s' = sent s @ d" "willing s' m" by simp_all
qed

section \<open>Events in a row\<close>

definition handles :: "'p llhttp \<Rightarrow> event \<Rightarrow> 'p proxy \<Rightarrow> 'p proxy \<Rightarrow> bool" where
  "handles ll ev st st' \<longleftrightarrow> event_ok ev \<and> enabled ev st \<and> dispatch ll ev st = Inr st'"

lemma handles_replicate: "(handles ll ev ^^ n) st st' \<longleftrightarrow> run_of ll st (replicate n ev) st'"
proof (induction n arbitrary: st)
  case (Suc n)
  have "(handles ll ev ^^ Suc n) st st' \<longleftrightarrow> (\<exists>st1. handles ll ev st st1 \<and> (handles ll ev ^^ n) st1 st')"
    by (meson relpowp_Suc_D2 relpowp_Suc_I2)
  also have "\<dots> \<longleftrightarrow> run_of ll st (replicate (Suc n) ev) st'" unfolding Suc.IH by (auto simp: handles_def)
  finally show ?case .
qed auto

lemma handles_reachable: "reachable ll st \<Longrightarrow> handles ll ev st st' \<Longrightarrow> reachable ll st'"
  by (auto simp: handles_def intro: reachable.step)

lemma on_conn_live:
  assumes "h (pworld st) c = Inr (w, Live c')" "map_of (pconns st) i = Some c"
  shows "on_conn h i st = Inr (st\<lparr>pworld := w, pconns := put_outcome i (Live c') (pconns st)\<rparr>)"
    "map_of (pconns (st\<lparr>pworld := w, pconns := put_outcome i (Live c') (pconns st)\<rparr>)) i = Some c'"
  using assms by (simp_all add: on_conn_def map_of_put_outcome)

section \<open>Requests\<close>

text \<open>What is left of the request the server of connection \<open>i\<close> is being sent, and what it was sent.\<close>

definition request_left :: "nat \<Rightarrow> 'p proxy \<Rightarrow> char list" where
  "request_left i st = (case map_of (pconns st) i of None \<Rightarrow> [] | Some c \<Rightarrow> request_left_of c)"

definition request_out :: "nat \<Rightarrow> 'p proxy \<Rightarrow> char list" where
  "request_out i st = (case map_of (pconns st) i of None \<Rightarrow> []
     | Some c \<Rightarrow> (case server c of None \<Rightarrow> [] | Some sv \<Rightarrow> sent (s_sock sv)))"

definition request_ready :: "'p llhttp \<Rightarrow> nat \<Rightarrow> 'p proxy \<Rightarrow> bool" where
  "request_ready ll i st \<longleftrightarrow> llhttp_ok ll \<and> reachable ll st
     \<and> (\<exists>c sv. map_of (pconns st) i = Some c \<and> mode_of c = Serving \<and> server c = Some sv \<and> s_write_evt sv
          \<and> willing (s_sock sv) (length (request_left i st)))"

lemma request_readyE:
  assumes "request_ready ll i st"
  obtains c sv where "llhttp_ok ll" "reachable ll st" "map_of (pconns st) i = Some c" "mode_of c = Serving" "slow_serving c"
    "server c = Some sv" "s_write_evt sv" "willing (s_sock sv) (length (request_left i st))"
proof -
  from assms obtain c sv where c: "llhttp_ok ll" "reachable ll st" "map_of (pconns st) i = Some c" "mode_of c = Serving"
    "server c = Some sv" "s_write_evt sv" "willing (s_sock sv) (length (request_left i st))" by (auto simp: request_ready_def)
  have "conn_inv c" using reachable_proxy_inv [OF c(1,2)] c(3) by (auto dest: proxy_invD)
  then have "slow_serving c" using conn_inv_mode(6) c(4) by blast
  with c that show thesis by blast
qed

lemma serving_writable:
  assumes "map_of (pconns st) i = Some c" "slow_serving c" "server c = Some sv" "s_write_evt sv"
    "Server_send_request_slowly (pworld st) c = Inr (w, Live c')"
  shows "handles ll (ServerWritable i) st (st\<lparr>pworld := w, pconns := put_outcome i (Live c') (pconns st)\<rparr>)"
  using assms on_conn_live(1) [of Server_on_writable st c w c' i]
  by (simp add: handles_def event_ok_def enabled_def dispatch_def Server_on_writable_def slow_serving_def)

interpretation requests: draining "handles ll (ServerWritable i)" "request_left i" "request_out i" "request_ready ll i"
  for ll :: "'p llhttp" and i
proof
  fix st :: "'p proxy" assume ready: "request_ready ll i st" and "request_left i st \<noteq> []"
  from ready show "\<exists>st'. handles ll (ServerWritable i) st st' \<and> request_ready ll i st'
      \<and> length (request_left i st') < length (request_left i st)
      \<and> request_out i st' @ request_left i st' = request_out i st @ request_left i st"
  proof (rule request_readyE)
    fix c sv assume c: "llhttp_ok ll" "reachable ll st" "map_of (pconns st) i = Some c" "mode_of c = Serving" "slow_serving c"
      "server c = Some sv" "s_write_evt sv" "willing (s_sock sv) (length (request_left i st))"
    show ?thesis
    proof (rule send_request_unfold [OF c(5), where w = "pworld st"], goal_cases)
      case (1 sv' rb tb d rb2 ssk rb3)
      let ?rest = "drop (fd_pos rb) (content rb)"
      let ?c = "c\<lparr>server := Some (sv\<lparr>s_sock := ssk\<rparr>), client := (client c)\<lparr>request_buf := Some rb3\<rparr>\<rparr>"
      let ?st = "st\<lparr>pworld := pworld st, pconns := put_outcome i (Live ?c) (pconns st)\<rparr>"
      have sv: "sv' = sv" using 1(1) c(6) by simp
      have rest: "request_left i st = ?rest" "request_out i st = sent (s_sock sv)"
        using c(3,6) 1(2) by (simp_all add: request_left_def request_left_of_def request_out_def)
      with \<open>request_left i st \<noteq> []\<close> have d: "d \<noteq> []" "?rest = d @ drop (length d) ?rest" "length d \<le> length ?rest"
        using 1(6) append_take_drop_id [of SOCK_IO_BUF_SIZE ?rest] by (auto simp: SOCK_IO_BUF_SIZE_def min_def)
      have "willing (s_sock sv) (length d + (length ?rest - length d))" using c(8) unfolding rest(1) le_add_diff_inverse [OF d(3)] .
      from write_all_willing [OF this, of "fst (write_all (s_sock sv) d)" ssk] 1(14) sv
      have w: "sent ssk = sent (s_sock sv) @ d" "willing ssk (length ?rest - length d)" by simp_all
      have w2: "willing ssk (length (drop (length d) ?rest))" using w(2) by (simp only: length_drop)
      have left: "drop (fd_pos rb3) (content rb3) = drop (length d) ?rest" using 1(12) w(1) d(2) sv by simp
      have h: "handles ll (ServerWritable i) st ?st"
        by (rule serving_writable [OF c(3,5-7)]) (use 1(13) d(1) sv in simp)
      have st: "map_of (pconns ?st) i = Some ?c" "request_left i ?st = drop (length d) ?rest" "request_out i ?st = sent ssk"
        by (simp_all add: map_of_put_outcome request_left_def request_left_of_def request_out_def left)
      moreover have "mode_of ?c = Serving" using c(4) by (simp add: mode_of_def split: if_splits)
      ultimately have "request_ready ll i ?st"
        using c(1,7) w2 handles_reachable [OF c(2) h] by (simp add: request_ready_def)
      moreover have "length (drop (length d) ?rest) < length ?rest" using d(1,3) by (cases d) simp_all
      ultimately show ?case using h st(2,3) rest w(1) d(1,2) by (intro exI [of _ ?st]) simp
    qed
  qed
qed

text \<open>The event after the last byte ends the transfer: the files change roles and nothing is to be written.\<close>

lemma request_finished:
  assumes "request_ready ll i st" "request_left i st = []"
  obtains st' c c' where "handles ll (ServerWritable i) st st'" "map_of (pconns st) i = Some c" "map_of (pconns st') i = Some c'"
    "\<not> sending c'" "request_buf (client c') = request_tmp_buf (client c)" "request_out i st' = request_out i st"
  using assms(1)
proof (rule request_readyE)
  fix c sv assume c: "llhttp_ok ll" "reachable ll st" "map_of (pconns st) i = Some c" "mode_of c = Serving" "slow_serving c"
    "server c = Some sv" "s_write_evt sv" "willing (s_sock sv) (length (request_left i st))"
  show thesis
  proof (rule send_request_unfold [OF c(5), where w = "pworld st"], goal_cases)
    case (1 sv' rb tb d rb2 ssk rb3)
    let ?c = "c\<lparr>server := Some (sv\<lparr>s_write_evt := False\<rparr>), client := (client c)\<lparr>request_buf := Some tb, request_tmp_buf := Some rb2\<rparr>\<rparr>"
    let ?st = "st\<lparr>pworld := pworld st, pconns := put_outcome i (Live ?c) (pconns st)\<rparr>"
    have "d = []" using 1(2,6) assms(2) c(3) by (simp add: request_left_def request_left_of_def)
    then have "handles ll (ServerWritable i) st ?st"
      by (intro serving_writable [OF c(3,5-7)]) (use 1(1,13) c(6) in simp)
    then show ?case
      by (rule that [OF _ c(3), of ?st ?c]) (simp_all add: map_of_put_outcome sending_def 1(4) request_out_def c(3,6))
  qed
qed

text \<open>
  C11: a complete request reaches its server.  When in slow mode a server is being sent a request and its
  socket takes at least one byte at every write, then after at most as many writable events as
  bytes are left the server has been sent all of them and nothing else, and one more event ends the
  transfer: the file with the pipelined rest becomes the request file, and writing stops.
\<close>

theorem slow_request_sent:
  assumes "llhttp_ok ll" "reachable ll st" "map_of (pconns st) i = Some c" "mode_of c = Serving" "server c = Some sv" "s_write_evt sv"
    "willing (s_sock sv) (length (request_left i st))"
  shows "\<exists>n st1 st' c1 c'. n \<le> length (request_left i st) \<and> run_of ll st (replicate n (ServerWritable i)) st1
    \<and> request_out i st1 = sent (s_sock sv) @ request_left i st \<and> run_of ll st1 [ServerWritable i] st'
    \<and> request_out i st' = request_out i st1 \<and> map_of (pconns st1) i = Some c1 \<and> map_of (pconns st') i = Some c'
    \<and> request_buf (client c') = request_tmp_buf (client c1) \<and> \<not> sending c'"
proof -
  have "request_ready ll i st" using assms by (simp add: request_ready_def)
  from requests.drains [OF this] obtain n st1 where n: "n \<le> length (request_left i st)"
    "(handles ll (ServerWritable i) ^^ n) st st1" "request_ready ll i st1" "request_left i st1 = []"
    "request_out i st1 = request_out i st @ request_left i st" by blast
  obtain st' c1 c' where "handles ll (ServerWritable i) st1 st'" "map_of (pconns st1) i = Some c1" "map_of (pconns st') i = Some c'"
    "\<not> sending c'" "request_buf (client c') = request_tmp_buf (client c1)" "request_out i st' = request_out i st1"
    using request_finished [OF n(3,4)] .
  moreover have "request_out i st = sent (s_sock sv)" using assms(3,5) by (simp add: request_out_def)
  ultimately show ?thesis using n(1,2,5) unfolding handles_replicate
    by (intro exI [of _ n] exI [of _ st1] exI [of _ st'] exI [of _ c1] exI [of _ c']) (simp add: handles_def)
qed

section \<open>Responses\<close>

definition response_left :: "nat \<Rightarrow> 'p proxy \<Rightarrow> char list" where
  "response_left i st = (case map_of (pconns st) i of None \<Rightarrow> []
     | Some c \<Rightarrow> (case response_buf (client c) of None \<Rightarrow> [] | Some pb \<Rightarrow> drop (reader_pos pb) (content pb)))"

definition response_out :: "nat \<Rightarrow> 'p proxy \<Rightarrow> char list" where
  "response_out i st = (case map_of (pconns st) i of None \<Rightarrow> [] | Some c \<Rightarrow> sent (c_sock (client c)))"

definition response_ready :: "'p llhttp \<Rightarrow> nat \<Rightarrow> 'p connection \<Rightarrow> 'p proxy \<Rightarrow> bool" where
  "response_ready ll i c0 st \<longleftrightarrow> llhttp_ok ll \<and> reachable ll st
     \<and> (\<exists>c. map_of (pconns st) i = Some c \<and> \<not> fast_mode c \<and> c_write_evt (client c) \<and> parser c = parser c0 \<and> server c = server c0
          \<and> willing (c_sock (client c)) (length (response_left i st)))"

lemma response_readyE:
  assumes "response_ready ll i c0 st"
  obtains c where "llhttp_ok ll" "reachable ll st" "map_of (pconns st) i = Some c" "\<not> fast_mode c" "slow_conn c"
    "c_write_evt (client c)" "parser c = parser c0" "server c = server c0" "willing (c_sock (client c)) (length (response_left i st))"
proof -
  from assms obtain c where c: "llhttp_ok ll" "reachable ll st" "map_of (pconns st) i = Some c" "\<not> fast_mode c" "c_write_evt (client c)"
    "parser c = parser c0" "server c = server c0" "willing (c_sock (client c)) (length (response_left i st))" by (auto simp: response_ready_def)
  have "conn_inv c" using reachable_proxy_inv [OF c(1,2)] c(3) by (auto dest: proxy_invD)
  then have "slow_conn c" using c(4) slow_conn_inv by blast
  with c that show thesis by blast
qed

lemma client_writable_handled:
  assumes "reachable ll st" "llhttp_ok ll" "map_of (pconns st) i = Some c" "\<not> fast_mode c" "c_write_evt (client c)"
    "Client_send_response_slowly (pworld st) c = Inr (w, r)"
  shows "handles ll (ClientWritable i) st (st\<lparr>pworld := w, pconns := put_outcome i r (pconns st)\<rparr>)"
proof -
  have "ClientWrite i \<in> set (pending_events (pconns st))"
    using assms(3,5) pending_events_iff [OF proxy_invD(2) [OF reachable_proxy_inv [OF assms(2,1)]]]
    by (simp add: get_associated_conn_def pending_events_of_def)
  with assms show ?thesis by (simp add: handles_def event_ok_def enabled_def dispatch_def on_conn_def Client_on_writable_def)
qed

interpretation responses: draining "handles ll (ClientWritable i)" "response_left i" "response_out i" "response_ready ll i c0"
  for ll :: "'p llhttp" and i c0
proof
  fix st :: "'p proxy" assume ready: "response_ready ll i c0 st" and "response_left i st \<noteq> []"
  from ready show "\<exists>st'. handles ll (ClientWritable i) st st' \<and> response_ready ll i c0 st'
      \<and> length (response_left i st') < length (response_left i st)
      \<and> response_out i st' @ response_left i st' = response_out i st @ response_left i st"
  proof (rule response_readyE)
    fix c assume c: "llhttp_ok ll" "reachable ll st" "map_of (pconns st) i = Some c" "\<not> fast_mode c" "slow_conn c"
      "c_write_evt (client c)" "parser c = parser c0" "server c = server c0" "willing (c_sock (client c)) (length (response_left i st))"
    show ?thesis
    proof (rule send_response_unfold [OF c(5), where w = "pworld st"], goal_cases)
      case (1 pb d pb1 sk pb2 c1)
      let ?rest = "drop (reader_pos pb) (content pb)"
      let ?c = "c\<lparr>client := (client c)\<lparr>c_sock := sk, response_buf := Some pb2\<rparr>\<rparr>"
      let ?st = "st\<lparr>pworld := pworld st, pconns := put_outcome i (Live ?c) (pconns st)\<rparr>"
      have rest: "response_left i st = ?rest" "response_out i st = sent (c_sock (client c))"
        using c(3) 1(1) by (simp_all add: response_left_def response_out_def)
      with \<open>response_left i st \<noteq> []\<close> have d: "d \<noteq> []" using 1(5) by auto
      have le: "length d \<le> length ?rest" using arg_cong [OF 1(12), of length] by simp
      have split: "?rest = d @ drop (length d) ?rest" using append_take_drop_id [of "length d" ?rest] 1(12) by simp
      have "willing (c_sock (client c)) (length d + (length ?rest - length d))" using c(9) unfolding rest(1) le_add_diff_inverse [OF le] .
      from write_all_willing [OF this, of "fst (write_all (c_sock (client c)) d)" sk] 1(13)
      have w: "sent sk = sent (c_sock (client c)) @ d" "willing sk (length ?rest - length d)" by simp_all
      have w2: "willing sk (length (drop (length d) ?rest))" using w(2) by (simp only: length_drop)
      have left: "drop (reader_pos pb2) (content pb2) = drop (length d) ?rest" using 1(9) w(1) split by simp
      have h: "handles ll (ClientWritable i) st ?st"
        by (rule client_writable_handled [OF c(2,1,3,4,6)]) (use 1(11) d in simp)
      have st: "map_of (pconns ?st) i = Some ?c" "response_left i ?st = drop (length d) ?rest" "response_out i ?st = sent sk"
        by (simp_all add: map_of_put_outcome response_left_def response_out_def left)
      then have "response_ready ll i c0 ?st"
        using c(1,4,6-8) w2 handles_reachable [OF c(2) h] by (simp add: response_ready_def)
      moreover have "length (drop (length d) ?rest) < length ?rest" using d le by (cases d) simp_all
      ultimately show ?case using h st(2,3) rest w(1) d split by (intro exI [of _ ?st]) simp
    qed
  qed
qed

lemma response_finished:
  assumes "response_ready ll i c0 st" "response_left i st = []"
  obtains st' where "handles ll (ClientWritable i) st st'"
    "if parser c0 = None then map_of (pconns st') i = None
     else \<exists>c'. map_of (pconns st') i = Some c' \<and> \<not> c_write_evt (client c') \<and> server c' = server c0 \<and> response_out i st' = response_out i st"
  using assms(1)
proof (rule response_readyE)
  fix c assume c: "llhttp_ok ll" "reachable ll st" "map_of (pconns st) i = Some c" "\<not> fast_mode c" "slow_conn c"
    "c_write_evt (client c)" "parser c = parser c0" "server c = server c0" "willing (c_sock (client c)) (length (response_left i st))"
  note inv = reachable_proxy_inv [OF c(1,2)]
  show thesis
  proof (rule send_response_unfold [OF c(5), where w = "pworld st"], goal_cases)
    case (1 pb d pb1 sk pb2 c1)
    have "response_left i st = drop (reader_pos pb) (content pb)" using c(3) 1(1) by (simp add: response_left_def)
    then have d: "d = []" using 1(12) assms(2) by simp
    show ?case
    proof (cases "parser c = None")
      case True
      have "history_ok (client c1)" using proxy_invD(3) [OF inv c(3)] 1(10) by (simp add: conn_inv_def)
      with proxy_invD(1) [OF inv] obtain w' c' where "Connection_delete (pworld st) c1 = Inr (w', Deleted c')" by (rule delete_safe)
      with 1(10,11) d True have "Client_send_response_slowly (pworld st) c = Inr (w', Deleted c')" by simp
      from client_writable_handled [OF c(2,1,3,4,6) this] show ?thesis
        by (rule that) (use True c(7) in \<open>simp add: map_of_put_outcome\<close>)
    next
      case False
      with 1(10,11) d have "Client_send_response_slowly (pworld st) c = Inr (pworld st, Live c1)" by simp
      from client_writable_handled [OF c(2,1,3,4,6) this] show ?thesis
        by (rule that) (use False c(3,7,8) 1(10) in \<open>simp add: map_of_put_outcome response_out_def\<close>)
    qed
  qed
qed

text \<open>
  C12: a response reaches its client.  When in slow mode the response file is being sent and the client's socket takes at least
  one byte at every write, then after at most as many writable events as bytes are left the
  client has been sent all of them and nothing else; one more event stops the writing, or closes the
  connection if it was only kept for this response.
\<close>

theorem slow_response_delivered:
  assumes "llhttp_ok ll" "reachable ll st" "map_of (pconns st) i = Some c" "\<not> fast_mode c" "c_write_evt (client c)"
    "willing (c_sock (client c)) (length (response_left i st))"
  shows "\<exists>n st1 st'. n \<le> length (response_left i st) \<and> run_of ll st (replicate n (ClientWritable i)) st1
    \<and> response_out i st1 = sent (c_sock (client c)) @ response_left i st \<and> run_of ll st1 [ClientWritable i] st'
    \<and> (if parser c = None then map_of (pconns st') i = None
       else \<exists>c'. map_of (pconns st') i = Some c' \<and> \<not> c_write_evt (client c') \<and> server c' = server c
         \<and> response_out i st' = response_out i st1)"
proof -
  have "response_ready ll i c st" using assms by (simp add: response_ready_def)
  from responses.drains [OF this] obtain n st1 where n: "n \<le> length (response_left i st)"
    "(handles ll (ClientWritable i) ^^ n) st st1" "response_ready ll i c st1" "response_left i st1 = []"
    "response_out i st1 = response_out i st @ response_left i st" by blast
  obtain st' where "handles ll (ClientWritable i) st1 st'"
    "if parser c = None then map_of (pconns st') i = None
     else \<exists>c'. map_of (pconns st') i = Some c' \<and> \<not> c_write_evt (client c') \<and> server c' = server c \<and> response_out i st' = response_out i st1"
    using response_finished [OF n(3,4)] .
  moreover have "response_out i st = sent (c_sock (client c))" using assms(3) by (simp add: response_out_def)
  ultimately show ?thesis using n(1,2,5) unfolding handles_replicate
    by (intro exI [of _ n] exI [of _ st1] exI [of _ st']) (simp add: handles_def)
qed

section \<open>Examples\<close>

text \<open>A server that takes the request one byte at a time.\<close>

definition hesitant :: "sock \<Rightarrow> sock" where
  "hesitant s = s\<lparr>tx := [WAcc 1, WAcc 1]\<rparr>"

lemma hesitant_simps [simp]:
  "rx (hesitant s) = rx s" "tx (hesitant s) = [WAcc 1, WAcc 1]" "sent (hesitant s) = sent s" "received (hesitant s) = received s" "fresh_sock (hesitant s) = fresh_sock s"
  "willing (hesitant s) 2"
  by (simp_all add: hesitant_def fresh_sock_def willing_def eval_nat_numeral)

lemma hesitant_fresh: "fresh_sock (hesitant idle_sock)"
  by simp

lemma two_lines_fresh: "fresh_sock two_lines" "rx two_lines = [RData [CHR ''a'', CHR 0x0A, CHR ''b'']]"
  by (simp_all add: fresh_sock_def two_lines_def idle_sock_def)

theorem slow_request_sent_witness:
  "\<exists>st n st1 st' c'. reachable line_llhttp st \<and> n \<le> 2 \<and> run_of line_llhttp st (replicate n (ServerWritable 0)) st1
     \<and> request_out 0 st1 = [CHR ''a'', CHR 0x0A] \<and> run_of line_llhttp st1 [ServerWritable 0] st'
     \<and> map_of (pconns st') 0 = Some c' \<and> \<not> sending c'"
proof (rule lines_served [OF two_lines_fresh hesitant_fresh], goal_cases)
  case (1 env st0 st st' c c' sv)
  have r: "reachable line_llhttp st'" by (rule reachable.step [OF 1(5-8)])
  from 1(16) have m: "mode_of c' = Serving" "server c' = Some sv" "s_write_evt sv" "s_sock sv = hesitant idle_sock"
    by (auto simp: lines_sent_def mode_of_def)
  have l: "request_left 0 st' = [CHR ''a'', CHR 0x0A]" using 1(15,16) by (simp add: request_left_def lines_sent_def)
  then have w: "willing (s_sock sv) (length (request_left 0 st'))" using m(4) by (simp add: numeral_2_eq_2 [symmetric])
  have s: "sent (s_sock sv) = []" using m(4) good_env_ok(2) by (simp add: fresh_sock_def)
  obtain n st1 st2 c2 where "n \<le> length (request_left 0 st')" "run_of line_llhttp st' (replicate n (ServerWritable 0)) st1"
    "request_out 0 st1 = sent (s_sock sv) @ request_left 0 st'" "run_of line_llhttp st1 [ServerWritable 0] st2"
    "map_of (pconns st2) 0 = Some c2" "\<not> sending c2"
    using slow_request_sent [OF line_llhttp_ok r 1(15) m(1-3) w] by blast
  with r l s show ?case by (intro exI [of _ st'] exI [of _ n] exI [of _ st1] exI [of _ st2] exI [of _ c2]) simp
qed

text \<open>A server that answers with two bytes, and a client that takes one at a time.\<close>

definition answering_sock :: sock where
  "answering_sock = idle_sock\<lparr>rx := [RData ''ok'']\<rparr>"

lemma answering_fresh: "fresh_sock answering_sock" "fresh_sock (hesitant two_lines)"
    "rx (hesitant two_lines) = [RData [CHR ''a'', CHR 0x0A, CHR ''b'']]"
  using two_lines_fresh by (simp_all add: answering_sock_def fresh_sock_def idle_sock_def)

lemma answer_parsed:
  assumes "HttpParser_do_parse line_llhttp p ''ok'' = (p1, ok)"
  shows "ok" "eom_last p1 = None"
  using assms by (auto simp: HttpParser_do_parse_def line_llhttp_def Let_def)

theorem slow_response_delivered_witness:
  "\<exists>st n st1. reachable line_llhttp st \<and> n \<le> 2 \<and> run_of line_llhttp st (replicate n (ClientWritable 0)) st1
     \<and> response_out 0 st1 = ''ok''"
proof (rule lines_served [OF answering_fresh(2,3,1)], goal_cases)
  case (1 env st0 st st' c c' sv)
  have r: "reachable line_llhttp st'" by (rule reachable.step [OF 1(5-8)])
  from 1(16) obtain p where p: "parser c' = Some p" and c': "server c' = Some sv" "s_sock sv = answering_sock" "s_read_evt sv"
    "\<not> fast_mode c'" "\<not> in_transition c'" "response_buf (client c') = Some new_response" "sent (c_sock (client c')) = []"
    "tx (c_sock (client c')) = [WAcc 1, WAcc 1]" by (auto simp: lines_sent_def)
  have "read_all (s_sock sv) SOCK_IO_BUF_SIZE = (''ok'', \<lparr>nbytes = 2, has_error = True, has_eof = False\<rparr>,
      answering_sock\<lparr>rx := [], received := ''ok'', sock_errno := EAGAIN\<rparr>)"
    using read_all_chunk [of answering_sock "''ok''" SOCK_IO_BUF_SIZE] c'(2) by (simp add: answering_sock_def SOCK_IO_BUF_SIZE_def idle_sock_def)
  moreover obtain pb1 where pb: "vt_store FIFOfilebuf_vt new_response ''ok'' = Inr pb1" "content pb1 = ''ok''" "reader_pos pb1 = 0"
    using response_store [OF new_files(5), of "''ok''"] by auto
  moreover obtain p1 where "HttpParser_do_parse line_llhttp p ''ok'' = (p1, True)" "eom_last p1 = None"
    using answer_parsed by (metis (full_types) surj_pair)
  ultimately have run: "Server_on_readable line_llhttp False (pworld st') c' = Inr (pworld st', Live (c'\<lparr>
      server := Some (sv\<lparr>s_sock := answering_sock\<lparr>rx := [], received := ''ok'', sock_errno := EAGAIN\<rparr>\<rparr>),
      client := Client_start_writing ((client c')\<lparr>response_buf := Some pb1\<rparr>), parser := Some p1\<rparr>))"
    using c'(1,4-6) p by (simp add: Server_on_readable_def Server_recv_to_buffer_slowly_def SOCK_IO_BUF_SIZE_def)
  let ?c = "c'\<lparr>server := Some (sv\<lparr>s_sock := answering_sock\<lparr>rx := [], received := ''ok'', sock_errno := EAGAIN\<rparr>\<rparr>),
      client := Client_start_writing ((client c')\<lparr>response_buf := Some pb1\<rparr>), parser := Some p1\<rparr>"
  let ?st = "st'\<lparr>pworld := pworld st', pconns := put_outcome 0 (Live ?c) (pconns st')\<rparr>"
  have "handles line_llhttp (ServerReadable 0 False) st' ?st"
    using on_conn_live(1) [where h = "Server_on_readable line_llhttp False", OF run 1(15)] 1(15) c'(1,3) by (simp add: handles_def event_ok_def enabled_def dispatch_def)
  with r have r2: "reachable line_llhttp ?st" by (rule handles_reachable)
  have c2: "map_of (pconns ?st) 0 = Some ?c" "\<not> fast_mode ?c" "c_write_evt (client ?c)" "response_left 0 ?st = ''ok''"
    "sent (c_sock (client ?c)) = []" "tx (c_sock (client ?c)) = [WAcc 1, WAcc 1]"
    using c'(4,7,8) pb(2,3) by (simp_all add: map_of_put_outcome client_ops response_left_def)
  have "willing (c_sock (client ?c)) (length (response_left 0 ?st))" unfolding c2(4) using c2(6) by (simp add: willing_def)
  from slow_response_delivered [OF line_llhttp_ok r2 c2(1-3) this] obtain n st1 where
    n: "n \<le> length (response_left 0 ?st)" "run_of line_llhttp ?st (replicate n (ClientWritable 0)) st1"
    "response_out 0 st1 = sent (c_sock (client ?c)) @ response_left 0 ?st" by blast
  have "n \<le> 2" "response_out 0 st1 = ''ok''" using n(1,3) unfolding c2(4,5) by simp_all
  with r2 n(2) show ?case by blast
qed

end
