(* ===== verification/Options.thy ===== *)
theory Options
  imports Net
begin

text \<open>
  The command lines of \<open>ls_proxy\<close>, \<open>speed_limit_proxy\<close> and \<open>simple_attack\<close>: what their \<open>main\<close>
  functions make of \<open>argv\<close>.  \<open>atoi\<close> and the GNU \<open>getopt\<close> and \<open>getopt_long\<close> are functions of the C
  library and written out here; arguments that are not options may stand anywhere, as GNU
  getopt permutes them to the end.
\<close>

section \<open>The C library\<close>

definition isspace :: "char \<Rightarrow> bool" where
  "isspace c \<longleftrightarrow> c = CHR '' '' \<or> of_char c \<in> {9 ..< 14 :: nat}"

definition isdigit :: "char \<Rightarrow> bool" where
  "isdigit c \<longleftrightarrow> of_char c \<in> {48 ..< 58 :: nat}"

text \<open>\<open>strtol\<close> in base ten on 64 bits: white space, a sign, digits; it saturates.\<close>

definition digits_value :: "string \<Rightarrow> int" where
  "digits_value ds = foldl (\<lambda>v c. v * 10 + (of_char c - 48)) 0 (takeWhile isdigit ds)"

definition strtol :: "string \<Rightarrow> int" where
  "strtol s =
     (let t = dropWhile isspace s in
      max (- (2 ^ 63)) (min (2 ^ 63 - 1)
        (case t of
           [] \<Rightarrow> 0
         | c # cs \<Rightarrow> if c = CHR ''-'' then - digits_value cs else if c = CHR ''+'' then digits_value cs
                     else digits_value t)))"

text \<open>\<open>atoi\<close> is the conversion of \<open>strtol\<close> to a 32-bit \<open>int\<close>.\<close>

definition atoi :: "string \<Rightarrow> int" where
  "atoi s = signed_take_bit 31 (strtol s)"

text \<open>
  The state of \<open>getopt\<close>: the rest of the group of short options it is in, the arguments it has not
  looked at, and those it has passed over.
\<close>

record getopt_state =
  cluster :: string
  unseen :: "string list"
  passed :: "string list"

definition getopt_init :: "string list \<Rightarrow> getopt_state" where
  "getopt_init argv = \<lparr>cluster = [], unseen = argv, passed = []\<rparr>"

text \<open>What a character stands for in a string of short options: nothing, or whether it takes an argument.\<close>

fun short_opt :: "string \<Rightarrow> char \<Rightarrow> bool option" where
  "short_opt [] c = None"
| "short_opt (x # xs) c =
     (if x = c \<and> c \<noteq> CHR '':'' \<and> c \<noteq> CHR '';'' then Some (take 1 xs = '':'') else short_opt xs c)"

text \<open>The character -1 that ends the options, as an integer, and the one of an error.\<close>

definition opt_end :: int where
  "opt_end = -1"

definition opt_error :: int where
  "opt_error = of_char CHR ''?''"

definition short_step :: "string \<Rightarrow> char \<Rightarrow> string \<Rightarrow> getopt_state \<Rightarrow> int \<times> string \<times> getopt_state" where
  "short_step spec c cs g =
     (case short_opt spec c of
        None \<Rightarrow> (opt_error, [], g\<lparr>cluster := cs\<rparr>)
      | Some takes_arg \<Rightarrow>
          if \<not> takes_arg then (of_char c, [], g\<lparr>cluster := cs\<rparr>)
          else if cs \<noteq> [] then (of_char c, cs, g\<lparr>cluster := []\<rparr>)
          else
            (case unseen g of
               [] \<Rightarrow> (opt_error, [], g\<lparr>cluster := []\<rparr>)
             | a # as \<Rightarrow> (of_char c, a, g\<lparr>cluster := [], unseen := as\<rparr>)))"

text \<open>
  Long options: the table is searched for a name that matches exactly until an entry with a null
  name.  The tables of this program have no such entry; where the search does not find the
  name it reads beyond the array.
\<close>

fun long_opt :: "(string \<times> bool \<times> char) list \<Rightarrow> string \<Rightarrow> (bool \<times> char) res" where
  "long_opt [] name = Inl OutOfBounds"
| "long_opt ((n, has_arg, val) # opts) name = (if n = name then Inr (has_arg, val) else long_opt opts name)"

definition long_step ::
    "(string \<times> bool \<times> char) list \<Rightarrow> string \<Rightarrow> getopt_state \<Rightarrow> (int \<times> string \<times> getopt_state) res" where
  "long_step opts a g =
     (let name = takeWhile (\<lambda>c. c \<noteq> CHR ''='') a; rest = dropWhile (\<lambda>c. c \<noteq> CHR ''='') a in
      bindE (long_opt opts name) (\<lambda>(has_arg, val).
        Inr (case rest of
               _ # value \<Rightarrow> if has_arg then (of_char val, value, g) else (opt_error, [], g)
             | [] \<Rightarrow>
                 if \<not> has_arg then (of_char val, [], g)
                 else
                   (case unseen g of
                      [] \<Rightarrow> (opt_error, [], g)
                    | v # vs \<Rightarrow> (of_char val, v, g\<lparr>unseen := vs\<rparr>)))))"

text \<open>
  One call: the option character or -1, \<open>optarg\<close>, and the state; \<open>None\<close> for the table stands for plain
  \<open>getopt\<close>.
\<close>

function getopt ::
    "string \<Rightarrow> (string \<times> bool \<times> char) list option \<Rightarrow> getopt_state \<Rightarrow> (int \<times> string \<times> getopt_state) res" where
  "getopt spec longs g =
     (case cluster g of
        c # cs \<Rightarrow> Inr (short_step spec c cs g)
      | [] \<Rightarrow>
          (case unseen g of
             [] \<Rightarrow> Inr (opt_end, [], g)
           | a # as \<Rightarrow>
               if a = ''--'' then Inr (opt_end, [], g\<lparr>unseen := as\<rparr>)
               else if take 1 a = ''-'' \<and> length a > 1 then
                 (if longs \<noteq> None \<and> take 2 a = ''--'' then long_step (the longs) (drop 2 a) (g\<lparr>unseen := as\<rparr>)
                  else Inr (short_step spec (a ! 1) (drop 2 a) (g\<lparr>unseen := as\<rparr>)))
               else getopt spec longs (g\<lparr>unseen := as, passed := passed g @ [a]\<rparr>)))"
  by pat_completeness auto
termination
  by (relation "measure (\<lambda>(spec, longs, g). length (unseen g))") auto

declare getopt.simps [simp del]

text \<open>When the options have ended: the arguments from \<open>argv[optind]\<close> on.\<close>

definition positional :: "getopt_state \<Rightarrow> string list" where
  "positional g = passed g @ unseen g"

text \<open>\<open>char c = getopt(...)\<close>, where the type \<open>char\<close> is signed or not, as the platform has it.\<close>

definition as_char :: "bool \<Rightarrow> int \<Rightarrow> int" where
  "as_char char_signed x = (if char_signed then signed_take_bit 7 x else take_bit 8 x)"

text \<open>Every option consumes something, so that the loops of the programs end.\<close>

definition args_size :: "getopt_state \<Rightarrow> nat" where
  "args_size g = length (cluster g) + sum_list (map (\<lambda>a. length a + 1) (unseen g))"

lemma short_step_size:
  assumes "short_step spec c cs g = (r, optarg, g')" "length cs < n"
  shows "args_size g' < n + sum_list (map (\<lambda>a. length a + 1) (unseen g))"
  using assms by (auto simp: short_step_def args_size_def split: option.splits if_splits list.splits)

lemma long_step_size:
  assumes "long_step opts a g = Inr (r, optarg, g')" "cluster g = []"
  shows "args_size g' \<le> args_size g"
  using assms by (auto simp: long_step_def args_size_def Let_def elim!: bindE_InrE split: if_splits list.splits)

lemma getopt_size:
  assumes "getopt spec longs g = Inr (r, optarg, g')" "r \<noteq> opt_end"
  shows "args_size g' < args_size g"
  using assms
proof (induction spec longs g rule: getopt.induct)
  case (1 spec longs g)
  show ?case
  proof (cases "cluster g")
    case (Cons c cs)
    with 1(2) have "short_step spec c cs g = (r, optarg, g')" by (simp add: getopt.simps [of spec longs g])
    from short_step_size [OF this, of "length (cluster g)"] Cons show ?thesis by (simp add: args_size_def)
  next
    case Nil
    show ?thesis
    proof (cases "unseen g")
      case Nil
      with 1(2,3) \<open>cluster g = []\<close> show ?thesis by (simp add: getopt.simps [of spec longs g])
    next
      case (Cons a as)
      let ?g = "g\<lparr>unseen := as\<rparr>"
      have s: "args_size ?g + length a < args_size g" using Cons by (simp add: args_size_def)
      consider "a = ''--''" | "a \<noteq> ''--''" "take 1 a = ''-''" "length a > 1" "longs \<noteq> None" "take 2 a = ''--''"
        | "a \<noteq> ''--''" "take 1 a = ''-''" "length a > 1" "\<not> (longs \<noteq> None \<and> take 2 a = ''--'')"
        | "a \<noteq> ''--''" "\<not> (take 1 a = ''-'' \<and> length a > 1)" by blast
      then show ?thesis
      proof cases
        case 2
        with 1(2) Nil Cons have "long_step (the longs) (drop 2 a) ?g = Inr (r, optarg, g')"
          by (simp add: getopt.simps [of spec longs g])
        from long_step_size [OF this] s Nil show ?thesis by simp
      next
        case 3
        with 1(2) Nil Cons have "short_step spec (a ! 1) (drop 2 a) ?g = (r, optarg, g')"
          by (auto simp: getopt.simps [of spec longs g])
        moreover have "length (drop 2 a) < length a" using 3(3) by simp
        ultimately show ?thesis using short_step_size s Nil Cons by (fastforce simp: args_size_def)
      next
        case 4
        with 1(2) Nil Cons have "getopt spec longs (g\<lparr>unseen := as, passed := passed g @ [a]\<rparr>) = Inr (r, optarg, g')"
          by (auto simp: getopt.simps [of spec longs g])
        from 1(1) [OF Nil Cons _ _ this 1(3)] 4 s Nil show ?thesis by (simp add: args_size_def)
      qed (use 1(2,3) Nil Cons in \<open>simp add: getopt.simps [of spec longs g]\<close>)
    qed
  qed
qed

lemma bindE_cong [fundef_cong]:
  assumes "m = m'" "\<And>x. m' = Inr x \<Longrightarrow> f x = g x"
  shows "bindE m f = bindE m' g"
  using assms by (cases m') auto

lemma as_char_end: "as_char sc opt_end = (if sc then -1 else 255)"
  by (simp add: as_char_def opt_end_def mask_eq_exp_minus_1)

lemma option_consumes:
  assumes "getopt spec longs g = Inr (r, optarg, g')" "as_char sc r = v" "0 < v" "v < 255"
  shows "args_size g' < args_size g"
  by (rule getopt_size [OF assms(1)]) (use assms(2-4) as_char_end [of sc] in \<open>auto split: if_splits\<close>)

section \<open>The three programs\<close>

text \<open>A command line ends the program with a status, or starts it with its settings.\<close>

datatype 'a command = Exit nat | Run 'a

text \<open>The assignment of an \<open>int\<close> to an \<open>unsigned short\<close>.\<close>

definition to_port :: "int \<Rightarrow> 16 word" where
  "to_port x = word_of_int x"

definition two_args :: "string list \<Rightarrow> (string \<Rightarrow> string \<Rightarrow> 'a) \<Rightarrow> 'a command" where
  "two_args args f = (case args of a # b # _ \<Rightarrow> Run (f a b) | _ \<Rightarrow> Exit 1)"

subsection \<open>ls_proxy\<close>

record ls_settings =
  ls_s_port :: "16 word"
  ls_p_port :: "16 word"
  ls_s_host :: string

definition ls_long_opts :: "(string \<times> bool \<times> char) list" where
  "ls_long_opts = [(''s_port'', True, CHR ''s''), (''help'', False, CHR ''h'')]"

function ls_options_loop :: "bool \<Rightarrow> getopt_state \<Rightarrow> 16 word \<Rightarrow> ls_settings command res" where
  "ls_options_loop sc g s_port =
     bindE (getopt ''s:h'' (Some ls_long_opts) g) (\<lambda>(r, optarg, g').
       let c = as_char sc r in
       if c > 0 then
         (if c = of_char CHR ''s'' then ls_options_loop sc g' (to_port (atoi optarg))
          else if c = of_char CHR ''h'' then Inr (Exit 0)
          else Inr (Exit 1))
       else Inr (two_args (positional g') (\<lambda>p h. \<lparr>ls_s_port = s_port, ls_p_port = to_port (atoi p), ls_s_host = h\<rparr>)))"
  by pat_completeness auto
termination
  by (relation "measure (\<lambda>(sc, g, p). args_size g)") (auto dest!: option_consumes)

declare ls_options_loop.simps [simp del]

definition ls_options :: "bool \<Rightarrow> string list \<Rightarrow> ls_settings command res" where
  "ls_options sc argv = ls_options_loop sc (getopt_init argv) 80"

subsection \<open>speed_limit_proxy\<close>

text \<open>\<open>max_speed\<close> is an \<open>int64_t\<close>, which holds every \<open>int\<close>.\<close>

record sl_settings =
  sl_s_port :: "16 word"
  sl_max_speed :: int
  sl_p_port :: "16 word"
  sl_s_host :: string

function sl_options_loop :: "bool \<Rightarrow> getopt_state \<Rightarrow> 16 word \<Rightarrow> int \<Rightarrow> sl_settings command res" where
  "sl_options_loop sc g s_port max_speed =
     bindE (getopt ''p:s:h'' None g) (\<lambda>(r, optarg, g').
       let c = as_char sc r in
       if c > 0 then
         (if c = of_char CHR ''p'' then sl_options_loop sc g' (to_port (atoi optarg)) max_speed
          else if c = of_char CHR ''s'' then sl_options_loop sc g' s_port (atoi optarg)
          else if c = of_char CHR ''h'' then Inr (Exit 1)
          else Inr (Exit 1))
       else Inr (two_args (positional g') (\<lambda>p h.
              \<lparr>sl_s_port = s_port, sl_max_speed = max_speed, sl_p_port = to_port (atoi p), sl_s_host = h\<rparr>)))"
  by pat_completeness auto
termination
  by (relation "measure (\<lambda>(sc, g, p, m). args_size g)") (auto dest!: option_consumes)

declare sl_options_loop.simps [simp del]

definition sl_options :: "bool \<Rightarrow> string list \<Rightarrow> sl_settings command res" where
  "sl_options sc argv = sl_options_loop sc (getopt_init argv) 80 10"

subsection \<open>simple_attack\<close>

record attack_settings =
  at_body_size :: int
  at_path :: string
  at_host :: string
  at_port :: "16 word"

definition int_times :: "int \<Rightarrow> int \<Rightarrow> int res" where
  "int_times x y = (if - (2 ^ 31) \<le> x * y \<and> x * y < 2 ^ 31 then Inr (x * y) else Inl SignedOverflow)"

function attack_options_loop :: "bool \<Rightarrow> getopt_state \<Rightarrow> int \<Rightarrow> string \<Rightarrow> attack_settings command res" where
  "attack_options_loop sc g body_size path =
     bindE (getopt ''s:p:h'' None g) (\<lambda>(r, optarg, g').
       let c = as_char sc r in
       if c > 0 then
         (if c = of_char CHR ''s'' then
            bindE (int_times (atoi optarg) 1024) (\<lambda>n. attack_options_loop sc g' n path)
          else if c = of_char CHR ''p'' then attack_options_loop sc g' body_size optarg
          else if c = of_char CHR ''h'' then Inr (Exit 1)
          else Inr (Exit 1))
       else Inr (two_args (positional g') (\<lambda>h p.
              \<lparr>at_body_size = body_size, at_path = path, at_host = h, at_port = to_port (atoi p)\<rparr>)))"
  by pat_completeness auto
termination
  by (relation "measure (\<lambda>(sc, g, b, p). args_size g)") (auto dest!: option_consumes)

declare attack_options_loop.simps [simp del]

definition attack_options :: "bool \<Rightarrow> string list \<Rightarrow> attack_settings command res" where
  "attack_options sc argv = attack_options_loop sc (getopt_init argv) (1024 * 1024) ''/''"

section \<open>Numbers\<close>

lemma to_string_isdigit: "c \<in> set (to_string n) \<Longrightarrow> isdigit c"
  using to_string_digits [of c n] by (simp add: isdigit_def)

lemma to_string_not_Nil [simp]: "to_string n \<noteq> []"
  by (subst to_string.simps) simp

lemma digits_value_to_string: "digits_value (to_string n) = int n"
proof -
  have "foldl (\<lambda>v c. v * 10 + (of_char c - 48)) (int a) ds = int (foldl (\<lambda>a c. 10 * a + (of_char c - 48)) a ds)"
    if "\<And>c. c \<in> set ds \<Longrightarrow> 48 \<le> (of_char c :: nat)" for a ds
    using that
  proof (induction ds arbitrary: a)
    case (Cons d ds)
    have "int (of_char d - 48) = int (of_char d) - 48" using Cons.prems [of d] by simp
    then have "int a * 10 + (of_char d - 48) = int (10 * a + (of_char d - 48))" by (simp add: of_nat_of_char)
    with Cons.IH [of "10 * a + (of_char d - 48)"] Cons.prems show ?case by simp
  qed simp
  from this [of "to_string n" 0] to_string_digits show ?thesis
    by (simp add: digits_value_def takeWhile_eq_all_conv [THEN iffD2] to_string_isdigit of_decimal_to_string [unfolded of_decimal_def])
qed

lemma strtol_to_string:
  assumes "n < 2 ^ 63"
  shows "strtol (to_string n) = int n"
proof -
  obtain c cs where c: "to_string n = c # cs" using to_string_not_Nil [of n] by (cases "to_string n") auto
  then have d: "isdigit c" using to_string_isdigit [of c n] by simp
  then have "\<not> isspace c" "c \<noteq> CHR ''-''" "c \<noteq> CHR ''+''" by (auto simp: isdigit_def isspace_def)
  with c assms digits_value_to_string [of n] show ?thesis by (simp add: strtol_def)
qed

lemma atoi_to_string: "n < 2 ^ 31 \<Longrightarrow> atoi (to_string n) = int n"
  by (simp add: atoi_def strtol_to_string signed_take_bit_int_eq_self)

text \<open>
  A number below 2^31 written in decimal is read back exactly by \<open>atoi\<close>, white space before it and a
  plus sign included, but as a port it is only kept modulo 65536: nothing checks the range.  An
  argument that is no number at all is port 0.
\<close>

theorem port_numbers:
  assumes "n < 2 ^ 31" "\<forall>c \<in> set w. isspace c" "c = CHR ''-'' \<or> \<not> isdigit c \<and> \<not> isspace c \<and> c \<noteq> CHR ''+''" "\<not> isdigit d"
  shows "atoi (w @ to_string n) = int n \<and> atoi (w @ ''+'' @ to_string n) = int n
    \<and> unat (to_port (atoi (to_string n))) = n mod 65536 \<and> to_port (atoi (w @ c # d # x)) = 0"
proof -
  have w: "dropWhile isspace (w @ y) = dropWhile isspace y" for y using assms(2) by (induction w) auto
  have st: "strtol (w @ y) = strtol y" for y by (simp add: strtol_def w)
  have p: "\<not> isspace CHR ''+''" "\<not> isspace CHR ''-''" by (simp_all add: isspace_def)
  have "digits_value (d # y) = 0" for y using assms(4) by (simp add: digits_value_def)
  moreover have "digits_value (c # d # x) = 0" if "c \<noteq> CHR ''-''" using assms(3) that by (simp add: digits_value_def)
  ultimately have "strtol (c # d # x) = 0" using assms(3) p by (auto simp: strtol_def)
  moreover have "strtol (''+'' @ to_string n) = int n" using assms(1) p by (simp add: strtol_def digits_value_to_string)
  moreover have "strtol (to_string n) = int n" using assms(1) by (simp add: strtol_to_string)
  moreover have "unat (to_port (int n)) = n mod 65536" by (simp add: to_port_def unat_of_nat)
  ultimately show ?thesis using assms(1) by (simp add: atoi_def st signed_take_bit_int_eq_self to_port_def)
qed

theorem port_numbers_witness:
  "atoi '' 8080'' = 8080 \<and> unat (to_port (atoi ''65616'')) = 80 \<and> to_port (atoi ''http'') = 0"
proof -
  have "to_string 8080 = ''8080''" "to_string 65616 = ''65616''" by (simp_all add: to_string.simps char_of_def bit_0)
  with port_numbers [of 8080 "'' ''" "CHR ''h''" "CHR ''t''" "''tp''"] port_numbers [of 65616 "[]" "CHR ''h''" "CHR ''t''" "''tp''"] show ?thesis
    by (simp add: isspace_def isdigit_def to_port_def)
qed

section \<open>Well-formed command lines\<close>

text \<open>
  A command line of \<open>ls_proxy\<close> as its author means it: words that are not options, and the server port
  in one of its four spellings.
\<close>

datatype spelling = Short | Short_glued | Long | Long_glued

datatype piece = Plain string | Port_opt spelling string

fun words :: "piece \<Rightarrow> string list" where
  "words (Plain w) = [w]"
| "words (Port_opt Short v) = [''-s'', v]"
| "words (Port_opt Short_glued v) = [''-s'' @ v]"
| "words (Port_opt Long v) = [''--s_port'', v]"
| "words (Port_opt Long_glued v) = [''--s_port='' @ v]"

fun piece_ok :: "piece \<Rightarrow> bool" where
  "piece_ok (Plain w) = (take 1 w \<noteq> ''-'' \<or> length w \<le> 1)"
| "piece_ok (Port_opt k v) = (v \<noteq> [])"

fun plain_word :: "piece \<Rightarrow> string list" where
  "plain_word (Plain w) = [w]"
| "plain_word (Port_opt k v) = []"

fun given_port :: "piece \<Rightarrow> 16 word \<Rightarrow> 16 word" where
  "given_port (Plain w) p = p"
| "given_port (Port_opt k v) p = to_port (atoi v)"

lemma getopt_plain:
  assumes "take 1 w \<noteq> ''-'' \<or> length w \<le> 1"
  shows "getopt spec longs \<lparr>cluster = [], unseen = w # as, passed = ps\<rparr> =
    getopt spec longs \<lparr>cluster = [], unseen = as, passed = ps @ [w]\<rparr>"
  using assms by (subst getopt.simps) auto

lemma getopt_port:
  assumes "v \<noteq> []"
  shows "getopt ''s:h'' (Some ls_long_opts) \<lparr>cluster = [], unseen = words (Port_opt k v) @ as, passed = ps\<rparr> =
    Inr (of_char CHR ''s'', v, \<lparr>cluster = [], unseen = as, passed = ps\<rparr>)"
  using assms
  by (cases k) (subst getopt.simps, simp add: short_step_def long_step_def ls_long_opts_def)+

lemma ls_options_loop_pieces:
  assumes "\<forall>x \<in> set xs. piece_ok x"
  shows "ls_options_loop True \<lparr>cluster = [], unseen = concat (map words xs), passed = ps\<rparr> p =
    Inr (two_args (ps @ concat (map plain_word xs))
      (\<lambda>a b. \<lparr>ls_s_port = fold given_port xs p, ls_p_port = to_port (atoi a), ls_s_host = b\<rparr>))"
  using assms
proof (induction xs arbitrary: ps p)
  case Nil
  show ?case
    by (subst ls_options_loop.simps, subst getopt.simps) (simp add: as_char_end positional_def)
next
  case (Cons x xs)
  show ?case
  proof (cases x)
    case (Plain w)
    with Cons.prems have "getopt ''s:h'' (Some ls_long_opts) \<lparr>cluster = [], unseen = concat (map words (x # xs)), passed = ps\<rparr> =
        getopt ''s:h'' (Some ls_long_opts) \<lparr>cluster = [], unseen = concat (map words xs), passed = ps @ [w]\<rparr>"
      by (simp add: getopt_plain)
    then have "ls_options_loop True \<lparr>cluster = [], unseen = concat (map words (x # xs)), passed = ps\<rparr> p =
        ls_options_loop True \<lparr>cluster = [], unseen = concat (map words xs), passed = ps @ [w]\<rparr> p"
      by (subst (1 2) ls_options_loop.simps) simp
    with Cons Plain show ?thesis by simp
  next
    case (Port_opt k v)
    have "as_char True (of_char CHR ''s'') = of_char CHR ''s''" by (simp add: as_char_def)
    with Cons Port_opt getopt_port [of v k "concat (map words xs)" ps] show ?thesis
      by (subst ls_options_loop.simps) simp
  qed
qed

text \<open>
  The command line of \<open>ls_proxy\<close> is understood as its help text says.  With options and words in
  any order and the port of the server in any spelling, the program runs with the first word as its
  own port, the second as the host and the last port given, or 80; with fewer than two words it exits with 1.
\<close>

theorem ls_options_correct:
  assumes "\<forall>x \<in> set xs. piece_ok x"
  shows "ls_options True (concat (map words xs)) =
    Inr (case concat (map plain_word xs) of
           p # h # _ \<Rightarrow> Run \<lparr>ls_s_port = fold given_port xs 80, ls_p_port = to_port (atoi p), ls_s_host = h\<rparr>
         | _ \<Rightarrow> Exit 1)"
  using ls_options_loop_pieces [OF assms, of "[]" 80]
  by (simp add: ls_options_def getopt_init_def two_args_def)

theorem ls_options_correct_witness:
  "ls_options True [''8080'', ''--s_port=8000'', ''example.org''] =
     Inr (Run \<lparr>ls_s_port = 8000, ls_p_port = 8080, ls_s_host = ''example.org''\<rparr>)"
proof -
  have "to_string 8000 = ''8000''" "to_string 8080 = ''8080''" by (simp_all add: to_string.simps char_of_def bit_0)
  then have "atoi ''8000'' = 8000" "atoi ''8080'' = 8080"
    using atoi_to_string [of 8000] atoi_to_string [of 8080] by simp_all
  moreover have "concat (map words [Plain ''8080'', Port_opt Long_glued ''8000'', Plain ''example.org'']) =
      [''8080'', ''--s_port=8000'', ''example.org'']" by simp
  moreover have "\<forall>x \<in> set [Plain ''8080'', Port_opt Long_glued ''8000'', Plain ''example.org'']. piece_ok x" by simp
  ultimately show ?thesis
    using ls_options_correct [of "[Plain ''8080'', Port_opt Long_glued ''8000'', Plain ''example.org'']"]
    by (simp only: concat.simps) (simp add: to_port_def)
qed

section \<open>Command lines that go wrong\<close>

text \<open>What \<open>getopt\<close> can return.\<close>

definition known_opt :: "string \<Rightarrow> (string \<times> bool \<times> char) list option \<Rightarrow> int \<Rightarrow> bool" where
  "known_opt spec longs r \<longleftrightarrow> r = opt_end \<or> r = opt_error
     \<or> (\<exists>c. r = of_char c \<and> (c \<in> set spec \<or> longs \<noteq> None \<and> (\<exists>n b. (n, b, c) \<in> set (the longs))))"

lemma short_opt_in: "short_opt spec c = Some b \<Longrightarrow> c \<in> set spec"
  by (induction spec) (auto split: if_splits)

lemma long_opt_in: "long_opt opts name = Inr (has_arg, c) \<Longrightarrow> \<exists>n b. (n, b, c) \<in> set opts"
  by (induction opts name rule: long_opt.induct) (auto split: if_splits)

lemma short_step_known: "short_step spec c cs g = (r, optarg, g') \<Longrightarrow> known_opt spec longs r"
  by (auto simp: short_step_def known_opt_def dest: short_opt_in split: option.splits if_splits list.splits)

lemma long_step_known: "long_step opts a g = Inr (r, optarg, g') \<Longrightarrow> known_opt spec (Some opts) r"
  by (auto simp: long_step_def known_opt_def Let_def dest!: long_opt_in elim!: bindE_InrE split: if_splits list.splits; blast)

lemma getopt_known:
  assumes "getopt spec longs g = Inr (r, optarg, g')"
  shows "known_opt spec longs r"
  using assms
proof (induction spec longs g rule: getopt.induct)
  case (1 spec longs g)
  from 1(2) show ?case
    by (subst (asm) getopt.simps)
      (auto intro: 1(1) short_step_known long_step_known [of _ _ _ r optarg g' spec] simp: known_opt_def [of _ _ opt_end]
        split: list.splits if_splits)
qed

lemma ls_known:
  assumes "getopt ''s:h'' (Some ls_long_opts) g = Inr (r, optarg, g')"
  shows "0 < as_char False r"
  using getopt_known [OF assms]
  by (auto simp: known_opt_def opt_error_def opt_end_def as_char_def ls_long_opts_def mask_eq_exp_minus_1)

lemma tool_known:
  assumes "getopt spec None g = Inr (r, optarg, g')" "spec = ''p:s:h'' \<or> spec = ''s:p:h''"
  shows "0 < as_char False r"
  using getopt_known [OF assms(1)] assms(2)
  by (auto simp: known_opt_def opt_error_def opt_end_def as_char_def mask_eq_exp_minus_1)

text \<open>
  Where plain \<open>char\<close> is unsigned (as on ARM) the -1 that ends the options is the character 255: none
  of the three programs ever starts, whatever its command line.
\<close>

theorem unsigned_char_never_runs:
  "ls_options False argv \<noteq> Inr (Run a) \<and> sl_options False argv \<noteq> Inr (Run b) \<and> attack_options False argv \<noteq> Inr (Run c)"
proof -
  have ls: "\<not> sc \<Longrightarrow> ls_options_loop sc g p \<noteq> Inr (Run a)" for sc g p
  proof (induction sc g p rule: ls_options_loop.induct)
    case (1 sc g p)
    show ?case
    proof (cases "getopt ''s:h'' (Some ls_long_opts) g")
      case (Inr x)
      obtain r optarg g' where x: "x = (r, optarg, g')" by (cases x)
      from ls_known [OF Inr [unfolded x]] 1(1) [OF Inr x [symmetric] refl refl _ _ 1(2)] Inr x 1(2) show ?thesis
        by (subst ls_options_loop.simps) (simp add: Let_def)
    qed (subst ls_options_loop.simps, simp)
  qed
  have sl: "\<not> sc \<Longrightarrow> sl_options_loop sc g p m \<noteq> Inr (Run b)" for sc g p m
  proof (induction sc g p m rule: sl_options_loop.induct)
    case (1 sc g p m)
    show ?case
    proof (cases "getopt ''p:s:h'' None g")
      case (Inr x)
      obtain r optarg g' where x: "x = (r, optarg, g')" by (cases x)
      from tool_known [OF Inr [unfolded x]] 1(1) [OF Inr x [symmetric] refl refl _ _ 1(3)] 1(2) [OF Inr x [symmetric] refl refl _ _ _ 1(3)] Inr x 1(3)
      show ?thesis by (subst sl_options_loop.simps) (simp add: Let_def)
    qed (subst sl_options_loop.simps, simp)
  qed
  have attack: "\<not> sc \<Longrightarrow> attack_options_loop sc g n p \<noteq> Inr (Run c)" for sc g n p
  proof (induction sc g n p rule: attack_options_loop.induct)
    case (1 sc g n p)
    show ?case
    proof (cases "getopt ''s:p:h'' None g")
      case (Inr x)
      obtain r optarg g' where x: "x = (r, optarg, g')" by (cases x)
      from tool_known [OF Inr [unfolded x]] 1(1) [OF Inr x [symmetric] refl refl _ _ _ 1(3)] 1(2) [OF Inr x [symmetric] refl refl _ _ _ 1(3)] Inr x 1(3)
      show ?thesis by (subst attack_options_loop.simps) (cases "int_times (atoi optarg) 1024"; simp add: Let_def)
    qed (subst attack_options_loop.simps, simp)
  qed
  from ls [of False] sl [of False] attack [of False] show ?thesis by (simp add: ls_options_def sl_options_def attack_options_def)
qed

text \<open>
  \<open>long_opts\<close> of \<open>ls_proxy\<close> has no entry of zeros at its end, so that a long option that is
  neither \<open>--s_port\<close> nor \<open>--help\<close>, in full, makes \<open>getopt_long\<close> read beyond the array.
\<close>

theorem unknown_long_option_overreads:
  assumes "\<forall>x \<in> set xs. piece_ok x" "name \<noteq> []" "takeWhile (\<lambda>c. c \<noteq> CHR ''='') name \<notin> {''s_port'', ''help''}"
  shows "ls_options sc (concat (map words xs) @ (''--'' @ name) # rest) = Inl OutOfBounds"
proof -
  have "long_opt ls_long_opts (takeWhile (\<lambda>c. c \<noteq> CHR ''='') name) = Inl OutOfBounds"
    using assms(3) by (auto simp: ls_long_opts_def)
  then have over: "ls_options_loop sc \<lparr>cluster = [], unseen = (''--'' @ name) # rest, passed = ps\<rparr> p = Inl OutOfBounds" for ps p
    using assms(2) by (subst ls_options_loop.simps, subst getopt.simps) (simp add: long_step_def)
  have "as_char sc (of_char CHR ''s'') = of_char CHR ''s''" by (simp add: as_char_def)
  then have "ls_options_loop sc \<lparr>cluster = [], unseen = concat (map words xs) @ (''--'' @ name) # rest, passed = ps\<rparr> p =
      Inl OutOfBounds" for ps p
    using assms(1)
  proof (induction xs arbitrary: ps p)
    case (Cons x xs)
    then show ?case
    proof (cases x)
      case (Plain w)
      with Cons.prems have "getopt ''s:h'' (Some ls_long_opts) \<lparr>cluster = [], unseen = w # as, passed = ps\<rparr> =
          getopt ''s:h'' (Some ls_long_opts) \<lparr>cluster = [], unseen = as, passed = ps @ [w]\<rparr>" for as
        by (simp add: getopt_plain)
      then have "ls_options_loop sc \<lparr>cluster = [], unseen = w # as, passed = ps\<rparr> p =
          ls_options_loop sc \<lparr>cluster = [], unseen = as, passed = ps @ [w]\<rparr> p" for as
        by (subst (1 2) ls_options_loop.simps) simp
      with Cons Plain show ?thesis by simp
    next
      case (Port_opt k v)
      with Cons getopt_port [of v k _ ps] show ?thesis by (subst ls_options_loop.simps) simp
    qed
  qed (simp only: list.map concat.simps append_Nil over)
  then show ?thesis by (simp only: ls_options_def getopt_init_def)
qed

theorem unknown_long_option_overreads_witness:
  "ls_options True [''8080'', ''--verbose'', ''example.org''] = Inl OutOfBounds"
  using unknown_long_option_overreads [of "[Plain ''8080'']" "''verbose''" True "[''example.org'']"] by simp

end
