(* ===== verification/Startup.thy ===== *)
theory Startup
  imports Options Steps
begin

text \<open>
  What surrounds the event loop: addresses in the log (\<open>get_host_and_port\<close>), \<open>resolve_host\<close>, the
  temporary files of the buffers with \<open>abort_and_dump\<close>, and \<open>main\<close> of \<open>src/ls_proxy.cpp\<close> from its
  command line to the running proxy.
\<close>

section \<open>Addresses\<close>

text \<open>\<open>inet_ntoa\<close>: the four bytes in memory, which on a little-endian host start at the low end.\<close>

definition addr_byte :: "nat \<Rightarrow> 32 word \<Rightarrow> nat" where
  "addr_byte i a = unat (take_bit 8 (drop_bit (8 * i) a))"

definition inet_ntoa :: "32 word \<Rightarrow> string" where
  "inet_ntoa a = to_string (addr_byte 0 a) @ ''.'' @ to_string (addr_byte 1 a) @ ''.''
     @ to_string (addr_byte 2 a) @ ''.'' @ to_string (addr_byte 3 a)"

definition get_host :: "sockaddr_in \<Rightarrow> string" where
  "get_host addr = inet_ntoa (sin_addr addr)"

text \<open>\<open>ntohs\<close> swaps the bytes like \<open>htons\<close>; the result is promoted to \<open>int\<close>.\<close>

definition get_port :: "sockaddr_in \<Rightarrow> nat" where
  "get_port addr = unat (htons (sin_port addr))"

definition get_host_and_port :: "sockaddr_in \<Rightarrow> string" where
  "get_host_and_port addr = get_host addr @ '':'' @ to_string (get_port addr)"

text \<open>
  What \<open>getaddrinfo\<close> finds first for a host, if anything: an IPv4 address, or an IPv6 address with
  its flow label, which lies where a \<open>sockaddr_in\<close> has its address.  Names and numbers are looked
  up by the system, so both functions are parameters.
\<close>

datatype found_addr = Inet "32 word" | Inet6 "32 word" "128 word"

record resolver =
  getaddrinfo :: "string \<Rightarrow> found_addr option"
  inet_addr :: "string \<Rightarrow> 32 word"

definition INADDR_NONE :: "32 word" where
  "INADDR_NONE = 0xFFFFFFFF"

definition resolve_host :: "resolver \<Rightarrow> string \<Rightarrow> 32 word res" where
  "resolve_host R host =
     (case getaddrinfo R host of
        Some (Inet a) \<Rightarrow> Inr a
      | Some (Inet6 flow a) \<Rightarrow> Inr flow
      | None \<Rightarrow> if inet_addr R host = INADDR_NONE then Inl Abort else Inr (inet_addr R host))"

section \<open>The program from its command line\<close>

text \<open>
  \<open>main\<close> of \<open>ls_proxy\<close>: an exit status, or the address of the server, the port listened on and the
  running proxy.
\<close>

definition ls_main :: "bool \<Rightarrow> resolver \<Rightarrow> string list \<Rightarrow> startup \<Rightarrow> (nat + sockaddr_in \<times> 16 word \<times> 'p proxy) res" where
  "ls_main sc R argv s =
     bindE (ls_options sc argv) (\<lambda>cmd.
       case cmd of
         Exit n \<Rightarrow> Inr (Inl n)
       | Run x \<Rightarrow>
           bindE (resolve_host R (ls_s_host x)) (\<lambda>a.
           bindE (main_start s) (\<lambda>r.
             case r of
               Inl n \<Rightarrow> Inr (Inl n)
             | Inr st \<Rightarrow> Inr (Inr (\<lparr>sin_port = htons (ls_s_port x), sin_addr = a\<rparr>, ls_p_port x, st)))))"

section \<open>Temporary files\<close>

text \<open>
  The directory \<open>TEMP_FOLDER\<close> as the names in it.  \<open>mkstemp\<close> picks six characters such that
  the name is new; the buffer remembers the name, and its destructor unlinks it.
\<close>

definition buf_prefix :: string where
  "buf_prefix = ''ls_proxy_buf_''"

definition mkstemp :: "string \<Rightarrow> string list \<Rightarrow> (string \<times> string list) option" where
  "mkstemp six dir =
     (if length six = 6 \<and> buf_prefix @ six \<notin> set dir then Some (buf_prefix @ six, (buf_prefix @ six) # dir) else None)"

definition unlink :: "string \<Rightarrow> string list \<Rightarrow> string list" where
  "unlink name dir = removeAll name dir"

text \<open>The constructor and the destructor of \<open>Filebuf\<close>, on the directory.\<close>

definition Filebuf_create :: "string \<Rightarrow> string list \<Rightarrow> (string \<times> string list) res" where
  "Filebuf_create six dir = (case mkstemp six dir of None \<Rightarrow> Inl Abort | Some r \<Rightarrow> Inr r)"

definition Filebuf_destroy :: "string \<Rightarrow> string list \<Rightarrow> string list" where
  "Filebuf_destroy file_name dir = unlink file_name dir"

text \<open>
  \<open>abort_and_dump\<close> before it aborts: nothing if the directory cannot be opened, else every entry whose
  name starts so is unlinked, where the system permits it.
\<close>

fun unlink_entries :: "(string \<Rightarrow> bool) \<Rightarrow> string list \<Rightarrow> string list \<Rightarrow> string list" where
  "unlink_entries permitted [] dir = dir"
| "unlink_entries permitted (n # ns) dir =
     unlink_entries permitted ns
       (if take 12 n = ''ls_proxy_buf'' then (if permitted n then unlink n dir else dir) else dir)"

definition abort_and_dump :: "bool \<Rightarrow> (string \<Rightarrow> bool) \<Rightarrow> string list \<Rightarrow> string list" where
  "abort_and_dump can_open permitted dir = (if can_open then unlink_entries permitted dir dir else dir)"

section \<open>Addresses in the log are unambiguous\<close>

lemma to_string_inj: "to_string m = to_string n \<Longrightarrow> m = n"
  by (metis of_decimal_to_string)

lemma number_cut:
  assumes "to_string m @ c # x = to_string n @ d # y" "\<not> isdigit c" "\<not> isdigit d"
  shows "m = n \<and> c = d \<and> x = y"
proof -
  have t: "takeWhile isdigit (to_string k @ z # r) = to_string k" if "\<not> isdigit z" for k z r
    using that to_string_isdigit by (simp add: takeWhile_append2)
  from t [OF assms(2), of m x] t [OF assms(3), of n y] assms(1) have "to_string m = to_string n" by simp
  with assms(1) to_string_inj show ?thesis by auto
qed

lemma addr_bytes_eq:
  assumes "\<And>i. i < 4 \<Longrightarrow> addr_byte i a = addr_byte i b"
  shows "a = b"
proof (rule bit_word_eqI)
  fix n assume n: "n < LENGTH(32)"
  then have "n div 8 < 4" by simp
  then have "take_bit 8 (drop_bit (8 * (n div 8)) a) = take_bit 8 (drop_bit (8 * (n div 8)) b)"
    using assms [of "n div 8"] by (simp add: addr_byte_def word_unat_eq_iff)
  then have "bit (take_bit 8 (drop_bit (8 * (n div 8)) a)) (n mod 8) = bit (take_bit 8 (drop_bit (8 * (n div 8)) b)) (n mod 8)"
    by simp
  then show "bit a n = bit b n" by (simp add: bit_take_bit_iff bit_drop_bit_eq)
qed

text \<open>
  \<open>host:port\<close>, with which every line of the log names a client, determines the address: two
  clients with different addresses or ports never share it, and the port printed for an address
  built with \<open>htons\<close> is the port it was built from.
\<close>

theorem host_and_port_identifies:
  assumes "get_host_and_port a = get_host_and_port b"
  shows "sin_port a = sin_port b \<and> sin_addr a = sin_addr b \<and> get_port \<lparr>sin_port = htons p, sin_addr = x\<rparr> = unat p"
proof -
  let ?A = "sin_addr a" and ?B = "sin_addr b"
  have sep: "\<not> isdigit CHR ''.''" "\<not> isdigit CHR '':''" by (simp_all add: isdigit_def)
  from assms have "to_string (addr_byte 0 ?A) @ CHR ''.'' # (to_string (addr_byte 1 ?A) @ CHR ''.'' # (to_string (addr_byte 2 ?A)
        @ CHR ''.'' # (to_string (addr_byte 3 ?A) @ CHR '':'' # to_string (get_port a)))) =
      to_string (addr_byte 0 ?B) @ CHR ''.'' # (to_string (addr_byte 1 ?B) @ CHR ''.'' # (to_string (addr_byte 2 ?B)
        @ CHR ''.'' # (to_string (addr_byte 3 ?B) @ CHR '':'' # to_string (get_port b))))"
    by (simp add: get_host_and_port_def get_host_def inet_ntoa_def)
  then have e: "addr_byte 0 ?A = addr_byte 0 ?B" "addr_byte 1 ?A = addr_byte 1 ?B" "addr_byte 2 ?A = addr_byte 2 ?B"
    "addr_byte 3 ?A = addr_byte 3 ?B" "to_string (get_port a) = to_string (get_port b)"
    using sep by (blast dest: number_cut)+
  have "addr_byte i ?A = addr_byte i ?B" if "i < 4" for i
  proof -
    from that have "i = 0 \<or> i = 1 \<or> i = 2 \<or> i = 3" by linarith
    with e show ?thesis by blast
  qed
  then have "?A = ?B" by (rule addr_bytes_eq)
  moreover have "htons (sin_port a) = htons (sin_port b)" using to_string_inj [OF e(5)] by (simp add: get_port_def word_unat_eq_iff)
  then have "sin_port a = sin_port b" by (metis htons_htons)
  ultimately show ?thesis by (simp add: get_port_def)
qed

theorem host_and_port_identifies_witness:
  "get_host_and_port \<lparr>sin_port = htons 80, sin_addr = 0x0100007f\<rparr> = ''127.0.0.1:80''
     \<and> get_port \<lparr>sin_port = htons 80, sin_addr = 0x0100007f\<rparr> = 80"
proof -
  have "to_string 127 = ''127''" "to_string 0 = ''0''" "to_string 1 = ''1''" "to_string 80 = ''80''"
    by (simp_all add: to_string.simps char_of_def bit_0)
  moreover have "addr_byte 0 0x0100007f = 127" "addr_byte 1 0x0100007f = 0" "addr_byte 2 0x0100007f = 0" "addr_byte 3 0x0100007f = 1"
    by (simp_all add: addr_byte_def unsigned_take_bit_eq unsigned_drop_bit_eq take_bit_eq_mod drop_bit_eq_div)
  moreover have "get_port \<lparr>sin_port = htons 80, sin_addr = 0x0100007f\<rparr> = 80"
    using host_and_port_identifies [OF refl, where p = 80 and x = "0x0100007f"] by simp
  ultimately show ?thesis by (simp add: get_host_and_port_def get_host_def inet_ntoa_def)
qed

lemma ls_main_pieces:
  assumes "\<forall>x \<in> set xs. piece_ok x" "concat (map plain_word xs) = p # host # ws" "getaddrinfo R host = Some found"
    "main_start s = Inr (Inr st)"
  shows "ls_main True R (concat (map words xs)) s =
    Inr (Inr (\<lparr>sin_port = htons (fold given_port xs 80), sin_addr = (case found of Inet a \<Rightarrow> a | Inet6 flow a6 \<Rightarrow> flow)\<rparr>,
      to_port (atoi p), st))"
  using ls_options_loop_pieces [OF assms(1), of "[]" 80] assms(2-4)
  by (simp add: ls_main_def ls_options_def getopt_init_def two_args_def resolve_host_def split: found_addr.splits)

text \<open>
  C28: a correct command line sets the program up as asked: it listens on the first word as a port and
  protects the host at the last server port given.  The address it takes is right where the first
  address the system finds is an IPv4 address; \<open>resolve_host\<close> does not ask for one, and of an IPv6
  address it takes the flow label, usually 0, whatever the address is.
\<close>

theorem ls_main_configures:
  assumes "\<forall>x \<in> set xs. piece_ok x" "concat (map plain_word xs) = p # host # ws" "getaddrinfo R host = Some found"
    "main_start s = Inr (Inr st)"
  shows "ls_main True R (concat (map words xs)) s =
    Inr (Inr (\<lparr>sin_port = htons (fold given_port xs 80), sin_addr = (case found of Inet a \<Rightarrow> a | Inet6 flow a6 \<Rightarrow> flow)\<rparr>,
      to_port (atoi p), st))"
  by (rule ls_main_pieces [OF assms])

theorem ls_main_configures_witness:
  "\<exists>st :: unit proxy. ls_main True \<lparr>getaddrinfo = \<lambda>_. Some (Inet6 0 1), inet_addr = \<lambda>_. INADDR_NONE\<rparr>
     [''8080'', ''localhost''] good_startup = Inr (Inr (\<lparr>sin_port = htons 80, sin_addr = 0\<rparr>, 8080, st))"
proof -
  obtain st :: "unit proxy" where "main_start good_startup = Inr (Inr st)" by (rule good_startup_starts)
  moreover have "to_string 8080 = ''8080''" by (simp add: to_string.simps char_of_def bit_0)
  then have "atoi ''8080'' = 8080" using atoi_to_string [of 8080] by simp
  ultimately show ?thesis
    using ls_main_configures [of "[Plain ''8080'', Plain ''localhost'']" "''8080''" "''localhost''" "[]"
        "\<lparr>getaddrinfo = \<lambda>_. Some (Inet6 0 1), inet_addr = \<lambda>_. INADDR_NONE\<rparr>" "Inet6 0 1" good_startup st]
    by (auto simp: to_port_def)
qed

lemma demo_main:
  assumes "main_start good_startup = Inr (Inr st)"
  shows "ls_main True \<lparr>getaddrinfo = \<lambda>_. Some (Inet 1), inet_addr = \<lambda>_. INADDR_NONE\<rparr> [''8080'', ''localhost''] good_startup
    = Inr (Inr (\<lparr>sin_port = htons 80, sin_addr = 1\<rparr>, to_port (atoi ''8080''), st))"
  using ls_main_pieces [of "[Plain ''8080'', Plain ''localhost'']" "''8080''" "''localhost''" "[]"
      "\<lparr>getaddrinfo = \<lambda>_. Some (Inet 1), inet_addr = \<lambda>_. INADDR_NONE\<rparr>" "Inet 1" good_startup st] assms
  by simp

section \<open>No temporary file is left behind\<close>

lemma unlink_entries_set:
  "set (unlink_entries permitted ns dir) = set dir - {n \<in> set ns. take 12 n = ''ls_proxy_buf'' \<and> permitted n}"
  by (induction permitted ns dir rule: unlink_entries.induct) (auto simp: unlink_def)

text \<open>
  What the program does to the directory until it aborts: buffers are created and destroyed, by
  the name each remembers.
\<close>

inductive buffers_run :: "string list \<Rightarrow> string list \<Rightarrow> string list \<Rightarrow> bool" for dir0 where
  start: "buffers_run dir0 dir0 []"
| create: "buffers_run dir0 dir open_names \<Longrightarrow> Filebuf_create six dir = Inr (name, dir') \<Longrightarrow> buffers_run dir0 dir' (name # open_names)"
| destroy: "buffers_run dir0 dir open_names \<Longrightarrow> name \<in> set open_names \<Longrightarrow>
    buffers_run dir0 (Filebuf_destroy name dir) (removeAll name open_names)"

lemma buffers_run_inv:
  assumes "buffers_run dir0 dir names"
  shows "distinct names" "set dir = set dir0 \<union> set names" "set dir0 \<inter> set names = {}"
    "\<forall>n \<in> set names. take 12 n = ''ls_proxy_buf''"
  using assms
proof (induction rule: buffers_run.induct)
  case (create dir names six name dir')
  { case 1 with create show ?case by (auto simp: Filebuf_create_def mkstemp_def split: if_splits) }
  { case 2 with create show ?case by (auto simp: Filebuf_create_def mkstemp_def split: if_splits) }
  { case 3 with create show ?case by (auto simp: Filebuf_create_def mkstemp_def split: if_splits) }
  { case 4 with create show ?case by (auto simp: Filebuf_create_def mkstemp_def buf_prefix_def split: if_splits) }
next
  case (destroy dir names name)
  { case 1 with destroy show ?case by (simp add: distinct_removeAll) }
  { case 2 with destroy show ?case by (auto simp: Filebuf_destroy_def unlink_def) }
  { case 3 with destroy show ?case by auto }
  { case 4 with destroy show ?case by auto }
qed simp_all

text \<open>
  C29: the temporary files are accounted for.  However buffers were created and destroyed, the
  directory holds its first entries and one file per living buffer; when the program aborts, and
  may open the directory and remove its files, no file of a buffer is left, and of the
  entries that were there before exactly those with another name remain.
\<close>

theorem abort_removes_buffers:
  assumes "buffers_run dir0 dir names" "\<And>n. permitted n"
  shows "set dir = set dir0 \<union> set names \<and> set dir0 \<inter> set names = {}
    \<and> set (abort_and_dump True permitted dir) = {n \<in> set dir0. take 12 n \<noteq> ''ls_proxy_buf''}
    \<and> set (foldr Filebuf_destroy names dir) = set dir0"
proof -
  have "set (foldr Filebuf_destroy ns dir) = set dir - set ns" for ns
    by (induction ns) (auto simp: Filebuf_destroy_def unlink_def)
  with buffers_run_inv [OF assms(1)] assms(2) show ?thesis by (auto simp: abort_and_dump_def unlink_entries_set)
qed

theorem abort_removes_buffers_witness:
  "set (abort_and_dump True (\<lambda>_. True) [''ls_proxy_buf_a1B2c3'', ''notes'']) = {''notes''}"
proof -
  have "buffers_run [''notes''] [''ls_proxy_buf_a1B2c3'', ''notes''] [''ls_proxy_buf_a1B2c3'']"
    by (rule buffers_run.create [OF buffers_run.start, where six = "''a1B2c3''"]) (simp add: Filebuf_create_def mkstemp_def buf_prefix_def)
  from abort_removes_buffers [OF this, of "\<lambda>_. True"]
  have "set (abort_and_dump True (\<lambda>_. True) [''ls_proxy_buf_a1B2c3'', ''notes'']) = {n \<in> {''notes''}. take 12 n \<noteq> ''ls_proxy_buf''}"
    by (simp only: simp_thms list.set)
  also have "\<dots> = {''notes''}" by auto
  finally show ?thesis .
qed

end
