(* ===== verification/Program.thy ===== *)
theory Program
  imports Startup
begin

text \<open>
  The program as a whole, from the command line to the exit status: \<open>main\<close> of
  \<open>src/ls_proxy.cpp\<close> with the event loop between start-up and shutdown.  The loop is given the
  callbacks libevent chooses, one after the other, and ends when \<open>SIGINT\<close> breaks it.
\<close>

section \<open>The event loop\<close>

datatype loop_item = Callback event | Interrupt

text \<open>
  \<open>break_event_loop\<close>, the handler of \<open>SIGINT\<close>: \<open>event_base_loopbreak\<close> sets a flag, on which the
  loop ends after the callback that is running.
\<close>

definition break_event_loop :: "bool \<Rightarrow> bool" where
  "break_event_loop broken = True"

fun event_loop :: "'p llhttp \<Rightarrow> loop_item list \<Rightarrow> bool \<Rightarrow> 'p proxy \<Rightarrow> (bool \<times> 'p proxy) res" where
  "event_loop ll [] broken st = Inr (broken, st)"
| "event_loop ll (x # xs) broken st =
     (if broken then Inr (broken, st)
      else case x of
        Interrupt \<Rightarrow> event_loop ll xs (break_event_loop broken) st
      | Callback ev \<Rightarrow> bindE (dispatch ll ev st) (event_loop ll xs broken))"

section \<open>main\<close>

text \<open>
  What became of the process: its exit status, with the proxy as it was left when it got as far as the event
  loop, or still in the loop.  \<open>dispatched\<close> is whether \<open>event_base_dispatch\<close> returned without an error.
\<close>

datatype 'p process = Ended nat "'p proxy option" | Running "'p proxy"

definition ls_program ::
    "'p llhttp \<Rightarrow> bool \<Rightarrow> resolver \<Rightarrow> string list \<Rightarrow> startup \<Rightarrow> loop_item list \<Rightarrow> bool \<Rightarrow> 'p process res" where
  "ls_program ll sc R argv s items dispatched =
     bindE (ls_main sc R argv s) (\<lambda>r.
       case r of
         Inl n \<Rightarrow> Inr (Ended n None)
       | Inr (address, p_port, st) \<Rightarrow>
           bindE (event_loop ll items False st) (\<lambda>(broken, st1).
             if \<not> broken then Inr (Running st1)
             else if \<not> dispatched then Inl Abort
             else bindE (main_cleanup st1) (\<lambda>st2. Inr (Ended 0 (Some st2)))))"

section \<open>Every run of the program\<close>

text \<open>The callbacks up to the interrupt, and schedules on which libevent runs only what is pending.\<close>

fun callbacks :: "loop_item list \<Rightarrow> event list" where
  "callbacks [] = []"
| "callbacks (Interrupt # xs) = []"
| "callbacks (Callback ev # xs) = ev # callbacks xs"

fun schedule_ok :: "'p llhttp \<Rightarrow> event list \<Rightarrow> 'p proxy \<Rightarrow> bool" where
  "schedule_ok ll [] st \<longleftrightarrow> True"
| "schedule_ok ll (ev # evs) st \<longleftrightarrow> event_ok ev \<and> enabled ev st
     \<and> (case dispatch ll ev st of Inl f \<Rightarrow> True | Inr st' \<Rightarrow> schedule_ok ll evs st')"

text \<open>The two faults the handling of an event can end in.\<close>

definition known_fault :: "fault \<Rightarrow> event \<Rightarrow> 'p proxy \<Rightarrow> bool" where
  "known_fault f ev st \<longleftrightarrow> f = NullDeref \<and> log_after_free ev st \<or> f = UseAfterFree \<and> (\<exists>env. ev = SlowTimer env)"

lemma event_loop_broken [simp]: "event_loop ll xs True st = Inr (True, st)"
  by (cases xs) simp_all

lemma event_loop_runs:
  assumes "llhttp_ok ll" "proxy_inv st" "schedule_ok ll (callbacks items) st"
  shows "(\<exists>st'. run_of ll st (callbacks items) st' \<and> event_loop ll items False st = Inr (Interrupt \<in> set items, st'))
    \<or> (\<exists>evs ev rest st1 f. callbacks items = evs @ ev # rest \<and> run_of ll st evs st1
         \<and> event_loop ll items False st = Inl f \<and> known_fault f ev st1)"
  using assms(2,3)
proof (induction items arbitrary: st rule: callbacks.induct)
  case (3 ev xs)
  show ?case
  proof (cases "dispatch ll ev st")
    case (Inl f)
    with dispatch_spec [OF assms(1) "3.prems"(1), of ev] "3.prems"(2) have "known_fault f ev st"
      by (simp add: step_ok_def known_fault_def)
    with Inl show ?thesis
      by (intro disjI2 exI [of _ "[]"] exI [of _ ev] exI [of _ "callbacks xs"] exI [of _ st] exI [of _ f]) simp
  next
    case (Inr st1)
    with "3.prems"(2) have ev: "event_ok ev" "enabled ev st" "schedule_ok ll (callbacks xs) st1" by simp_all
    have "proxy_inv st1" using dispatch_spec [OF assms(1) "3.prems"(1) ev(1,2)] Inr by (simp add: step_ok_def)
    from "3.IH" [OF this ev(3)] show ?thesis
    proof (elim disjE exE conjE)
      fix evs e rest st2 f assume h: "callbacks xs = evs @ e # rest" "run_of ll st1 evs st2"
        "event_loop ll xs False st1 = Inl f" "known_fault f e st2"
      show ?thesis using h ev Inr
        by (intro disjI2 exI [of _ "ev # evs"] exI [of _ e] exI [of _ rest] exI [of _ st2] exI [of _ f]) simp
    qed (use ev Inr in auto)
  qed
qed (auto simp: break_event_loop_def)



end
