(* ===== verification/Speedlimit.thy ===== *)
theory Speedlimit
  imports Startup
begin

text \<open>
  The speed-limiting proxy of \<open>utils/speed_limit_proxy.h\<close> and \<open>utils/speed_limit_proxy.cpp\<close>, which
  the sources call unfinished: a relay of two queues whose reads are bounded by a quota per
  direction.  \<open>Circularbuf\<close> is the class of the main program; the copies of its I/O functions are
  modelled here again and shown to be the same functions (\<open>sl_io_eq\<close>).  The file
  does not compile as it stands (\<open>Client::on_writable\<close> and \<open>Server::on_writable\<close> name the quotas
  without the connection they belong to, and \<open>min\<close> is given two types); the model reads the
  quotas as the members of the connection.
\<close>

section \<open>Data\<close>

record sl_client =
  slc_sock :: sock
  slc_read_evt :: bool
  slc_write_evt :: bool
  slc_queued_output :: circularbuf

record sl_server =
  sls_sock :: sock
  sls_read_evt :: bool
  sls_write_evt :: bool
  sls_queued_output :: circularbuf

record sl_connection =
  sl_client :: sl_client
  sl_server :: sl_server
  c2s_quota :: int
  s2c_quota :: int

datatype sl_outcome = SlLive sl_connection | SlDeleted sock sock

section \<open>Input and output\<close>

fun sl_read_all_loop :: "sock \<Rightarrow> nat \<Rightarrow> char list \<Rightarrow> io_stat \<Rightarrow> char list \<times> nat \<times> io_stat \<times> sock" where
  "sl_read_all_loop s remain acc stat =
     (if remain > 0 then
        (case sys_read s remain of (count, d, s') \<Rightarrow>
           if count > 0 then sl_read_all_loop s' (remain - nat count) (acc @ d) stat
           else if count = 0 then (acc, remain, stat\<lparr>has_eof := True\<rparr>, s')
           else (acc, remain, stat\<lparr>has_error := True\<rparr>, s'))
      else (acc, remain, stat, s))"

definition sl_read_all :: "sock \<Rightarrow> nat \<Rightarrow> char list \<times> io_stat \<times> sock" where
  "sl_read_all s max_size =
     (case sl_read_all_loop s max_size [] io_stat_init of (acc, remain, stat, s') \<Rightarrow>
        (acc, stat\<lparr>nbytes := max_size - remain\<rparr>, s'))"

fun sl_write_all_loop :: "sock \<Rightarrow> char list \<Rightarrow> io_stat \<Rightarrow> nat \<times> io_stat \<times> sock" where
  "sl_write_all_loop s data stat =
     (if length data > 0 then
        (case sys_write s data of (count, s') \<Rightarrow>
           if count > 0 then sl_write_all_loop s' (drop (nat count) data) stat
           else (length data, stat\<lparr>has_error := True\<rparr>, s'))
      else (0, stat, s))"

definition sl_write_all :: "sock \<Rightarrow> char list \<Rightarrow> io_stat \<times> sock" where
  "sl_write_all s data =
     (case sl_write_all_loop s data io_stat_init of (remain, stat, s') \<Rightarrow>
        (stat\<lparr>nbytes := length data - remain\<rparr>, s'))"

declare sl_read_all_loop.simps [simp del] sl_write_all_loop.simps [simp del]

definition sl_passive_TCP :: "bool \<Rightarrow> bool \<Rightarrow> bool \<Rightarrow> bool \<Rightarrow> bool \<Rightarrow> net_state \<Rightarrow> net_state res" where
  "sl_passive_TCP reuse sock_ok reuse_ok bound listen_ok ns =
     (if \<not> sock_ok then Inl Abort
      else
        let ns1 = ns\<lparr>open_socks := open_socks ns + 1\<rparr> in
        if reuse \<and> \<not> reuse_ok then Inl Abort
        else if \<not> bound then Inl Abort
        else if \<not> listen_ok then Inl Abort
        else Inr ns1)"

definition sl_close_socket_gracefully :: "sock \<Rightarrow> sock" where
  "sl_close_socket_gracefully s =
     (let s1 = consume (s\<lparr>shut_wr := True\<rparr>) in
      case sys_read s1 1 of (count, d, s2) \<Rightarrow>
        if count = 0 then s2\<lparr>closed := True\<rparr> else s2\<lparr>lingering := True\<rparr>)"

lemma sl_read_all_loop_eq: "sl_read_all_loop s n acc stat = read_all_loop s n acc stat"
  by (induction s n acc stat rule: read_all_loop.induct)
    (subst sl_read_all_loop.simps, subst read_all_loop.simps, auto split: prod.splits)

lemma sl_write_all_loop_eq: "sl_write_all_loop s d stat = write_all_loop s d stat"
  by (induction s d stat rule: write_all_loop.induct)
    (subst sl_write_all_loop.simps, subst write_all_loop.simps, auto split: prod.splits)

lemma sl_io_eq [simp]: "sl_read_all = read_all" "sl_write_all = write_all"
    "sl_close_socket_gracefully = close_socket_gracefully" "sl_passive_TCP = passive_TCP"
  by (simp_all add: fun_eq_iff sl_read_all_def read_all_def sl_read_all_loop_eq sl_write_all_def write_all_def sl_write_all_loop_eq
      sl_close_socket_gracefully_def close_socket_gracefully_def sl_passive_TCP_def passive_TCP_def)

section \<open>Operations\<close>

definition sl_connect_TCP :: "net_env \<Rightarrow> net_state \<Rightarrow> (bool \<times> net_state) res" where
  "sl_connect_TCP env ns =
     (if \<not> socket_ok env then Inl Abort
      else
        let ns1 = ns\<lparr>open_socks := open_socks ns + 1\<rparr> in
        if \<not> connect_ok env then Inr (False, ns1) else Inr (True, ns1))"

definition SlClient_new :: "sock \<Rightarrow> sl_client" where
  "SlClient_new sk = \<lparr>slc_sock = sk, slc_read_evt = False, slc_write_evt = False, slc_queued_output = Circularbuf_new\<rparr>"

text \<open>\<open>None\<close> where the constructor throws \<open>ConnectionError\<close>.\<close>

definition SlServer_new :: "env \<Rightarrow> net_state \<Rightarrow> (net_state \<times> sl_server option) res" where
  "SlServer_new env ns =
     bindE (sl_connect_TCP (e_net env) ns) (\<lambda>(connected, ns1).
       if \<not> connected then Inr (ns1, None)
       else if \<not> e_nonblocking env then Inl Abort
       else Inr (ns1, Some \<lparr>sls_sock = e_server_sock env, sls_read_evt = False, sls_write_evt = False,
                            sls_queued_output = Circularbuf_new\<rparr>))"

definition SlConnection_new :: "env \<Rightarrow> int \<Rightarrow> sock \<Rightarrow> net_state \<Rightarrow> (net_state \<times> sl_connection option) res" where
  "SlConnection_new env max_speed sk ns =
     (let cl = SlClient_new sk in
      bindE (SlServer_new env ns) (\<lambda>(ns1, sv).
      case sv of
        None \<Rightarrow> Inr (ns1, None)
      | Some s \<Rightarrow>
          bindE (assertE (max_speed > 0)) (\<lambda>_.
            Inr (ns1, Some \<lparr>sl_client = cl, sl_server = s, c2s_quota = max_speed, s2c_quota = max_speed\<rparr>))))"

text \<open>The destructors close the sockets gracefully; the events and queues go with the objects.\<close>

definition SlClient_delete :: "sl_client \<Rightarrow> sock" where
  "SlClient_delete cl = sl_close_socket_gracefully (slc_sock cl)"

definition SlServer_delete :: "sl_server \<Rightarrow> sock" where
  "SlServer_delete sv = sl_close_socket_gracefully (sls_sock sv)"

definition SlConnection_delete :: "sl_connection \<Rightarrow> sl_outcome" where
  "SlConnection_delete c = SlDeleted (SlClient_delete (sl_client c)) (SlServer_delete (sl_server c))"

definition sl_accept_new :: "env \<Rightarrow> int \<Rightarrow> sock option \<Rightarrow> net_state \<Rightarrow> (net_state \<times> sl_connection option) res" where
  "sl_accept_new env max_speed accepted ns =
     (case accepted of
        None \<Rightarrow> Inl Abort
      | Some sk \<Rightarrow>
          if \<not> e_nonblocking env then Inl Abort
          else
            bindE (SlConnection_new env max_speed sk ns) (\<lambda>(ns1, r).
            case r of
              None \<Rightarrow> Inr (ns1, None)
            | Some c \<Rightarrow> Inr (ns1, Some (c\<lparr>sl_client := (sl_client c)\<lparr>slc_read_evt := True\<rparr>,
                                          sl_server := (sl_server c)\<lparr>sls_read_evt := True\<rparr>\<rparr>))))"

definition forward_client_to_server :: "sl_connection \<Rightarrow> sl_outcome res" where
  "forward_client_to_server c =
     (let cl = sl_client c; sv = sl_server c in
      case sl_read_all (slc_sock cl) (min (Circularbuf_remaining_space (sls_queued_output sv)) (nat (c2s_quota c))) of
        (d, stat_c, sk) \<Rightarrow>
      bindE (to_global_buffer d) (\<lambda>g.
      let quota = c2s_quota c - int (nbytes stat_c); cl1 = cl\<lparr>slc_sock := sk\<rparr> in
      bindE (Circularbuf_copy_from (sls_queued_output sv) g) (\<lambda>(_, q1).
      bindE (Circularbuf_write_all_to q1 (sls_sock sv)) (\<lambda>(stat_s, q2, ssk).
      let sv1 = sv\<lparr>sls_queued_output := q2, sls_sock := ssk\<rparr>;
          c1 = c\<lparr>sl_client := cl1, sl_server := sv1, c2s_quota := quota\<rparr>
      in
      if has_eof stat_c then Inr (SlConnection_delete c1)
      else if nbytes stat_s = 0 then
        Inr (SlLive (c1\<lparr>sl_client := cl1\<lparr>slc_read_evt := False\<rparr>, sl_server := sv1\<lparr>sls_write_evt := True\<rparr>\<rparr>))
      else if quota \<le> 0 then Inr (SlLive (c1\<lparr>sl_client := cl1\<lparr>slc_read_evt := False\<rparr>\<rparr>))
      else Inr (SlLive c1)))))"

definition forward_server_to_client :: "sl_connection \<Rightarrow> sl_outcome res" where
  "forward_server_to_client c =
     (let cl = sl_client c; sv = sl_server c in
      case sl_read_all (sls_sock sv) (min (Circularbuf_remaining_space (slc_queued_output cl)) (nat (s2c_quota c))) of
        (d, stat_s, ssk) \<Rightarrow>
      bindE (to_global_buffer d) (\<lambda>g.
      let quota = s2c_quota c - int (nbytes stat_s); sv1 = sv\<lparr>sls_sock := ssk\<rparr> in
      bindE (Circularbuf_copy_from (slc_queued_output cl) g) (\<lambda>(_, q1).
      bindE (Circularbuf_write_all_to q1 (slc_sock cl)) (\<lambda>(stat_c, q2, sk).
      let cl1 = cl\<lparr>slc_queued_output := q2, slc_sock := sk\<rparr>;
          c1 = c\<lparr>sl_client := cl1, sl_server := sv1, s2c_quota := quota\<rparr>
      in
      if has_eof stat_s then Inr (SlConnection_delete c1)
      else if nbytes stat_c = 0 then
        Inr (SlLive (c1\<lparr>sl_server := sv1\<lparr>sls_read_evt := False\<rparr>, sl_client := cl1\<lparr>slc_write_evt := True\<rparr>\<rparr>))
      else if quota \<le> 0 then Inr (SlLive (c1\<lparr>sl_server := sv1\<lparr>sls_read_evt := False\<rparr>\<rparr>))
      else Inr (SlLive c1)))))"

definition SlClient_on_writable :: "sl_connection \<Rightarrow> sl_outcome res" where
  "SlClient_on_writable c =
     (let cl = sl_client c; sv = sl_server c in
      bindE (Circularbuf_write_all_to (slc_queued_output cl) (slc_sock cl)) (\<lambda>(stat, q, sk).
        Inr (SlLive (c\<lparr>sl_client := cl\<lparr>slc_queued_output := q, slc_sock := sk, slc_write_evt := False\<rparr>,
                       sl_server := (if s2c_quota c > 0 then sv\<lparr>sls_read_evt := True\<rparr> else sv)\<rparr>))))"

definition SlServer_on_writable :: "sl_connection \<Rightarrow> sl_outcome res" where
  "SlServer_on_writable c =
     (let cl = sl_client c; sv = sl_server c in
      bindE (Circularbuf_write_all_to (sls_queued_output sv) (sls_sock sv)) (\<lambda>(stat, q, sk).
        Inr (SlLive (c\<lparr>sl_server := sv\<lparr>sls_queued_output := q, sls_sock := sk, sls_write_evt := False\<rparr>,
                       sl_client := (if c2s_quota c > 0 then cl\<lparr>slc_read_evt := True\<rparr> else cl)\<rparr>))))"

text \<open>\<open>Client::on_readable\<close> and \<open>Server::on_readable\<close> are the two forwards.\<close>

datatype sl_event = SlClientReadable | SlClientWritable | SlServerReadable | SlServerWritable

definition sl_dispatch :: "sl_event \<Rightarrow> sl_connection \<Rightarrow> sl_outcome res" where
  "sl_dispatch ev c =
     (case ev of SlClientReadable \<Rightarrow> forward_client_to_server c | SlClientWritable \<Rightarrow> SlClient_on_writable c
      | SlServerReadable \<Rightarrow> forward_server_to_client c | SlServerWritable \<Rightarrow> SlServer_on_writable c)"

definition sl_enabled :: "sl_event \<Rightarrow> sl_connection \<Rightarrow> bool" where
  "sl_enabled ev c =
     (case ev of SlClientReadable \<Rightarrow> slc_read_evt (sl_client c) | SlClientWritable \<Rightarrow> slc_write_evt (sl_client c)
      | SlServerReadable \<Rightarrow> sls_read_evt (sl_server c) | SlServerWritable \<Rightarrow> sls_write_evt (sl_server c))"

inductive sl_reachable :: "int \<Rightarrow> sl_connection \<Rightarrow> bool" for max_speed where
  accepted: "env_ok env \<Longrightarrow> fresh_sock sk \<Longrightarrow> sl_accept_new env max_speed (Some sk) ns = Inr (ns', Some c) \<Longrightarrow>
    sl_reachable max_speed c"
| event: "sl_reachable max_speed c \<Longrightarrow> sl_enabled ev c \<Longrightarrow> sl_dispatch ev c = Inr (SlLive c') \<Longrightarrow>
    sl_reachable max_speed c'"

section \<open>The budget\<close>

text \<open>
  The invariant: the queues are well formed and relay in order, and the quota of a direction is what is left of
  the speed after all the bytes ever read in it.
\<close>

definition sl_inv :: "int \<Rightarrow> sl_connection \<Rightarrow> bool" where
  "sl_inv m c \<longleftrightarrow> queue_ok (slc_queued_output (sl_client c)) \<and> queue_ok (sls_queued_output (sl_server c))
     \<and> sent (sls_sock (sl_server c)) @ Circularbuf_contents (sls_queued_output (sl_server c)) = received (slc_sock (sl_client c))
     \<and> sent (slc_sock (sl_client c)) @ Circularbuf_contents (slc_queued_output (sl_client c)) = received (sls_sock (sl_server c))
     \<and> int (length (received (slc_sock (sl_client c)))) + c2s_quota c = m \<and> 0 \<le> c2s_quota c
     \<and> int (length (received (sls_sock (sl_server c)))) + s2c_quota c = m \<and> 0 \<le> s2c_quota c"

text \<open>One relay step under a limit, for both directions.\<close>

lemma limited_relay:
  assumes "queue_ok q" "0 \<le> quota"
  obtains d stat s1' q1 stat2 q2 s2' where
    "read_all s1 (min (Circularbuf_remaining_space q) (nat quota)) = (d, stat, s1')" "to_global_buffer d = Inr d"
    "Circularbuf_copy_from q d = Inr (length d, q1)" "Circularbuf_write_all_to q1 s2 = Inr (stat2, q2, s2')"
    "queue_ok q2" "nbytes stat = length d" "received s1' = received s1 @ d" "sent s1' = sent s1" "int (length d) \<le> quota"
    "sent s2' @ Circularbuf_contents q2 = sent s2 @ Circularbuf_contents q @ d" "received s2' = received s2"
    "rx s2' = rx s2"
proof -
  obtain d stat s1' where r: "read_all s1 (min (Circularbuf_remaining_space q) (nat quota)) = (d, stat, s1')"
    by (cases "read_all s1 (min (Circularbuf_remaining_space q) (nat quota))")
  note rs = read_all_spec [OF r]
  have l: "length d \<le> Circularbuf_remaining_space q" "int (length d) \<le> quota" using rs(2,3) assms(2) by auto
  obtain q1 where a: "Circularbuf_copy_from q d = Inr (length d, q1)" "queue_ok q1"
    "Circularbuf_contents q1 = Circularbuf_contents q @ d" using queue_append [OF assms(1) l(1)] .
  obtain stat2 q2 s2' where b: "Circularbuf_write_all_to q1 s2 = Inr (stat2, q2, s2')" "queue_ok q2"
    "Circularbuf_drained q1 s2 stat2 q2 s2'" using queue_drain [OF a(2)] .
  have "to_global_buffer d = Inr d" using l(1) queue_ok_space [OF assms(1)] by simp
  moreover have "rx s2' = rx s2" using b(3) by (simp add: Circularbuf_drained_def)
  ultimately show thesis using Circularbuf_drained_stream [OF b(3)] a(3) rs l by (intro that [OF r _ a(1) b(1,2)]) simp_all
qed

lemma forward_cs_inv:
  assumes "sl_inv m c"
  shows "\<exists>r. forward_client_to_server c = Inr r \<and> (\<forall>c'. r = SlLive c' \<longrightarrow> sl_inv m c')"
proof -
  let ?q = "sls_queued_output (sl_server c)"
  have q: "queue_ok ?q" "0 \<le> c2s_quota c" using assms by (simp_all add: sl_inv_def)
  show ?thesis
  proof (rule limited_relay [OF q, of "slc_sock (sl_client c)" "sls_sock (sl_server c)"], goal_cases)
    case (1 d stat s1' q1 stat2 q2 s2')
    with assms show ?case
      by (auto simp: forward_client_to_server_def Let_def SlConnection_delete_def sl_inv_def)
  qed
qed

lemma forward_sc_inv:
  assumes "sl_inv m c"
  shows "\<exists>r. forward_server_to_client c = Inr r \<and> (\<forall>c'. r = SlLive c' \<longrightarrow> sl_inv m c')"
proof -
  let ?q = "slc_queued_output (sl_client c)"
  have q: "queue_ok ?q" "0 \<le> s2c_quota c" using assms by (simp_all add: sl_inv_def)
  show ?thesis
  proof (rule limited_relay [OF q, of "sls_sock (sl_server c)" "slc_sock (sl_client c)"], goal_cases)
    case (1 d stat s1' q1 stat2 q2 s2')
    with assms show ?case
      by (auto simp: forward_server_to_client_def Let_def SlConnection_delete_def sl_inv_def)
  qed
qed

lemma on_writable_inv:
  assumes "sl_inv m c"
  shows "\<exists>c'. SlClient_on_writable c = Inr (SlLive c') \<and> sl_inv m c'" "\<exists>c'. SlServer_on_writable c = Inr (SlLive c') \<and> sl_inv m c'"
proof -
  from assms have q: "queue_ok (slc_queued_output (sl_client c))" "queue_ok (sls_queued_output (sl_server c))"
    by (simp_all add: sl_inv_def)
  obtain stat q' sk where "Circularbuf_write_all_to (slc_queued_output (sl_client c)) (slc_sock (sl_client c)) = Inr (stat, q', sk)"
    "queue_ok q'" "Circularbuf_drained (slc_queued_output (sl_client c)) (slc_sock (sl_client c)) stat q' sk" using queue_drain [OF q(1)] .
  with Circularbuf_drained_stream [OF this(3)] assms show "\<exists>c'. SlClient_on_writable c = Inr (SlLive c') \<and> sl_inv m c'"
    by (simp add: SlClient_on_writable_def Let_def sl_inv_def)
  obtain stat q' sk where "Circularbuf_write_all_to (sls_queued_output (sl_server c)) (sls_sock (sl_server c)) = Inr (stat, q', sk)"
    "queue_ok q'" "Circularbuf_drained (sls_queued_output (sl_server c)) (sls_sock (sl_server c)) stat q' sk" using queue_drain [OF q(2)] .
  with Circularbuf_drained_stream [OF this(3)] assms show "\<exists>c'. SlServer_on_writable c = Inr (SlLive c') \<and> sl_inv m c'"
    by (simp add: SlServer_on_writable_def Let_def sl_inv_def)
qed

lemma sl_dispatch_inv:
  assumes "sl_inv m c"
  shows "\<exists>r. sl_dispatch ev c = Inr r \<and> (\<forall>c'. r = SlLive c' \<longrightarrow> sl_inv m c')"
  using forward_cs_inv [OF assms] forward_sc_inv [OF assms] on_writable_inv [OF assms]
  by (cases ev) (auto simp: sl_dispatch_def)

lemma sl_accept_inv:
  assumes "env_ok env" "fresh_sock sk" "sl_accept_new env m (Some sk) ns = Inr (ns', Some c)"
  shows "sl_inv m c"
  using assms
  by (auto simp: sl_accept_new_def SlConnection_new_def SlServer_new_def SlClient_new_def assertE_def sl_inv_def env_ok_def fresh_sock_def
      Let_def elim!: bindE_InrE split: if_splits option.splits)

lemma sl_reachable_inv: "sl_reachable m c \<Longrightarrow> sl_inv m c"
proof (induction rule: sl_reachable.induct)
  case (accepted env sk ns ns' c)
  then show ?case by (rule sl_accept_inv)
next
  case (event c ev c')
  with sl_dispatch_inv [OF event.IH, of ev] show ?case by auto
qed


definition sl_demo_env :: env where
  "sl_demo_env = \<lparr>e_net = \<lparr>socket_ok = True, bind_ok = (\<lambda>_. True), connect_ok = True\<rparr>, e_server_sock = idle_sock,
     e_nonblocking = True, e_503 = Some (0, idle_sock), e_disk = (\<lambda>_. Some healthy_disk), e_reopen = True\<rparr>"


section \<open>The program\<close>

text \<open>
  The connections by number.  \<open>get_all_connections\<close> collects those with a pending event; at the end of
  \<open>main\<close> they are deleted.
\<close>

record sl_proxy =
  sl_net :: net_state
  sl_conns :: "(nat \<times> sl_connection) list"
  sl_next :: nat

definition sl_pending :: "sl_connection \<Rightarrow> sl_event list" where
  "sl_pending c =
     (if slc_read_evt (sl_client c) then [SlClientReadable] else [])
     @ (if slc_write_evt (sl_client c) then [SlClientWritable] else [])
     @ (if sls_read_evt (sl_server c) then [SlServerReadable] else [])
     @ (if sls_write_evt (sl_server c) then [SlServerWritable] else [])"

definition sl_get_all_connections :: "(nat \<times> sl_connection) list \<Rightarrow> nat list" where
  "sl_get_all_connections cs = remdups (concat (map (\<lambda>(i, c). map (\<lambda>e. i) (sl_pending c)) cs))"

text \<open>\<open>main\<close> up to the event loop, after the command line; the signal handlers must be accepted.\<close>

definition sl_main_start :: "bool \<Rightarrow> bool \<Rightarrow> bool \<Rightarrow> bool \<Rightarrow> bool \<Rightarrow> bool \<Rightarrow> sl_proxy res" where
  "sl_main_start sock_ok reuse_ok bound listen_ok sigpipe sigint =
     bindE (sl_passive_TCP True sock_ok reuse_ok bound listen_ok \<lparr>locals = local_init, open_socks = 0\<rparr>) (\<lambda>ns.
       if \<not> sigpipe then Inl Abort
       else if \<not> sigint then Inl Abort
       else Inr \<lparr>sl_net = ns, sl_conns = [], sl_next = 0\<rparr>)"

text \<open>One event of the loop: a client connects, or an event of a connection.\<close>

datatype sl_input = SlAccept env "sock option" | SlEvent nat sl_event

definition sl_step :: "int \<Rightarrow> sl_input \<Rightarrow> sl_proxy \<Rightarrow> sl_proxy res" where
  "sl_step max_speed x st =
     (case x of
        SlAccept env sk \<Rightarrow>
          bindE (sl_accept_new env max_speed sk (sl_net st)) (\<lambda>(ns, r).
            case r of
              None \<Rightarrow> Inr (st\<lparr>sl_net := ns\<rparr>)
            | Some c \<Rightarrow> Inr (st\<lparr>sl_net := ns, sl_conns := (sl_next st, c) # sl_conns st, sl_next := sl_next st + 1\<rparr>))
      | SlEvent i ev \<Rightarrow>
          bindE (derefE (map_of (sl_conns st) i)) (\<lambda>c.
          bindE (sl_dispatch ev c) (\<lambda>r.
            case r of
              SlLive c' \<Rightarrow> Inr (st\<lparr>sl_conns := AList.update i c' (sl_conns st)\<rparr>)
            | SlDeleted s1 s2 \<Rightarrow> Inr (st\<lparr>sl_conns := AList.delete i (sl_conns st)\<rparr>))))"

definition sl_cleanup :: "sl_proxy \<Rightarrow> sl_proxy" where
  "sl_cleanup st = st\<lparr>sl_conns := fold AList.delete (sl_get_all_connections (sl_conns st)) (sl_conns st)\<rparr>"

inductive sl_run :: "int \<Rightarrow> sl_proxy \<Rightarrow> bool" for max_speed where
  start: "sl_main_start s1 s2 s3 s4 s5 s6 = Inr st \<Longrightarrow> sl_run max_speed st"
| accept: "sl_run max_speed st \<Longrightarrow> env_ok env \<Longrightarrow> fresh_sock sk \<Longrightarrow> sl_step max_speed (SlAccept env (Some sk)) st = Inr st' \<Longrightarrow>
    sl_run max_speed st'"
| event: "sl_run max_speed st \<Longrightarrow> map_of (sl_conns st) i = Some c \<Longrightarrow> sl_enabled ev c \<Longrightarrow>
    sl_step max_speed (SlEvent i ev) st = Inr st' \<Longrightarrow> sl_run max_speed st'"

text \<open>A used-up quota stops the reading in its direction for good.\<close>

definition sl_stopped :: "sl_connection \<Rightarrow> bool" where
  "sl_stopped c \<longleftrightarrow> (c2s_quota c \<le> 0 \<longrightarrow> \<not> slc_read_evt (sl_client c)) \<and> (s2c_quota c \<le> 0 \<longrightarrow> \<not> sls_read_evt (sl_server c))"

lemma sl_accept_stopped:
  "sl_accept_new env m (Some sk) ns = Inr (ns', Some c) \<Longrightarrow> sl_stopped c"
  by (auto simp: sl_accept_new_def SlConnection_new_def assertE_def sl_stopped_def Let_def elim!: bindE_InrE split: if_splits option.splits)

lemma sl_dispatch_stopped:
  assumes "sl_dispatch ev c = Inr (SlLive c')" "sl_stopped c"
  shows "sl_stopped c'"
  using assms
  by (cases ev)
    (auto simp: sl_dispatch_def sl_stopped_def forward_client_to_server_def forward_server_to_client_def SlClient_on_writable_def
      SlServer_on_writable_def SlConnection_delete_def Let_def elim!: bindE_InrE split: if_splits prod.splits)

lemma sl_run_inv:
  assumes "sl_run m st"
  shows "distinct (map fst (sl_conns st))
    \<and> (\<forall>i c. map_of (sl_conns st) i = Some c \<longrightarrow> i < sl_next st \<and> sl_reachable m c \<and> sl_stopped c)"
  using assms
proof (induction rule: sl_run.induct)
  case (start s1 s2 s3 s4 s5 s6 st)
  then show ?case by (auto simp: sl_main_start_def elim!: bindE_InrE split: if_splits)
next
  case (accept st env sk st')
  then obtain ns r where r: "sl_accept_new env m (Some sk) (sl_net st) = Inr (ns, r)"
    "case r of None \<Rightarrow> st' = st\<lparr>sl_net := ns\<rparr>
     | Some c \<Rightarrow> st' = st\<lparr>sl_net := ns, sl_conns := (sl_next st, c) # sl_conns st, sl_next := sl_next st + 1\<rparr>"
    by (auto simp: sl_step_def elim!: bindE_InrE split: option.splits)
  show ?case
  proof (cases r)
    case (Some c)
    with r sl_reachable.accepted [OF accept(2,3)] sl_accept_stopped have "sl_reachable m c" "sl_stopped c" by blast+
    moreover have "map_of (sl_conns st) (sl_next st) = None" using accept.IH by (metis less_irrefl not_None_eq)
    ultimately show ?thesis using accept.IH r Some by (auto simp: less_Suc_eq map_of_eq_None_iff)
  qed (use accept.IH r in auto)
next
  case (event st i c ev st')
  then obtain r where r: "sl_dispatch ev c = Inr r"
    "st' = st\<lparr>sl_conns := (case r of SlLive c' \<Rightarrow> AList.update i c' (sl_conns st) | SlDeleted s1 s2 \<Rightarrow> AList.delete i (sl_conns st))\<rparr>"
    by (auto simp: sl_step_def derefE_def elim!: bindE_InrE split: sl_outcome.splits)
  from event.IH event(2) have i: "i < sl_next st" "distinct (map fst (sl_conns st))" "sl_reachable m c" "sl_stopped c" by blast+
  show ?case
  proof (cases r)
    case (SlLive c')
    with r i(3,4) event(3) have "sl_reachable m c'" "sl_stopped c'" by (auto intro: sl_reachable.event sl_dispatch_stopped)
    with event.IH r SlLive i show ?thesis by (auto simp: AList.distinct_update AList.update_conv' split: if_splits)
  next
    case (SlDeleted s1 s2)
    with event.IH r i(2) show ?thesis by (simp add: AList.distinct_delete AList.delete_conv')
  qed
qed

lemma sl_scan:
  assumes "distinct (map fst cs)"
  shows "j \<in> set (sl_get_all_connections cs) \<longleftrightarrow> (\<exists>d. map_of cs j = Some d \<and> sl_pending d \<noteq> [])"
proof -
  have "j \<in> set (sl_get_all_connections cs) \<longleftrightarrow> (\<exists>d. (j, d) \<in> set cs \<and> sl_pending d \<noteq> [])"
    by (induction cs) (auto simp: sl_get_all_connections_def image_constant_conv split: if_splits)
  with assms show ?thesis by (metis map_of_eq_Some_iff)
qed

lemma map_of_fold_delete: "map_of (fold AList.delete is cs) i = (if i \<in> set is then None else map_of cs i)"
  by (induction "is" arbitrary: cs) (auto simp: AList.delete_conv')

text \<open>
  Connections of the speed-limiting proxy whose budget is used up are lost.  Once a connection
  has carried \<open>max_speed\<close> bytes in both directions and waits for no write, it has no pending event:
  no event ever reaches it again, and the scan at the end of \<open>main\<close>, which finds all the others,
  does not find it either, so that its sockets are never closed.
\<close>

theorem sl_exhausted_connection_lost:
  assumes "sl_run max_speed st" "map_of (sl_conns st) i = Some c"
    "c2s_quota c = 0" "s2c_quota c = 0" "\<not> slc_write_evt (sl_client c)" "\<not> sls_write_evt (sl_server c)"
  shows "(\<forall>ev. \<not> sl_enabled ev c) \<and> map_of (sl_conns (sl_cleanup st)) i = Some c
    \<and> (\<forall>j d. map_of (sl_conns (sl_cleanup st)) j = Some d \<longrightarrow> sl_pending d = [])"
proof -
  note inv = sl_run_inv [OF assms(1)]
  note scan = sl_scan [OF conjunct1 [OF inv]]
  have "sl_stopped c" using inv assms(2) by blast
  with assms(3-6) have none: "\<not> slc_read_evt (sl_client c)" "\<not> sls_read_evt (sl_server c)" "sl_pending c = []"
    by (simp_all add: sl_stopped_def sl_pending_def)
  have en: "\<not> sl_enabled ev c" for ev using none(1,2) assms(5,6) by (cases ev) (simp_all add: sl_enabled_def)
  have left: "map_of (sl_conns (sl_cleanup st)) j = (if \<exists>d. map_of (sl_conns st) j = Some d \<and> sl_pending d \<noteq> [] then None
      else map_of (sl_conns st) j)" for j by (simp add: sl_cleanup_def map_of_fold_delete scan)
  have "map_of (sl_conns (sl_cleanup st)) i = Some c" using left [of i] assms(2) none(3) by simp
  moreover have "sl_pending d = []" if "map_of (sl_conns (sl_cleanup st)) j = Some d" for j d
    using that left [of j] by (auto split: if_splits)
  ultimately show ?thesis using en by blast
qed

text \<open>A connection that carries one byte in each direction under a limit of one byte.\<close>

lemma one_byte: "rx s = [RData [x]] \<Longrightarrow> 0 < n \<Longrightarrow> read_all s (min n (nat 1)) =
    ([x], \<lparr>nbytes = 1, has_error = False, has_eof = False\<rparr>, s\<lparr>rx := [], received := received s @ [x]\<rparr>)"
  by (simp add: read_all_def read_all_loop.simps sys_read_def io_stat_init_def Let_def)

lemma forward_cs_once:
  assumes "sl_inv m c" "c2s_quota c = 1" "rx (slc_sock (sl_client c)) = [RData [x]]"
    "0 < Circularbuf_remaining_space (sls_queued_output (sl_server c))"
  shows "\<exists>c'. forward_client_to_server c = Inr (SlLive c') \<and> c2s_quota c' = 0 \<and> s2c_quota c' = s2c_quota c
    \<and> rx (sls_sock (sl_server c')) = rx (sls_sock (sl_server c)) \<and> sls_read_evt (sl_server c') = sls_read_evt (sl_server c)
    \<and> slc_queued_output (sl_client c') = slc_queued_output (sl_client c)"
proof -
  let ?q = "sls_queued_output (sl_server c)"
  have q: "queue_ok ?q" "0 \<le> c2s_quota c" using assms by (simp_all add: sl_inv_def)
  note r = one_byte [OF assms(3,4)]
  show ?thesis
  proof (rule limited_relay [OF q, of "slc_sock (sl_client c)" "sls_sock (sl_server c)"], goal_cases)
    case (1 d stat s1' q1 stat2 q2 s2')
    from 1(1) r assms(2) have e: "d = [x]" "stat = \<lparr>nbytes = 1, has_error = False, has_eof = False\<rparr>" by simp_all
    from 1(1-4,12) assms(2) show ?case unfolding e by (simp add: forward_client_to_server_def Let_def)
  qed
qed

lemma forward_sc_once:
  assumes "sl_inv m c" "s2c_quota c = 1" "rx (sls_sock (sl_server c)) = [RData [x]]"
    "0 < Circularbuf_remaining_space (slc_queued_output (sl_client c))"
  shows "\<exists>c'. forward_server_to_client c = Inr (SlLive c') \<and> s2c_quota c' = 0 \<and> c2s_quota c' = c2s_quota c"
proof -
  let ?q = "slc_queued_output (sl_client c)"
  have q: "queue_ok ?q" "0 \<le> s2c_quota c" using assms by (simp_all add: sl_inv_def)
  note r = one_byte [OF assms(3,4)]
  show ?thesis
  proof (rule limited_relay [OF q, of "sls_sock (sl_server c)" "slc_sock (sl_client c)"], goal_cases)
    case (1 d stat s1' q1 stat2 q2 s2')
    from 1(1) r assms(2) have e: "d = [x]" "stat = \<lparr>nbytes = 1, has_error = False, has_eof = False\<rparr>" by simp_all
    from 1(1-4,12) assms(2) show ?case unfolding e by (simp add: forward_server_to_client_def Let_def)
  qed
qed

lemma on_writable_settles:
  assumes "sl_inv m c" "c2s_quota c = 0" "s2c_quota c = 0"
  shows "\<exists>c'. SlServer_on_writable c = Inr (SlLive c') \<and> c2s_quota c' = 0 \<and> s2c_quota c' = 0 \<and> \<not> sls_write_evt (sl_server c')"
    "\<exists>c'. SlClient_on_writable c = Inr (SlLive c') \<and> c2s_quota c' = 0 \<and> s2c_quota c' = 0 \<and> \<not> slc_write_evt (sl_client c')
       \<and> sls_write_evt (sl_server c') = sls_write_evt (sl_server c)"
  using on_writable_inv [OF assms(1)] assms(2,3)
  by (auto simp: SlServer_on_writable_def SlClient_on_writable_def Let_def elim!: bindE_InrE)

lemma sl_run_event:
  assumes "sl_run m st" "map_of (sl_conns st) i = Some c" "sl_enabled ev c" "sl_dispatch ev c = Inr (SlLive c')"
  shows "\<exists>st'. sl_run m st' \<and> map_of (sl_conns st') i = Some c'"
proof -
  have "sl_step m (SlEvent i ev) st = Inr (st\<lparr>sl_conns := AList.update i c' (sl_conns st)\<rparr>)"
    using assms(2,4) by (simp add: sl_step_def)
  from sl_run.event [OF assms(1-3) this] show ?thesis by (auto simp: AList.update_conv')
qed

lemma sl_settles:
  assumes "sl_run m st" "map_of (sl_conns st) i = Some c" "c2s_quota c = 0" "s2c_quota c = 0"
  shows "\<exists>st' c'. sl_run m st' \<and> map_of (sl_conns st') i = Some c' \<and> c2s_quota c' = 0 \<and> s2c_quota c' = 0
    \<and> \<not> slc_write_evt (sl_client c') \<and> \<not> sls_write_evt (sl_server c')"
proof -
  have inv: "sl_inv m d" if "sl_run m s" "map_of (sl_conns s) i = Some d" for s d
    using sl_run_inv [OF that(1)] that(2) sl_reachable_inv by blast
  have "\<exists>st1 c1. sl_run m st1 \<and> map_of (sl_conns st1) i = Some c1 \<and> c2s_quota c1 = 0 \<and> s2c_quota c1 = 0 \<and> \<not> sls_write_evt (sl_server c1)"
  proof (cases "sls_write_evt (sl_server c)")
    case True
    with sl_run_event [OF assms(1,2), of SlServerWritable] on_writable_settles(1) [OF inv [OF assms(1,2)] assms(3,4)] show ?thesis
      by (fastforce simp: sl_enabled_def sl_dispatch_def)
  qed (use assms in blast)
  then obtain st1 c1 where 1: "sl_run m st1" "map_of (sl_conns st1) i = Some c1" "c2s_quota c1 = 0" "s2c_quota c1 = 0"
    "\<not> sls_write_evt (sl_server c1)" by blast
  show ?thesis
  proof (cases "slc_write_evt (sl_client c1)")
    case True
    with sl_run_event [OF 1(1,2), of SlClientWritable] on_writable_settles(2) [OF inv [OF 1(1,2)] 1(3,4)] 1(5) show ?thesis
      by (fastforce simp: sl_enabled_def sl_dispatch_def)
  qed (use 1 in blast)
qed

theorem sl_exhausted_connection_lost_witness:
  "\<exists>st c. sl_run 1 st \<and> map_of (sl_conns st) 0 = Some c \<and> map_of (sl_conns (sl_cleanup st)) 0 = Some c"
proof -
  let ?sk = "idle_sock\<lparr>rx := [RData ''a'']\<rparr>" and ?env = "sl_demo_env\<lparr>e_server_sock := idle_sock\<lparr>rx := [RData ''b'']\<rparr>\<rparr>"
  let ?st0 = "\<lparr>sl_net = \<lparr>locals = local_init, open_socks = 1\<rparr>, sl_conns = [], sl_next = 0\<rparr>"
  let ?c0 = "\<lparr>sl_client = \<lparr>slc_sock = ?sk, slc_read_evt = True, slc_write_evt = False, slc_queued_output = Circularbuf_new\<rparr>,
    sl_server = \<lparr>sls_sock = idle_sock\<lparr>rx := [RData ''b'']\<rparr>, sls_read_evt = True, sls_write_evt = False, sls_queued_output = Circularbuf_new\<rparr>,
    c2s_quota = 1, s2c_quota = 1\<rparr>"
  have start: "sl_run 1 ?st0" by (rule sl_run.start [of True True True True True True]) (simp add: sl_main_start_def passive_TCP_def)
  have ok: "env_ok ?env" "fresh_sock ?sk" by (simp_all add: env_ok_def sl_demo_env_def fresh_sock_def idle_sock_def)
  have "\<exists>ns. sl_step 1 (SlAccept ?env (Some ?sk)) ?st0 = Inr (?st0\<lparr>sl_net := ns, sl_conns := [(0, ?c0)], sl_next := 1\<rparr>)"
    by (simp add: sl_step_def sl_accept_new_def SlConnection_new_def SlServer_new_def SlClient_new_def sl_connect_TCP_def sl_demo_env_def assertE_def)
  then obtain st1 where 1: "sl_run 1 st1" "map_of (sl_conns st1) 0 = Some ?c0" using sl_run.accept [OF start ok] by fastforce
  have space: "0 < Circularbuf_remaining_space Circularbuf_new"
    by (simp add: Circularbuf_remaining_space_def Circularbuf_new_def Circularbuf_data_size_def SOCK_IO_BUF_SIZE_def)
  have inv: "sl_inv 1 d" if "sl_run 1 s" "map_of (sl_conns s) 0 = Some d" for s d
    using sl_run_inv [OF that(1)] that(2) sl_reachable_inv by blast
  obtain c1 where c1: "forward_client_to_server ?c0 = Inr (SlLive c1)" "c2s_quota c1 = 0" "s2c_quota c1 = 1"
    "rx (sls_sock (sl_server c1)) = [RData ''b'']" "sls_read_evt (sl_server c1)" "slc_queued_output (sl_client c1) = Circularbuf_new"
    using forward_cs_once [OF inv [OF 1], of "CHR ''a''"] space by auto
  from sl_run_event [OF 1, of SlClientReadable c1] c1(1) obtain st2 where 2: "sl_run 1 st2" "map_of (sl_conns st2) 0 = Some c1"
    by (auto simp: sl_enabled_def sl_dispatch_def)
  obtain c2 where c2: "forward_server_to_client c1 = Inr (SlLive c2)" "s2c_quota c2 = 0" "c2s_quota c2 = 0"
    using forward_sc_once [OF inv [OF 2] c1(3,4)] space c1(2,6) by auto
  from sl_run_event [OF 2, of SlServerReadable c2] c1(5) c2(1) obtain st3 where 3: "sl_run 1 st3" "map_of (sl_conns st3) 0 = Some c2"
    by (auto simp: sl_enabled_def sl_dispatch_def)
  from sl_settles [OF 3 c2(3,2)] obtain st c where "sl_run 1 st" "map_of (sl_conns st) 0 = Some c" "c2s_quota c = 0" "s2c_quota c = 0"
    "\<not> slc_write_evt (sl_client c)" "\<not> sls_write_evt (sl_server c)" by blast
  with sl_exhausted_connection_lost [OF this] show ?thesis by blast
qed

section \<open>From the command line\<close>

definition sl_main ::
    "bool \<Rightarrow> resolver \<Rightarrow> string list \<Rightarrow> sl_proxy res \<Rightarrow> (nat + sockaddr_in \<times> int \<times> sl_proxy) res" where
  "sl_main sc R argv started =
     bindE (sl_options sc argv) (\<lambda>cmd.
       case cmd of
         Exit n \<Rightarrow> Inr (Inl n)
       | Run x \<Rightarrow>
           bindE (resolve_host R (sl_s_host x)) (\<lambda>a.
           bindE started (\<lambda>st. Inr (Inr (\<lparr>sin_port = htons (sl_s_port x), sin_addr = a\<rparr>, sl_max_speed x, st)))))"

text \<open>
  A speed that is no positive number is accepted on the command line; the assertion in the constructor of
  \<open>Connection\<close> then stops the program at the first client.
\<close>

lemma speed_argument_unchecked:
  assumes "v \<noteq> []" "take 1 p \<noteq> ''-''" "take 1 host \<noteq> ''-''" "getaddrinfo R host = Some (Inet a)"
  shows "sl_main True R [''-s'', v, p, host] (Inr st) = Inr (Inr (\<lparr>sin_port = htons 80, sin_addr = a\<rparr>, atoi v, st))"
proof -
  have s: "as_char True 115 = 115" by (simp add: as_char_def)
  have 1: "getopt ''p:s:h'' None (getopt_init [''-s'', v, p, host]) =
      Inr (of_char CHR ''s'', v, \<lparr>cluster = [], unseen = [p, host], passed = []\<rparr>)"
    by (subst getopt.simps) (simp add: getopt_init_def short_step_def)
  have 2: "getopt ''p:s:h'' None \<lparr>cluster = [], unseen = [p, host], passed = []\<rparr> =
      Inr (opt_end, [], \<lparr>cluster = [], unseen = [], passed = [p, host]\<rparr>)"
    using assms(2,3) by (simp add: getopt_plain) (subst getopt.simps, simp)
  have "sl_options True [''-s'', v, p, host] =
      Inr (Run \<lparr>sl_s_port = 80, sl_max_speed = atoi v, sl_p_port = to_port (atoi p), sl_s_host = host\<rparr>)"
    unfolding sl_options_def
    by (subst sl_options_loop.simps, simp add: 1 s Let_def, subst sl_options_loop.simps)
      (simp add: 2 as_char_end positional_def two_args_def)
  with assms(4) show ?thesis by (simp add: sl_main_def resolve_host_def)
qed

lemma nonpositive_speed_aborts:
  assumes "max_speed \<le> 0" "e_nonblocking env" "socket_ok (e_net env)" "connect_ok (e_net env)"
  shows "sl_accept_new env max_speed (Some sk) ns = Inl AssertFailed"
  using assms by (simp add: sl_accept_new_def SlConnection_new_def SlServer_new_def sl_connect_TCP_def Let_def assertE_def)

end
