(* ===== verification/Attack.thy ===== *)
theory Attack
  imports Startup
begin

text \<open>
  The attack client \<open>utils/simple_attack.cpp\<close>, with which the repository exercises the proxy: what
  it writes to its socket and what it prints of the response.  The random numbers of the body are an
  argument; sleeping and the progress messages are not modelled.  Sizes are C's \<open>int\<close>; the
  products the program forms are checked to stay in its range.
\<close>

section \<open>Writing\<close>

text \<open>Every write is one \<open>write\<close> whose result is ignored.\<close>

definition attack_write :: "string \<Rightarrow> sock \<Rightarrow> sock" where
  "attack_write m sk = snd (sys_write sk m)"

text \<open>
  \<open>connect_TCP\<close> of this program: the whole first address found is copied, so of an IPv6 address the flow
  label ends up as the IPv4 address; \<open>connected\<close> is whether \<open>connect\<close> to an address succeeds.
\<close>

definition attack_connect_TCP :: "resolver \<Rightarrow> bool \<Rightarrow> int \<Rightarrow> bool \<Rightarrow> (sockaddr_in \<Rightarrow> bool) \<Rightarrow> string \<Rightarrow> 16 word \<Rightarrow> sockaddr_in res" where
  "attack_connect_TCP R socket_created win_size setsockopt_ok connected host port =
     bindE (case getaddrinfo R host of
              Some (Inet a) \<Rightarrow> Inr a
            | Some (Inet6 flow a) \<Rightarrow> Inr flow
            | None \<Rightarrow> if inet_addr R host = INADDR_NONE then Inl Abort else Inr (inet_addr R host)) (\<lambda>a.
     let addr = \<lparr>sin_port = htons port, sin_addr = a\<rparr> in
     if \<not> socket_created then Inl Abort
     else if win_size > 0 \<and> \<not> setsockopt_ok then Inl Abort
     else if \<not> connected addr then Inl Abort
     else Inr addr)"

section \<open>The slow GET\<close>

definition get_attack_msg :: "string \<Rightarrow> string list" where
  "get_attack_msg host_header =
     [''GET / HTTP/1.1'' @ CRLF, host_header, ''User-Agent: a'' @ CRLF, ''Accept: */*'' @ CRLF, ''X-a: 1234'' @ CRLF,
      ''X-a: 3234'' @ CRLF, ''X-a: 34534545'' @ CRLF, ''X-a: 429548724598457'' @ CRLF, CRLF]"

definition get_attack :: "string \<Rightarrow> sock \<Rightarrow> sock" where
  "get_attack host_header sk = fold attack_write (get_attack_msg host_header) sk"

section \<open>The slow POST\<close>

definition boundary :: string where
  "boundary = ''------------------------03b7aa8056b76ef3''"

definition content_length :: "int \<Rightarrow> bool \<Rightarrow> nat \<Rightarrow> int" where
  "content_length iteration form data_rate = (if form then 0 else 193) + int data_rate * iteration"

text \<open>\<open>to_string\<close> of an \<open>int\<close>.\<close>

definition int_to_string :: "int \<Rightarrow> string" where
  "int_to_string n = (if n < 0 then ''-'' @ to_string (nat (- n)) else to_string (nat n))"

definition int_range :: "int \<Rightarrow> bool" where
  "int_range n \<longleftrightarrow> - (2 ^ 31) \<le> n \<and> n < 2 ^ 31"

definition post_header :: "string \<Rightarrow> int \<Rightarrow> bool \<Rightarrow> nat \<Rightarrow> string list" where
  "post_header host_header iteration form data_rate =
     [''POST / HTTP/1.1'' @ CRLF, host_header, ''User-Agent: a'' @ CRLF, ''Accept: */*'' @ CRLF,
      ''Content-Length: '' @ int_to_string (content_length iteration form data_rate) @ CRLF]
     @ (if form then
          [''Content-Type: application/x-www-form-urlencoded'' @ CRLF, CRLF]
        else
          [''Expect: 100-continue'' @ CRLF,
           ''Content-Type: multipart/form-data; boundary='' @ boundary @ CRLF,
           CRLF,
           ''--'' @ boundary @ CRLF,
           ''Content-Disposition: form-data; name='' @ [CHR 0x22] @ ''file'' @ [CHR 0x22] @ ''; filename='' @ [CHR 0x22]
             @ ''a'' @ [CHR 0x22] @ CRLF,
           ''Content-Type: application/octet-stream'' @ CRLF,
           CRLF])"

definition post_body :: "(nat \<Rightarrow> nat) \<Rightarrow> nat \<Rightarrow> string" where
  "post_body rnd data_rate = map (\<lambda>i. char_of (rnd i mod (0x7e - 0x20) + 0x20)) [0..<data_rate]"

definition post_tail :: "bool \<Rightarrow> string" where
  "post_tail form = (if form then [] else CRLF @ ''--'' @ boundary @ ''--'' @ CRLF)"

text \<open>
  The loop runs \<open>iteration\<close> times, not at all if that is negative; an announced length that
  overflows an \<open>int\<close> is undefined in C++.
\<close>

definition post_attack :: "string \<Rightarrow> (nat \<Rightarrow> nat) \<Rightarrow> int \<Rightarrow> bool \<Rightarrow> nat \<Rightarrow> sock \<Rightarrow> sock res" where
  "post_attack host_header rnd iteration form data_rate sk =
     (if \<not> int_range (int data_rate * iteration) \<or> \<not> int_range (content_length iteration form data_rate) then Inl SignedOverflow
      else Inr (fold attack_write
        (post_header host_header iteration form data_rate @ replicate (nat iteration) (post_body rnd data_rate) @ [post_tail form]) sk))"

text \<open>The end of \<open>main\<close>: the \<open>Host\<close> line and a form of at most \<open>body_size\<close> bytes in chunks of 600; the
  division truncates towards zero.\<close>

definition int_quot :: "int \<Rightarrow> int \<Rightarrow> int" where
  "int_quot x y = sgn x * (\<bar>x\<bar> div y)"

definition attack_main :: "string \<Rightarrow> nat \<Rightarrow> int \<Rightarrow> (nat \<Rightarrow> nat) \<Rightarrow> sock \<Rightarrow> sock res" where
  "attack_main host port body_size rnd sk =
     post_attack (''Host: '' @ host @ '':'' @ to_string port @ CRLF) rnd (int_quot body_size 600) True 600 sk"

section \<open>What arrives\<close>

text \<open>A socket that takes everything it is given.\<close>

definition takes_all :: "sock \<Rightarrow> string list \<Rightarrow> bool" where
  "takes_all sk ms \<longleftrightarrow> list_all2 (\<lambda>m r. \<exists>k \<ge> length m. r = WAcc k) ms (take (length ms) (tx sk))"

lemma fold_attack_write:
  "takes_all sk ms \<Longrightarrow> sent (fold attack_write ms sk) = sent sk @ concat ms"
proof (induction ms arbitrary: sk)
  case (Cons m ms)
  then obtain k r where k: "tx sk = WAcc k # r" "length m \<le> k" "list_all2 (\<lambda>m r. \<exists>k \<ge> length m. r = WAcc k) ms (take (length ms) r)"
    by (cases "tx sk") (auto simp: takes_all_def)
  then have "attack_write m sk = sk\<lparr>tx := r, sent := sent sk @ m\<rparr>" by (simp add: attack_write_def sys_write_def)
  with Cons.IH [of "sk\<lparr>tx := r, sent := sent sk @ m\<rparr>"] k(3) show ?case by (simp add: takes_all_def)
qed simp

text \<open>An HTTP message on the wire: what follows the first empty line.\<close>

fun payload :: "string \<Rightarrow> string" where
  "payload [] = []"
| "payload (x # xs) = (if take 4 (x # xs) = CRLF @ CRLF then drop 4 (x # xs) else payload xs)"

lemma payload_skip: "CHR 0x0D \<notin> set l \<Longrightarrow> payload (l @ x) = payload x"
  by (induction l) (auto simp: CRLF_def)

lemma payload_line:
  assumes "CHR 0x0D \<notin> set l"
  shows "payload (l @ CRLF @ x) = (if take 2 x = CRLF then drop 2 x else payload x)"
proof -
  have "payload (CRLF @ x) = (if take 2 x = CRLF then drop 2 x else payload (CHR 0x0A # x))"
    by (simp add: CRLF_def eval_nat_numeral)
  moreover have "payload (CHR 0x0A # x) = payload x" by (simp add: CRLF_def)
  ultimately show ?thesis using payload_skip [OF assms] by simp
qed

lemma payload_message:
  assumes "ls \<noteq> []" "\<And>l. l \<in> set ls \<Longrightarrow> l \<noteq> [] \<and> CHR 0x0D \<notin> set l"
  shows "payload (concat (map (\<lambda>l. l @ CRLF) ls) @ CRLF @ b) = b"
  using assms
proof (induction ls)
  case (Cons l ls)
  have l: "CHR 0x0D \<notin> set l" using Cons.prems(2) by simp
  show ?case
  proof (cases ls)
    case Nil
    with payload_line [OF l, of "CRLF @ b"] show ?thesis by (simp add: CRLF_def)
  next
    case (Cons l' ls')
    let ?x = "concat (map (\<lambda>l. l @ CRLF) ls) @ CRLF @ b"
    have "l' \<noteq> [] \<and> CHR 0x0D \<notin> set l'" using Cons.prems(2) [of l'] by (simp add: Cons)
    then obtain y ys where y: "l' = y # ys" "y \<noteq> CHR 0x0D" by (cases l') auto
    then have "take 2 ?x \<noteq> CRLF" using Cons by (simp add: CRLF_def)
    with payload_line [OF l, of ?x] Cons Cons.IH Cons.prems show ?thesis by simp
  qed
qed simp

section \<open>The announced length\<close>

text \<open>The header of the request as lines, and the bytes after it.\<close>

definition header_lines :: "string \<Rightarrow> int \<Rightarrow> bool \<Rightarrow> nat \<Rightarrow> string list" where
  "header_lines host_line iteration form data_rate =
     [''POST / HTTP/1.1'', host_line, ''User-Agent: a'', ''Accept: */*'',
      ''Content-Length: '' @ int_to_string (content_length iteration form data_rate)]
     @ (if form then [''Content-Type: application/x-www-form-urlencoded'']
        else [''Expect: 100-continue'', ''Content-Type: multipart/form-data; boundary='' @ boundary])"

definition preamble :: "bool \<Rightarrow> string" where
  "preamble form = (if form then [] else
     ''--'' @ boundary @ CRLF @ ''Content-Disposition: form-data; name='' @ [CHR 0x22] @ ''file'' @ [CHR 0x22] @ ''; filename=''
     @ [CHR 0x22] @ ''a'' @ [CHR 0x22] @ CRLF @ ''Content-Type: application/octet-stream'' @ CRLF @ CRLF)"

lemma post_header_lines:
  "concat (post_header (h @ CRLF) iteration form data_rate) =
     concat (map (\<lambda>l. l @ CRLF) (header_lines h iteration form data_rate)) @ CRLF @ preamble form"
  by (simp add: post_header_def header_lines_def preamble_def)

lemma preamble_tail: "length (preamble form) + length (post_tail form) = (if form then 0 else 193)"
  by (simp add: preamble_def post_tail_def boundary_def CRLF_def)

lemma header_lines_plain:
  assumes "CHR 0x0D \<notin> set h" "h \<noteq> []"
  shows "l \<in> set (header_lines h iteration form data_rate) \<Longrightarrow> l \<noteq> [] \<and> CHR 0x0D \<notin> set l"
proof -
  have "CHR 0x0D \<notin> set (to_string n)" for n using to_string_digits [of "CHR 0x0D" n] by auto
  then have "CHR 0x0D \<notin> set (int_to_string n)" for n by (simp add: int_to_string_def)
  then show "l \<in> set (header_lines h iteration form data_rate) \<Longrightarrow> l \<noteq> [] \<and> CHR 0x0D \<notin> set l"
    using assms by (auto simp: header_lines_def boundary_def split: if_splits)
qed

text \<open>
  On a socket that takes every write whole, the attack sends one well-formed request: the
  number of bytes after the empty line that ends its header is exactly the \<open>Content-Length\<close> it
  announces, for forms and for uploads (whose 193 bytes of multipart framing are counted), for
  every rate and number of rounds whose product is an \<open>int\<close>.
\<close>

theorem post_attack_content_length:
  assumes "CHR 0x0D \<notin> set host_line" "host_line \<noteq> []" "0 \<le> iteration" "content_length iteration form data_rate < 2 ^ 31"
    "takes_all sk (post_header (host_line @ CRLF) iteration form data_rate @ replicate (nat iteration) (post_body rnd data_rate) @ [post_tail form])"
  shows "\<exists>sk' msg pre post. post_attack (host_line @ CRLF) rnd iteration form data_rate sk = Inr sk' \<and> sent sk' = sent sk @ msg
    \<and> msg = pre @ ''Content-Length: '' @ int_to_string (content_length iteration form data_rate) @ CRLF @ post
    \<and> int (length (payload msg)) = content_length iteration form data_rate"
proof -
  let ?ls = "header_lines host_line iteration form data_rate"
  let ?b = "concat (replicate (nat iteration) (post_body rnd data_rate))"
  define msg where "msg = concat (map (\<lambda>l. l @ CRLF) ?ls) @ CRLF @ preamble form @ ?b @ post_tail form"
  let ?ms = "post_header (host_line @ CRLF) iteration form data_rate @ replicate (nat iteration) (post_body rnd data_rate) @ [post_tail form]"
  have "concat ?ms = msg" by (simp add: post_header_lines msg_def)
  with fold_attack_write [OF assms(5)] have sent: "sent (fold attack_write ?ms sk) = sent sk @ msg" by simp
  have "0 \<le> int data_rate * iteration" using assms(3) by simp
  then have "int_range (int data_rate * iteration)" "int_range (content_length iteration form data_rate)"
    using assms(4) by (auto simp: int_range_def content_length_def split: if_splits)
  with sent have s: "post_attack (host_line @ CRLF) rnd iteration form data_rate sk = Inr (fold attack_write ?ms sk)"
    "sent (fold attack_write ?ms sk) = sent sk @ msg" by (simp_all add: post_attack_def)
  have "?ls \<noteq> []" by (simp add: header_lines_def)
  then have "payload msg = preamble form @ ?b @ post_tail form"
    unfolding msg_def using header_lines_plain [OF assms(1,2)] by (intro payload_message) blast+
  moreover have "int (length ?b) = int data_rate * iteration"
    using assms(3) by (simp add: length_concat post_body_def sum_list_replicate)
  moreover have "int (length (preamble form)) + int (length (post_tail form)) = (if form then 0 else 193)"
    using preamble_tail [of form] by (cases form) simp_all
  ultimately have "int (length (payload msg)) = content_length iteration form data_rate" by (simp add: content_length_def)
  moreover have "\<exists>pre post. msg = pre @ ''Content-Length: '' @ int_to_string (content_length iteration form data_rate) @ CRLF @ post"
    unfolding msg_def header_lines_def
    by (rule exI [of _ "''POST / HTTP/1.1'' @ CRLF @ host_line @ CRLF @ ''User-Agent: a'' @ CRLF @ ''Accept: */*'' @ CRLF"]) simp
  ultimately show ?thesis using s by blast
qed

definition greedy_sock :: sock where
  "greedy_sock = idle_sock\<lparr>tx := [WAcc 100, WAcc 100, WAcc 100, WAcc 100, WAcc 100, WAcc 100, WAcc 100, WAcc 100, WAcc 100]\<rparr>"

theorem post_attack_content_length_witness:
  "\<exists>sk' msg. post_attack (''Host: a:80'' @ CRLF) (\<lambda>i. i) 1 True 3 greedy_sock = Inr sk'
     \<and> sent sk' = msg \<and> length (payload msg) = 3"
proof -
  have len: "length (post_body (\<lambda>i. i) 3) = 3" by (simp add: post_body_def)
  have "takes_all greedy_sock (post_header (''Host: a:80'' @ CRLF) 1 True 3 @ replicate 1 (post_body (\<lambda>i. i) 3) @ [post_tail True])"
    by (simp add: takes_all_def greedy_sock_def post_header_def post_tail_def CRLF_def content_length_def int_to_string_def to_string.simps [of 3] len)
  moreover have "content_length 1 True 3 = 3" "CHR 0x0D \<notin> set ''Host: a:80''" "''Host: a:80'' \<noteq> []" "sent greedy_sock = []"
    by (simp_all add: content_length_def greedy_sock_def idle_sock_def)
  ultimately show ?thesis
    using post_attack_content_length [of "''Host: a:80''" 1 True 3 greedy_sock "\<lambda>i. i"] by fastforce
qed

section \<open>The response\<close>

text \<open>
  \<open>read_response\<close>: the first 1024 bytes of the response are read into an array of 1025 on the stack,
  whose contents nobody has set, and printed as a C string.
\<close>

definition read_response :: "char list \<Rightarrow> sock \<Rightarrow> (string \<times> sock) res" where
  "read_response stack sk =
     (case sys_read sk 1024 of (count, d, sk') \<Rightarrow>
      let buf = overwrite stack 0 d in
      if CHR 0x00 \<in> set buf then Inr (takeWhile (\<lambda>c. c \<noteq> CHR 0x00) buf, sk') else Inl OutOfBounds)"

text \<open>
  What is printed is the response and then whatever was on the stack, up to the first zero byte;
  without one the program reads beyond the array.
\<close>

theorem read_response_prints_stack:
  assumes "length stack = 1025" "rx sk = RData d # r" "length d \<le> 1024" "CHR 0x00 \<notin> set d"
  shows "read_response stack sk =
    (if CHR 0x00 \<in> set (drop (length d) stack)
     then Inr (d @ takeWhile (\<lambda>c. c \<noteq> CHR 0x00) (drop (length d) stack), sk\<lparr>rx := r, received := received sk @ d\<rparr>)
     else Inl OutOfBounds)"
proof -
  have "takeWhile (\<lambda>c. c \<noteq> CHR 0x00) (d @ x) = d @ takeWhile (\<lambda>c. c \<noteq> CHR 0x00) x" for x
    by (rule takeWhile_append2) (use assms(4) in auto)
  with assms show ?thesis by (simp add: read_response_def sys_read_def Let_def overwrite_def)
qed

section \<open>The program\<close>

text \<open>
  \<open>main\<close> of \<open>simple_attack\<close>: an exit status, or the address it connected to, what it printed of the
  response and the socket.  The options of \<open>connect_TCP\<close> are its defaults.
\<close>

definition attack_program ::
    "bool \<Rightarrow> resolver \<Rightarrow> bool \<Rightarrow> (sockaddr_in \<Rightarrow> bool) \<Rightarrow> string list \<Rightarrow> (nat \<Rightarrow> nat) \<Rightarrow> char list \<Rightarrow> sock \<Rightarrow>
     (nat + sockaddr_in \<times> string \<times> sock) res" where
  "attack_program sc R socket_created connected argv rnd stack sk =
     bindE (attack_options sc argv) (\<lambda>cmd.
       case cmd of
         Exit n \<Rightarrow> Inr (Inl n)
       | Run x \<Rightarrow>
           bindE (attack_connect_TCP R socket_created (- 1) True connected (at_host x) (at_port x)) (\<lambda>addr.
           bindE (attack_main (at_host x) (unat (at_port x)) (at_body_size x) rnd sk) (\<lambda>sk1.
           bindE (read_response stack sk1) (\<lambda>r. Inr (Inr (addr, r))))))"

text \<open>A negative size is accepted and announced as a negative \<open>Content-Length\<close>, with no body.\<close>

lemma negative_size_announced:
  assumes "- (2 ^ 31) \<le> body_size" "body_size \<le> - 600"
  shows "\<exists>n > 0. attack_main host port body_size rnd sk =
    Inr (fold attack_write (post_header (''Host: '' @ host @ '':'' @ to_string port @ CRLF) (- n) True 600 @ [[]]) sk)
    \<and> content_length (- n) True 600 < 0"
proof -
  define n where "n = (- body_size) div 600"
  have n: "0 < n" "n * 600 \<le> - body_size" unfolding n_def using assms(2) by linarith+
  have q: "int_quot body_size 600 = - n" using assms(2) by (simp add: int_quot_def n_def)
  have r: "int_range (600 * (- n))" using n assms(1) by (simp add: int_range_def)
  have "post_attack hh rnd (- n) True 600 sk = Inr (fold attack_write (post_header hh (- n) True 600 @ [[]]) sk)" for hh
    using n(1) r by (simp add: post_attack_def content_length_def post_tail_def)
  moreover have "content_length (- n) True 600 < 0" using n(1) by (simp add: content_length_def)
  ultimately show ?thesis unfolding attack_main_def q using n(1) by blast
qed

end
