(* ===== verification/Spec2Isabelle.thy ===== *)
theory Spec2Isabelle
  imports Resources EventSim Progress Program Speedlimit Attack
begin

text \<open>
  LSProxy (\<open>src/src\<close>) is a proxy that protects a web server against low-and-slow attacks.  It
  relays bytes while a connection is fast; when the monitor finds a connection slow, it is put into slow mode, where
  requests are collected in files and passed to the server one at a time, and responses are
  collected and delivered at the client's pace.  This development models the program's
  state and every operation that changes it, and proves what makes them correct.

  \<^bold>\<open>How the program is modelled.\<close>  Classes are records, pointers that may be null are options,
  virtual methods are a table of functions, a libevent event is whether it is pending (which
  \<open>EventRep\<close> justifies on a heap of events).  An
  operation takes the state and returns a fault (\<open>Inl\<close>: out-of-bounds access, null
  dereference, use after free, failed assertion, \<open>ERROR_EXIT\<close>, fuel exhausted) or the new state
  (\<open>Inr\<close>); \<open>delete this\<close> ends a handler with \<open>Deleted\<close>.  What the system answers (sockets, files,
  \<open>bind\<close>, \<open>connect\<close>, \<open>mkstemp\<close>) is data of the sockets, disks and environments the
  operations take, and the theorems hold for all of it; \<open>env_ok\<close> and \<open>event_ok\<close> say that no call
  fails on which the program aborts.  Counters and addresses are words of the width they have in the source, the
  cursors of \<open>Hybridbuf\<close> wrap explicitly.  Ghost fields record the bytes a socket transferred and the
  servers a connection had.

  \<^bold>\<open>The theories and the sources.\<close>
    \<^item> \<open>Prelude\<close>: faults, the error monad, unsigned subtraction, bounds-checked memory.
    \<^item> \<open>Config\<close>: the constants of \<open>ls_proxy.h\<close>, the one \<open>global_buffer\<close>.
    \<^item> \<open>Sysio\<close>: sockets, \<open>read_all\<close> and \<open>write_all\<close> (\<open>ls_proxy.cpp\<close>).
    \<^item> \<open>Files\<close>: \<open>Filebuf\<close>, \<open>Hybridbuf\<close>, \<open>FIFOfilebuf\<close> (\<open>buffer.h\<close>, \<open>buffer.cpp\<close>), their interface as the
      locales \<open>byte_store\<close>, \<open>shared_cursor_store\<close>, \<open>seekable_store\<close>, \<open>fifo_store\<close>, \<open>store_copy\<close>; \<open>Stores\<close>: what they
      promise from construction on.
    \<^item> \<open>Circular\<close>: \<open>Circularbuf\<close>, its interface as the locale \<open>output_queue\<close>.
    \<^item> \<open>Parser\<close>: \<open>HttpParser\<close> and its callbacks, over llhttp as a parameter with the hypothesis \<open>llhttp_ok\<close>.
    \<^item> \<open>Net\<close>: the network utilities of \<open>ls_proxy.cpp\<close>.
    \<^item> \<open>Conn\<close>: \<open>Client\<close>, \<open>Server\<close>, \<open>Connection\<close>: data, construction and destruction, the switch to slow mode,
      fast-mode forwarding; \<open>Handlers\<close>: the event handlers of \<open>client.cpp\<close> and \<open>server.cpp\<close>; \<open>Monitor\<close>:
      accepting, the monitor, the slow-mode signal.
    \<^item> \<open>Invariants\<close>, \<open>Slowmode\<close>: the modes of a connection and that every handler keeps them without a fault.
    \<^item> \<open>System\<close>: \<open>main\<close>, the event loop as a step function, the reachable states; the contract of a handler is
      the locale \<open>conn_handler\<close>, interpreted for every handler.
    \<^item> \<open>Dataflow\<close>: the streams of bytes (\<open>data_handler\<close>); \<open>Modes\<close>: slow mode over time (\<open>slow_handler\<close>);
      \<open>Transfers\<close>: what single operations do to a connection's data.
    \<^item> \<open>Steps\<close>: the operations on one connection as a step relation, every event as a sequence of them, and the
      graph of modes a connection follows; on it \<open>Resources\<close> (the budgets of descriptors and memory), \<open>Requests\<close>
      (the request stream of slow mode from end to end) and \<open>Serverload\<close> (when servers are opened and freed, what a tick
      of the monitor does to all connections), \<open>Signals\<close> (what the slow-mode signal and its timer do to all connections) and \<open>Progress\<close>
      (the transfers of slow mode end, an instance of the locale \<open>draining\<close> in each direction).
    \<^item> \<open>Events\<close>: the wrappers around libevent and the timers of \<open>ls_proxy.h\<close>, the events \<open>Client\<close> and \<open>Server\<close> own,
      over libevent as a parameter with the hypothesis \<open>libevent_ok\<close>; \<open>EventRep\<close>: the representation \<open>events_rep\<close>, kept by
      every step on events (\<open>evt_step\<close>), relates the events in memory to the booleans of \<open>Conn\<close> and to the scan of \<open>Monitor\<close>;
      \<open>EventSim\<close>: by the locale \<open>forward_simulation\<close> every event of the process is carried out by such steps.
    \<^item> \<open>Options\<close>: \<open>atoi\<close>, GNU \<open>getopt\<close> and the command lines of the three programs; \<open>Startup\<close>: \<open>get_host_and_port\<close>,
      \<open>resolve_host\<close>, \<open>main\<close> from its command line on, the temporary files and \<open>abort_and_dump\<close>; \<open>Program\<close>: the whole of \<open>main\<close>, from
      the command line through the event loop, until \<open>SIGINT\<close> breaks it, to the exit status.
    \<^item> \<open>Speedlimit\<close>, \<open>Attack\<close>: the tools \<open>utils/speed_limit_proxy\<close> and \<open>utils/simple_attack\<close>.

  \<^bold>\<open>What is shown.\<close>  The buffers implement queues and byte stores, on healthy and on failing disks
  (\<open>Circular\<close>, \<open>Stores\<close>).  From the start of \<open>main\<close>, whatever events come, every connection is in a well-formed mode,
  the counters are exact, some event is always pending, no buffer is overrun and no assertion fails; the bytes
  relayed are the bytes received, in order (this theory).  Slow mode splits, sends and puts back
  exactly (\<open>Transfers\<close>), and the servers it opens one after the other get the request stream unchanged
  (\<open>Requests\<close>); a server is opened only for data of its own client, in slow mode only once they complete a request, and
  each tick of the monitor decides about every connection by its own counters (\<open>Serverload\<close>); the slow-mode signal reaches
  exactly the connections it should (\<open>Signals\<close>), and requests and responses in the files reach their receiver in a
  bounded number of events (\<open>Progress\<close>).  A connection follows the graph of modes, the descriptors and buffers in use stay within the
  documented budgets (\<open>Steps\<close>, \<open>Resources\<close>); events, timers, callback arguments and temporary files are accounted for
  (\<open>Events\<close>, \<open>EventRep\<close>, \<open>Startup\<close>), in every state the process can reach (\<open>EventSim\<close>); a correct command line is understood in
  any order (\<open>Options\<close>), and the program as a whole runs until it is interrupted and then leaves nothing behind (\<open>Program\<close>).
  Where the code does not do what it means to, the theorem says exactly when: the log line
  that dereferences a freed queue, the use after free of the delayed timer, the last reply and
  the last bytes lost around the transition, the request that is sent twice, the pipelined request that
  waits, the destructors that read a freed event, the host whose IPv6 address is misread, the command lines that go
  wrong, and that connections in slow mode are always dropped by the second tick of the monitor.

  \<^bold>\<open>Bounds and fuel.\<close>  Three loops carry fuel: \<open>Filebuf_copy_loop\<close> gets one round more than the source holds
  bytes, \<open>dump_loop\<close> as many rounds as the queue holds bytes, and the read-back loop \<open>rw_fetch\<close> as many as it asks for;
  each round moves a byte, and the theorems show that the fuel is never exhausted.  The bounds on
  traffic in the statements (2^62 bytes) keep 64-bit sums from wrapping.

  \<^bold>\<open>Not modelled.\<close>  llhttp (a binary library; a parameter), libevent itself (a parameter; its choice of the next
  event is every order, its loop is \<open>event_loop\<close> over \<open>dispatch\<close>), DNS (a parameter), help texts, logging other than the arguments that
  can fault, and in the tools sleeping and terminal output.  The destructors' read of a freed event
  (\<open>Events\<close>) is kept out of \<open>Connection_delete\<close>, which goes on with the right descriptor, as the
  program does when the memory has not been reused; otherwise no run would survive its first deletion.
  The repository's tests are not modelled (they are compiled with other constants), but for the read-back loop
  of the buffer test, which is the round trip of \<open>Stores\<close>.  The copies of the event wrappers and of the address functions in
  \<open>speed_limit_proxy\<close> are those of the main program.
\<close>

section \<open>The running proxy\<close>



text \<open>
  C7: in every reachable state every connection is in one of the program's modes (just accepted,
  relaying, delivering a last reply, switching, receiving, waiting for the server, or delivering
  in slow mode), with exactly the buffers, parser, server and pending events that mode needs, and
  every buffer in the pool is empty and well formed.
\<close>

theorem reachable_modes:
  assumes "llhttp_ok ll" "reachable ll st" "map_of (pconns st) i = Some c"
  shows "conn_inv c \<and> (\<forall>h \<in> set (hybridbuf_pool (pworld st)). clean_history h)
    \<and> length (hybridbuf_pool (pworld st)) \<le> MAX_HYBRID_POOL"
  using reachable_proxy_inv [OF assms(1,2)] assms(3) by (auto simp: proxy_inv_def world_inv_def)

theorem reachable_modes_witness:
  "\<exists>st c. reachable line_llhttp st \<and> map_of (pconns st) 0 = Some c \<and> \<not> fast_mode c \<and> conn_inv c"
proof -
  obtain st c where "reachable line_llhttp st" "map_of (pconns st) 0 = Some c" "\<not> fast_mode c" by (rule slow_connection)
  with reachable_modes [OF line_llhttp_ok this(1,2)] show ?thesis by blast
qed

text \<open>
  C14: the counters are exact.  \<open>connection_count\<close> is the number of live connections and never
  exceeds \<open>MAX_CONNECTION\<close>; \<open>active_count\<close> is the number of connections with a server.
\<close>

theorem reachable_counters:
  assumes "llhttp_ok ll" "reachable ll st"
  shows "connection_count (pworld st) = length (pconns st) \<and> length (pconns st) \<le> MAX_CONNECTION
    \<and> unat (active_count (pworld st)) = length (filter (\<lambda>(i, c). server c \<noteq> None) (pconns st))"
proof -
  from reachable_proxy_inv [OF assms] have p: "connection_count (pworld st) = length (pconns st)"
    "length (pconns st) \<le> MAX_CONNECTION" "active_count (pworld st) = count_servers (pconns st)"
    by (simp_all add: proxy_inv_def)
  let ?n = "length (filter (\<lambda>(i, c). server c \<noteq> None) (pconns st))"
  have "?n \<le> MAX_CONNECTION" using length_filter_le p(2) by (rule le_trans)
  also have "\<dots> < 2 ^ LENGTH(32)" by (simp add: MAX_CONNECTION_def)
  finally have "?n < 2 ^ LENGTH(32)" .
  with p show ?thesis by (simp add: count_servers_length unat_of_nat_small)
qed

theorem reachable_counters_witness:
  "\<exists>st. reachable line_llhttp st \<and> connection_count (pworld st) = 1 \<and> unat (active_count (pworld st)) = 0"
proof -
  obtain st h where "reachable line_llhttp st" "pconns st = [(0, new_conn idle_sock h)]" by (rule first_connection [OF good_env_ok(2)])
  with reachable_counters [OF line_llhttp_ok this(1)] show ?thesis by (auto simp: new_conn_def)
qed



text \<open>
  C3: in fast mode the request stream is relayed unchanged: what the server was sent, followed
  by what is queued for it, is exactly what was read from the client.
\<close>

theorem requests_relayed_faithfully:
  assumes "llhttp_ok ll" "reachable ll st" "map_of (pconns st) i = Some c" "fast_mode c"
    "server c = Some sv" "s_queued_output sv = Some sq"
  shows "sent (s_sock sv) @ Circularbuf_contents sq = received (c_sock (client c))"
  using reachable_data_inv [OF assms(1,2)] assms(3-6) by (auto simp: all_data_inv_def data_inv_def request_inv_def)

theorem requests_relayed_faithfully_witness:
  "\<exists>st c sv sq. reachable line_llhttp st \<and> map_of (pconns st) 0 = Some c \<and> server c = Some sv \<and> s_queued_output sv = Some sq
     \<and> sent (s_sock sv) @ Circularbuf_contents sq = ''GET''"
proof -
  obtain st c sv sq where c: "reachable line_llhttp st" "map_of (pconns st) 0 = Some c" "fast_active c"
    "server c = Some sv" "s_queued_output sv = Some sq" "received (c_sock (client c)) = ''GET''" by (rule relaying_connection)
  then have "fast_mode c" by (simp add: fast_active_def)
  with c requests_relayed_faithfully [OF line_llhttp_ok c(1,2) _ c(4,5)] show ?thesis by metis
qed

text \<open>Slow mode is for good: no event brings a connection back to fast mode.\<close>

theorem slow_mode_irreversible:
  assumes "llhttp_ok ll" "reachable ll st" "map_of (pconns st) i = Some c" "\<not> fast_mode c"
    "run_of ll st evs st'" "map_of (pconns st') i = Some c'"
  shows "\<not> fast_mode c'"
  using assms(5,2,3,4,6)
proof (induction arbitrary: c rule: run_of.induct)
  case (event ev st st1 evs st')
  have inv: "proxy_inv st" by (rule reachable_proxy_inv [OF assms(1) event.prems(1)])
  have r1: "reachable ll st1" by (rule reachable.step [OF event.prems(1) event.hyps(1-3)])
  show ?case
  proof (cases "map_of (pconns st1) i")
    case None
    from inv event.prems(2) have "i < next_id st" by (auto simp: proxy_inv_def)
    with dispatch_next_id [OF event.hyps(3)] run_of_gone [OF event.hyps(4) None] event.prems(4) show ?thesis by simp
  next
    case (Some c1)
    with dispatch_stays_slow [OF inv event.hyps(3) event.prems(2,3)] event.IH [OF r1] event.prems(4) show ?thesis by blast
  qed
qed simp

theorem slow_mode_irreversible_witness:
  "\<exists>st c st'. reachable line_llhttp st \<and> map_of (pconns st) 0 = Some c \<and> \<not> fast_mode c
     \<and> run_of line_llhttp st [SlowSignal] st' \<and> (\<exists>c'. map_of (pconns st') 0 = Some c' \<and> \<not> fast_mode c')"
proof -
  obtain st and c :: "unit connection" where st: "reachable line_llhttp st" "map_of (pconns st) 0 = Some c" "\<not> fast_mode c"
    by (rule slow_connection)
  let ?st = "st\<lparr>scheduled := scheduled st @ [put_all_connection_slow_mode (pconns st)]\<rparr>"
  have r: "run_of line_llhttp st [SlowSignal] ?st" "map_of (pconns ?st) 0 = Some c"
    using st(2) by (simp_all add: event_ok_def enabled_def dispatch_def)
  with st slow_mode_irreversible [OF line_llhttp_ok st r] show ?thesis by blast
qed

text \<open>
  C19: traffic in slow mode is not counted, so a connection in slow mode does not survive a
  second tick of the monitor, however much it transfers in between: of any run that contains two
  ticks after the switch it is gone at the end.
\<close>

theorem slow_connection_dropped:
  assumes "llhttp_ok ll" "reachable ll st" "map_of (pconns st) i = Some c" "\<not> fast_mode c"
    "run_of ll st (MonitorTick envs1 # evs @ [MonitorTick envs2]) st'"
  shows "map_of (pconns st') i = None"
proof -
  from assms(5) obtain st1 st2 where r: "event_ok (MonitorTick envs1)" "enabled (MonitorTick envs1) st"
    "dispatch ll (MonitorTick envs1) st = Inr st1" "run_of ll st1 evs st2" "dispatch ll (MonitorTick envs2) st2 = Inr st'"
    by (auto simp: run_of_append)
  from assms(2) r(1-3) have st1: "reachable ll st1" by (rule reachable.step)
  have "spent i st1" using reachable_proxy_inv [OF assms(1,2)] r(3) assms(3,4) by (rule tick_spent)
  with r(4) assms(1) st1 have "spent i st2" by (rule run_of_spent)
  with reachable_proxy_inv [OF assms(1) run_of_reachable [OF r(4) st1]] r(5) show ?thesis by (rule tick_drops_spent)
qed

theorem slow_connection_dropped_witness:
  "\<exists>st c st'. reachable line_llhttp st \<and> map_of (pconns st) 0 = Some c \<and> \<not> fast_mode c
     \<and> run_of line_llhttp st [MonitorTick (\<lambda>_. good_env), MonitorTick (\<lambda>_. good_env)] st' \<and> map_of (pconns st') 0 = None"
proof -
  let ?tick = "MonitorTick (\<lambda>_. good_env)"
  obtain st and c :: "unit connection" where st: "reachable line_llhttp st" "map_of (pconns st) 0 = Some c" "\<not> fast_mode c"
    by (rule slow_connection)
  have ok: "event_ok ?tick" "enabled ?tick s" for s :: "unit proxy" by (simp_all add: event_ok_def enabled_def)
  obtain st1 where st1: "dispatch line_llhttp ?tick st = Inr st1"
    using tick_succeeds [OF line_llhttp_ok reachable_proxy_inv [OF line_llhttp_ok st(1)]] .
  have r1: "reachable line_llhttp st1" by (rule reachable.step [OF st(1) ok st1])
  obtain st2 where st2: "dispatch line_llhttp ?tick st1 = Inr st2"
    using tick_succeeds [OF line_llhttp_ok reachable_proxy_inv [OF line_llhttp_ok r1]] .
  with st1 ok have "run_of line_llhttp st (?tick # [] @ [?tick]) st2" by simp
  with slow_connection_dropped [OF line_llhttp_ok st this] st show ?thesis by auto
qed

end
